(* ===== verification/Prelude.thy ===== *)
theory Prelude
  imports Main "HOL-Library.Word"
begin

unbundle bit_operations_syntax

text \<open>
  Shared vocabulary of the development: the fixed-width C integers of the sources as
  words, and the generic facts about words, lists and sums that more than one component uses.
  Addresses and \<^verbatim>\<open>uint64_t\<close> values are 64-bit words, \<^verbatim>\<open>uint32_t\<close> and \<^verbatim>\<open>unsigned int\<close> are
  32-bit words, \<^verbatim>\<open>uint8_t\<close> and \<^verbatim>\<open>char\<close> are bytes; the arithmetic on them wraps as it does in C.
\<close>

type_synonym u8 = "8 word"
type_synonym u16 = "16 word"
type_synonym u32 = "32 word"
type_synonym u64 = "64 word"

text \<open>A C pointer is its address; the null pointer is address 0.\<close>

type_synonym ptr = u64

abbreviation NULL :: ptr where
  "NULL \<equiv> 0"

named_theorems heap_simps "reading and writing of the modelled memories"
named_theorems inv_simps "unfolding of the component invariants"

section \<open>Word facts\<close>

lemma unat_take_bit_lt:
  fixes w :: "'a::len word"
  shows "unat (take_bit n w) < 2 ^ n"
  by (simp add: unsigned_take_bit_eq)

lemma unat_lt_64: "unat (w :: u64) < 18446744073709551616"
  using unsigned_less [of w, where 'a = nat] by simp

lemma unat_lt_32: "unat (w :: u32) < 4294967296"
  using unsigned_less [of w, where 'a = nat] by simp

lemma and_mask9: "(w :: u64) AND 0x1FF = take_bit 9 w"
  by (simp add: take_bit_eq_mask mask_eq_exp_minus_1)

lemma and_mask12: "(w :: u64) AND 0xfff = take_bit 12 w"
  by (simp add: take_bit_eq_mask mask_eq_exp_minus_1)

section \<open>Sequencing of fallible operations\<close>

definition bindE :: "'e + 'a \<Rightarrow> ('a \<Rightarrow> 'e + 'b) \<Rightarrow> 'e + 'b" where
  "bindE r f = (case r of Inl e \<Rightarrow> Inl e | Inr x \<Rightarrow> f x)"

lemma bindE_simps [simp]: "bindE (Inl e) f = Inl e" "bindE (Inr x) f = f x"
  by (simp_all add: bindE_def)

end
