(* ===== verification/Pte.thy ===== *)
theory Pte
  imports Prelude
begin

text \<open>
  The macros of \<^verbatim>\<open>src/hw1_os/pt.c\<close> (and \<^verbatim>\<open>NO_MAPPING\<close> of \<^verbatim>\<open>os.h\<close>) on page-table entries
  and virtual page numbers, and what they compute: an entry is a frame number above twelve
  flag bits, a 45-bit virtual page number is five 9-bit indices.
\<close>

section \<open>Macros\<close>

definition NO_MAPPING :: u64 where
  "NO_MAPPING = NOT 0"

definition PT_SIZE_BYTES :: nat where
  "PT_SIZE_BYTES = 4096"

definition PT_ENTRY_SIZE_BYTES :: nat where
  "PT_ENTRY_SIZE_BYTES = 8"

definition PT_ENTRIES_NUM :: nat where
  "PT_ENTRIES_NUM = PT_SIZE_BYTES div PT_ENTRY_SIZE_BYTES"

definition OFFSET_BITS :: nat where
  "OFFSET_BITS = 12"

definition PHYSICAL_ADDR :: "u64 \<Rightarrow> u64 \<Rightarrow> u64" where
  "PHYSICAL_ADDR ppn offset = push_bit OFFSET_BITS ppn OR offset"

definition VPN_SUB_BIT_SIZE :: nat where
  "VPN_SUB_BIT_SIZE = 9"

definition VPN_BIT_SIZE :: nat where
  "VPN_BIT_SIZE = 45"

definition TRIE_DEPTH :: nat where
  "TRIE_DEPTH = VPN_BIT_SIZE div VPN_SUB_BIT_SIZE"

definition VPN_BASE_MASK :: u64 where
  "VPN_BASE_MASK = 0x1FF"

definition VPN_I :: "u64 \<Rightarrow> nat \<Rightarrow> u64" where
  "VPN_I vpn i = drop_bit (VPN_SUB_BIT_SIZE * (TRIE_DEPTH - i)) vpn AND VPN_BASE_MASK"

type_synonym pt_entry = u64

definition IS_VALID_PTE :: "pt_entry \<Rightarrow> bool" where
  "IS_VALID_PTE pte \<longleftrightarrow> pte AND 1 \<noteq> 0"

definition SET_VALID :: "pt_entry \<Rightarrow> pt_entry" where
  "SET_VALID pte = pte OR 1"

definition GET_FRAME_N :: "pt_entry \<Rightarrow> u64" where
  "GET_FRAME_N pte = drop_bit 12 pte"

definition SET_FRAME_N :: "pt_entry \<Rightarrow> u64 \<Rightarrow> pt_entry" where
  "SET_FRAME_N pte frame_n = pte OR push_bit 12 frame_n"

section \<open>Facts\<close>

definition mk_pte :: "u64 \<Rightarrow> pt_entry" where
  "mk_pte frame = SET_VALID (SET_FRAME_N 0 frame)"

lemmas vpn_consts = VPN_SUB_BIT_SIZE_def VPN_BIT_SIZE_def TRIE_DEPTH_def

lemma TRIE_DEPTH_5 [simp]: "TRIE_DEPTH = 5"
  by (simp add: vpn_consts)

lemma PT_ENTRIES_NUM_512: "PT_ENTRIES_NUM = 512"
  by (simp add: PT_ENTRIES_NUM_def PT_SIZE_BYTES_def PT_ENTRY_SIZE_BYTES_def)

lemma VPN_I_take_bit: "VPN_I vpn i = take_bit 9 (drop_bit (9 * (5 - i)) vpn)"
  by (simp add: VPN_I_def VPN_BASE_MASK_def and_mask9 VPN_SUB_BIT_SIZE_def)

lemma VPN_I_lt [simp]: "VPN_I vpn i < 512"
proof -
  have "unat (VPN_I vpn i) < 2 ^ 9"
    unfolding VPN_I_take_bit by (rule unat_take_bit_lt)
  then show ?thesis by (simp add: word_less_nat_alt)
qed

lemma not_valid_0 [simp]: "\<not> IS_VALID_PTE 0"
  by (simp add: IS_VALID_PTE_def)

lemma valid_iff_odd: "IS_VALID_PTE e \<longleftrightarrow> odd e"
  by (simp add: IS_VALID_PTE_def and_one_eq odd_iff_mod_2_eq_one)

lemma valid_mk_pte [simp]: "IS_VALID_PTE (mk_pte f)"
  by (simp add: valid_iff_odd mk_pte_def SET_VALID_def even_or_iff)

lemma frame_mk_pte [simp]: "GET_FRAME_N (mk_pte f) = take_bit 52 f"
  by (simp add: GET_FRAME_N_def mk_pte_def SET_VALID_def SET_FRAME_N_def drop_bit_push_bit)
     (rule bit_eqI, auto simp: bit_simps)

lemma set_order: "SET_FRAME_N (SET_VALID 0) f = mk_pte f"
  by (simp add: mk_pte_def SET_FRAME_N_def SET_VALID_def or.commute)

end
