(* ===== verification/Frame_Store.thy ===== *)
theory Frame_Store
  imports Pte
begin

text \<open>
  The interface between the page-table code and the memory it stands on, as the locale
  \<open>frame_store\<close>: frames of 512 entries that are read, written and allocated zeroed.
  The theory states, over the reading function alone, what a page table denotes
  (\<open>trie_lookup\<close>) and what makes a set of page tables well formed (\<open>forest\<close>: every frame
  in use belongs to exactly one table, at one place of its tree), and proves once, inside
  the locale, what the two writes of the page-table code (link a fresh node, overwrite a
  leaf) do to both.
\<close>

section \<open>What a page table denotes\<close>

text \<open>
  Following a list of indices from a frame through valid entries.  Four indices lead from a
  root to a last-level node, five to the frame that is mapped.
\<close>

fun trie_lookup :: "(u64 \<Rightarrow> u64 \<Rightarrow> pt_entry) \<Rightarrow> u64 \<Rightarrow> u64 list \<Rightarrow> u64 option" where
  "trie_lookup R f [] = Some f"
| "trie_lookup R f (i # is) =
     (if IS_VALID_PTE (R f i) then trie_lookup R (GET_FRAME_N (R f i)) is else None)"

lemma trie_lookup_append:
  "trie_lookup R f (p @ q) = Option.bind (trie_lookup R f p) (\<lambda>g. trie_lookup R g q)"
  by (induction p arbitrary: f) auto

definition vpn_path :: "u64 \<Rightarrow> nat \<Rightarrow> u64 list" where
  "vpn_path vpn n = map (VPN_I vpn) [1..<Suc n]"

definition translation :: "(u64 \<Rightarrow> u64 \<Rightarrow> pt_entry) \<Rightarrow> u64 \<Rightarrow> u64 \<Rightarrow> u64 option" where
  "translation R pt vpn = trie_lookup R pt (vpn_path vpn TRIE_DEPTH)"

section \<open>Well-formed page tables\<close>

text \<open>
  \<open>own f = Some (r, p)\<close>: frame \<open>f\<close> is the node that the path \<open>p\<close> reaches in the table with
  root \<open>r\<close>.  Entries of the upper four levels are zero or lead to the node that owns the
  extended path; entries of the last level are unconstrained.
\<close>

type_synonym owners = "u64 \<Rightarrow> (u64 \<times> u64 list) option"

definition inner_entry_ok :: "owners \<Rightarrow> u64 \<Rightarrow> u64 list \<Rightarrow> u64 \<Rightarrow> pt_entry \<Rightarrow> bool" where
  "inner_entry_ok own r p i e \<longleftrightarrow>
     e = 0 \<or> (\<exists>g. e = mk_pte g \<and> own g = Some (r, p @ [i]))"

definition parent_ok :: "(u64 \<Rightarrow> u64 \<Rightarrow> pt_entry) \<Rightarrow> owners \<Rightarrow> u64 \<Rightarrow> u64 \<Rightarrow> u64 list \<Rightarrow> bool" where
  "parent_ok R own f r p \<longleftrightarrow>
     (if p = [] then f = r
      else last p < 512 \<and> (\<exists>g. own g = Some (r, butlast p) \<and> R g (last p) = mk_pte f))"

definition node_ok ::
  "(u64 \<Rightarrow> u64 \<Rightarrow> pt_entry) \<Rightarrow> (u64 \<Rightarrow> bool) \<Rightarrow> owners \<Rightarrow> u64 \<Rightarrow> u64 \<Rightarrow> u64 list \<Rightarrow> bool" where
  "node_ok R L own f r p \<longleftrightarrow>
     L f \<and> length p \<le> 4 \<and> parent_ok R own f r p \<and>
     (length p < 4 \<longrightarrow> (\<forall>i < 512. inner_entry_ok own r p i (R f i)))"

definition forest ::
  "(u64 \<Rightarrow> u64 \<Rightarrow> pt_entry) \<Rightarrow> (u64 \<Rightarrow> bool) \<Rightarrow> u64 set \<Rightarrow> owners \<Rightarrow> bool" where
  "forest R L roots own \<longleftrightarrow>
     (\<forall>r \<in> roots. own r = Some (r, [])) \<and>
     (\<forall>f r p. own f = Some (r, p) \<longrightarrow> r \<in> roots \<and> node_ok R L own f r p)"

lemma forestD:
  assumes "forest R L roots own" "own f = Some (r, p)"
  shows "r \<in> roots" "L f" "length p \<le> 4" "parent_ok R own f r p"
    "length p < 4 \<Longrightarrow> i < 512 \<Longrightarrow> inner_entry_ok own r p i (R f i)"
  using assms unfolding forest_def node_ok_def by blast+

lemma inner_entry_ok_extend:
  assumes "inner_entry_ok own r p i e" "own h = None"
  shows "inner_entry_ok (own(h \<mapsto> z)) r p i e"
proof (cases "e = 0")
  case False
  then obtain g where "e = mk_pte g" "own g = Some (r, p @ [i])"
    using assms(1) by (auto simp: inner_entry_ok_def)
  moreover from this assms(2) have "g \<noteq> h" by auto
  ultimately show ?thesis by (auto simp: inner_entry_ok_def intro!: exI [of _ g])
qed (simp add: inner_entry_ok_def)

lemma forest_root: "forest R L roots own \<Longrightarrow> r \<in> roots \<Longrightarrow> own r = Some (r, [])"
  by (simp add: forest_def)

lemma forest_empty: "forest R L {} Map.empty"
  by (simp add: forest_def)

section \<open>The interface\<close>

locale frame_store =
  fixes alloc :: "'s \<Rightarrow> 'e + u64 \<times> 's"
    and rd :: "'s \<Rightarrow> u64 \<Rightarrow> u64 \<Rightarrow> pt_entry"
    and wr :: "'s \<Rightarrow> u64 \<Rightarrow> u64 \<Rightarrow> pt_entry \<Rightarrow> 's"
    and live :: "'s \<Rightarrow> u64 \<Rightarrow> bool"
    and good :: "'s \<Rightarrow> bool"
  assumes rd_wr: "good s \<Longrightarrow> live s f \<Longrightarrow> live s g \<Longrightarrow> i < 512 \<Longrightarrow> j < 512 \<Longrightarrow>
      rd (wr s f i e) g j = (if g = f \<and> j = i then e else rd s g j)"
    and wr_good: "good s \<Longrightarrow> live s f \<Longrightarrow> i < 512 \<Longrightarrow> good (wr s f i e)"
    and wr_live: "live (wr s f i e) g = live s g"
    and alloc_good: "good s \<Longrightarrow> alloc s = Inr (f, t) \<Longrightarrow> good t"
    and alloc_new: "good s \<Longrightarrow> alloc s = Inr (f, t) \<Longrightarrow> \<not> live s f"
    and alloc_live: "good s \<Longrightarrow> alloc s = Inr (f, t) \<Longrightarrow> live t g \<longleftrightarrow> g = f \<or> live s g"
    and alloc_zero: "good s \<Longrightarrow> alloc s = Inr (f, t) \<Longrightarrow> i < 512 \<Longrightarrow> rd t f i = 0"
    and alloc_rd: "good s \<Longrightarrow> alloc s = Inr (f, t) \<Longrightarrow> live s g \<Longrightarrow> i < 512 \<Longrightarrow> rd t g i = rd s g i"
    and live_small: "good s \<Longrightarrow> live s f \<Longrightarrow> take_bit 52 f = f"
begin

lemma child:
  assumes "good s" "forest (rd s) (live s) roots own" "own f = Some (r, p)"
    "length p < 4" "i < 512" "IS_VALID_PTE (rd s f i)"
  shows "own (GET_FRAME_N (rd s f i)) = Some (r, p @ [i])"
proof -
  obtain g where g: "rd s f i = mk_pte g" "own g = Some (r, p @ [i])"
    using forestD(5) [OF assms(2,3,4,5)] assms(6) by (auto simp: inner_entry_ok_def)
  moreover have "take_bit 52 g = g"
    using live_small [OF assms(1)] forestD(2) [OF assms(2) g(2)] by simp
  ultimately show ?thesis by simp
qed

lemma own_inj:
  assumes "good s" "forest (rd s) (live s) roots own" "own f = Some (r, p)" "own g = Some (r, p)"
  shows "f = g"
  using assms(3,4)
proof (induction p arbitrary: f g rule: rev_induct)
  case Nil
  then show ?case
    using forestD(4) [OF assms(2), of f r "[]"] forestD(4) [OF assms(2), of g r "[]"]
    by (simp add: parent_ok_def)
next
  case (snoc i p)
  have small: "take_bit 52 f = f" "take_bit 52 g = g"
    using live_small [OF assms(1)] forestD(2) [OF assms(2)] snoc.prems by auto
  obtain a where "own a = Some (r, p)" "rd s a i = mk_pte f"
    using forestD(4) [OF assms(2) snoc.prems(1)] by (auto simp: parent_ok_def)
  moreover obtain b where "own b = Some (r, p)" "rd s b i = mk_pte g"
    using forestD(4) [OF assms(2) snoc.prems(2)] by (auto simp: parent_ok_def)
  ultimately have "mk_pte f = mk_pte g" using snoc.IH [of a b] by simp
  then have "GET_FRAME_N (mk_pte f) = GET_FRAME_N (mk_pte g)" by (rule arg_cong)
  then show ?case unfolding frame_mk_pte small .
qed

text \<open>The entries on the way to a node are valid.\<close>

lemma ancestor_valid:
  assumes "good s" "forest (rd s) (live s) roots own"
    "own f = Some (r, q)" "own g = Some (r, q @ j # is)"
  shows "IS_VALID_PTE (rd s f j)"
  using assms(4)
proof (induction "is" arbitrary: g rule: rev_induct)
  case Nil
  then obtain a where "own a = Some (r, q)" "rd s a j = mk_pte g"
    using forestD(4) [OF assms(2) Nil] by (auto simp: parent_ok_def)
  then show ?case using own_inj [OF assms(1,2,3)] by simp
next
  case (snoc x xs)
  then obtain a where "own a = Some (r, q @ j # xs)"
    using forestD(4) [OF assms(2) snoc.prems] by (auto simp: parent_ok_def butlast_append)
  then show ?case by (rule snoc.IH)
qed

lemma lookup_own:
  assumes "good s" "forest (rd s) (live s) roots own" "own f = Some (r, p)"
    "length p + length is \<le> 4" "\<forall>i \<in> set is. i < 512" "trie_lookup (rd s) f is = Some g"
  shows "own g = Some (r, p @ is)"
  using assms(3-)
proof (induction "is" arbitrary: f p)
  case (Cons i "is")
  let ?g = "GET_FRAME_N (rd s f i)"
  from Cons.prems have v: "IS_VALID_PTE (rd s f i)" "trie_lookup (rd s) ?g is = Some g"
    by (auto split: if_splits)
  have "own ?g = Some (r, p @ [i])"
    using child [OF assms(1,2) Cons.prems(1) _ _ v(1)] Cons.prems by simp
  from Cons.IH [OF this] v Cons.prems show ?case by simp
qed simp

text \<open>Overwriting an entry of a last-level node.\<close>

lemma leaf_forest:
  assumes "good s" "forest (rd s) (live s) roots own" "own g = Some (r, p)" "length p = 4" "i < 512"
  shows "forest (rd (wr s g i e)) (live (wr s g i e)) roots own"
proof -
  have "live s g" using forestD(2) [OF assms(2,3)] .
  have same: "rd (wr s g i e) f j = rd s f j"
    if "own f = Some (r', p')" "length p' < 4" "j < 512" for f r' p' j
    using that assms(3,4) rd_wr [OF assms(1) \<open>live s g\<close> forestD(2) [OF assms(2) that(1)] assms(5) that(3)]
    by auto
  have "node_ok (rd (wr s g i e)) (live (wr s g i e)) own f r' p'"
    if o: "own f = Some (r', p')" for f r' p'
  proof -
    have "parent_ok (rd (wr s g i e)) own f r' p'"
      using forestD(3,4) [OF assms(2) o]
      by (cases p' rule: rev_cases) (auto simp: parent_ok_def same)
    then show ?thesis
      using forestD [OF assms(2) o] same [OF o] by (auto simp: node_ok_def wr_live)
  qed
  with assms(2) show ?thesis by (auto simp: forest_def)
qed

lemma leaf_lookup:
  assumes "good s" "forest (rd s) (live s) roots own" "own g = Some (r, p)" "length p = 4" "i < 512"
    "own f = Some (r', q)" "length q + length is = 5" "\<forall>j \<in> set is. j < 512"
  shows "trie_lookup (rd (wr s g i e)) f is =
    (if r' = r \<and> q @ is = p @ [i] then (if IS_VALID_PTE e then Some (GET_FRAME_N e) else None)
     else trie_lookup (rd s) f is)"
  using assms(6-)
proof (induction "is" arbitrary: f q)
  case Nil
  then show ?case using forestD(3) [OF assms(2) Nil(1)] by simp
next
  case (Cons j "is")
  have live: "live s g" "live s f" and j: "j < 512"
    using forestD(2) [OF assms(2)] assms(3) Cons.prems by auto
  have fg: "f = g \<longleftrightarrow> r' = r \<and> q = p"
    using own_inj [OF assms(1,2)] Cons.prems(1) assms(3) by auto
  then have eq: "rd (wr s g i e) f j = (if r' = r \<and> q = p \<and> j = i then e else rd s f j)"
    by (simp add: rd_wr [OF assms(1) live assms(5) j])
  show ?case
  proof (cases "is = []")
    case True
    show ?thesis unfolding True trie_lookup.simps eq by auto
  next
    case False
    then have q4: "length q < 4" using Cons.prems(2) by (cases "is") auto
    then have "f \<noteq> g" "q \<noteq> p" using assms(3,4) Cons.prems(1) by auto
    then have same: "rd (wr s g i e) f j = rd s f j" by (simp add: eq)
    show ?thesis
    proof (cases "IS_VALID_PTE (rd s f j)")
      case True
      have "own (GET_FRAME_N (rd s f j)) = Some (r', q @ [j])"
        by (rule child [OF assms(1,2) Cons.prems(1) q4 j True])
      from Cons.IH [OF this] Cons.prems True same show ?thesis by simp
    next
      case False
      have "\<not> (r' = r \<and> q @ j # is = p @ [i])"
      proof
        assume a: "r' = r \<and> q @ j # is = p @ [i]"
        then have "p = q @ j # butlast is" using \<open>is \<noteq> []\<close>
          by (metis butlast.simps(2) butlast_append butlast_snoc list.distinct(1))
        with a False show False
          using ancestor_valid [OF assms(1,2), of f r q g j "butlast is"] Cons.prems(1) assms(3) by simp
      qed
      with False same show ?thesis by (simp only: trie_lookup.simps if_False)
    qed
  qed
qed

text \<open>Linking a freshly allocated frame under a zero entry of an inner node.\<close>

lemma link_rd:
  assumes "good s" "alloc s = Inr (h, t)" "live s g" "i < 512" "live s f" "j < 512"
  shows "rd (wr t g i e) f j = (if f = g \<and> j = i then e else rd s f j)"
proof -
  have "live t g" "live t f" using alloc_live [OF assms(1,2)] assms(3,5) by auto
  then show ?thesis
    using rd_wr [OF alloc_good [OF assms(1,2)] _ _ assms(4,6)] alloc_rd [OF assms(1,2,5,6)] by simp
qed

lemma link_rd_new:
  assumes "good s" "alloc s = Inr (h, t)" "live s g" "i < 512" "j < 512"
  shows "rd (wr t g i e) h j = 0"
proof -
  have "live t g" "live t h" "h \<noteq> g"
    using alloc_live [OF assms(1,2)] alloc_new [OF assms(1,2)] assms(3) by auto
  then show ?thesis
    using rd_wr [OF alloc_good [OF assms(1,2)] _ _ assms(4,5)] alloc_zero [OF assms(1,2,5)] by simp
qed

lemma link_forest:
  assumes "good s" "forest (rd s) (live s) roots own" "own g = Some (r, p)" "length p < 4"
    "i < 512" "rd s g i = 0" "alloc s = Inr (h, t)"
  shows "forest (rd (wr t g i (mk_pte h))) (live (wr t g i (mk_pte h))) roots
           (own(h \<mapsto> (r, p @ [i])))"
    (is "forest ?R ?L roots ?own")
proof -
  have lg: "live s g" and "r \<in> roots" using forestD [OF assms(2,3)] by auto
  have new: "own h = None"
    using alloc_new [OF assms(1,7)] forestD(2) [OF assms(2), of h] by (cases "own h") auto
  have L: "?L f \<longleftrightarrow> f = h \<or> live s f" for f
    using alloc_live [OF assms(1,7)] by (simp add: wr_live)
  have R: "?R f j = (if f = g \<and> j = i then mk_pte h else rd s f j)"
    if "own f = Some z" "j < 512" for f j z
    using link_rd [OF assms(1,7) lg assms(5)] forestD(2) [OF assms(2)] that by (cases z) auto
  have old: "node_ok ?R ?L ?own f r' p'" if o: "own f = Some (r', p')" for f r' p'
  proof -
    have "f \<noteq> h" using new o by auto
    have "inner_entry_ok ?own r' p' j (?R f j)" if "length p' < 4" "j < 512" for j
    proof (cases "f = g \<and> j = i")
      case True
      then show ?thesis using o assms(3) R [OF o that(2)] by (auto simp: inner_entry_ok_def)
    next
      case False
      then have "?R f j = rd s f j" by (subst R [OF o that(2)]) (rule if_not_P)
      then show ?thesis
        using inner_entry_ok_extend [OF forestD(5) [OF assms(2) o that] new] by simp
    qed
    moreover have "parent_ok ?R ?own f r' p'"
    proof (cases p' rule: rev_cases)
      case Nil
      then show ?thesis using forestD(4) [OF assms(2) o] by (simp add: parent_ok_def)
    next
      case (snoc q j)
      then obtain a where a: "own a = Some (r', q)" "rd s a j = mk_pte f" and j: "j < 512"
        using forestD(4) [OF assms(2) o] by (auto simp: parent_ok_def)
      have "mk_pte f \<noteq> 0" using valid_mk_pte not_valid_0 by metis
      then have "?R a j = mk_pte f" using R [OF a(1) j] a(2) assms(6) by auto
      moreover have "a \<noteq> h" using new a(1) by auto
      ultimately show ?thesis using snoc a j by (auto simp: parent_ok_def)
    qed
    ultimately show ?thesis
      using forestD(2,3) [OF assms(2) o] L by (simp add: node_ok_def)
  qed
  have "g \<noteq> h" using new assms(3) by auto
  then have "parent_ok ?R ?own h r (p @ [i])"
    using R [OF assms(3,5)] assms(3,5) by (auto simp: parent_ok_def intro!: exI [of _ g])
  then have "node_ok ?R ?L ?own h r (p @ [i])"
    using link_rd_new [OF assms(1,7) lg assms(5)] L assms(4)
    by (simp add: node_ok_def inner_entry_ok_def)
  then show ?thesis
    using old forest_root [OF assms(2)] \<open>r \<in> roots\<close> new forestD(1) [OF assms(2)]
    by (auto simp: forest_def)
qed

lemma link_lookup:
  assumes "good s" "forest (rd s) (live s) roots own" "own g = Some (r, p)" "length p < 4"
    "i < 512" "rd s g i = 0" "alloc s = Inr (h, t)"
    "own f = Some (r', q)" "length q + length is = 5" "\<forall>j \<in> set is. j < 512"
  shows "trie_lookup (rd (wr t g i (mk_pte h))) f is = trie_lookup (rd s) f is"
  using assms(8-)
proof (induction "is" arbitrary: f q)
  case (Cons j "is")
  have lg: "live s g" and lf: "live s f" and j: "j < 512"
    using forestD(2) [OF assms(2)] assms(3) Cons.prems by auto
  note R = link_rd [OF assms(1,7) lg assms(5) lf j, of "mk_pte h"]
  show ?case
  proof (cases "f = g \<and> j = i")
    case True
    then have "is \<noteq> []" using Cons.prems assms(3,4) by (cases "is") auto
    then obtain k ks where "is = k # ks" by (cases "is") auto
    moreover from this have "k < 512" using Cons.prems by simp
    moreover have "take_bit 52 h = h"
      using live_small [OF alloc_good [OF assms(1,7)]] alloc_live [OF assms(1,7)] by simp
    ultimately show ?thesis
      using True link_rd_new [OF assms(1,7) lg assms(5)] R assms(6) by simp
  next
    case False
    then have same: "rd (wr t g i (mk_pte h)) f j = rd s f j" by (subst R) (rule if_not_P)
    show ?thesis
    proof (cases "IS_VALID_PTE (rd s f j) \<and> is \<noteq> []")
      case True
      then have q4: "length q < 4" using Cons.prems(2) by (cases "is") auto
      have "own (GET_FRAME_N (rd s f j)) = Some (r', q @ [j])"
        using child [OF assms(1,2) Cons.prems(1) q4 j] True by simp
      from Cons.IH [OF this] Cons.prems same show ?thesis by simp
    next
      case False
      then show ?thesis using same by (cases "is = []") auto
    qed
  qed
qed simp

lemma alloc_lookup:
  assumes "good s" "forest (rd s) (live s) roots own" "alloc s = Inr (h, t)"
    "own f = Some (r, q)" "length q + length is = 5" "\<forall>j \<in> set is. j < 512"
  shows "trie_lookup (rd t) f is = trie_lookup (rd s) f is"
  using assms(4-)
proof (induction "is" arbitrary: f q)
  case (Cons j "is")
  have same: "rd t f j = rd s f j"
    using alloc_rd [OF assms(1,3) forestD(2) [OF assms(2) Cons.prems(1)]] Cons.prems by simp
  show ?case
  proof (cases "IS_VALID_PTE (rd s f j) \<and> is \<noteq> []")
    case True
    then have q4: "length q < 4" using Cons.prems(2) by (cases "is") auto
    have "own (GET_FRAME_N (rd s f j)) = Some (r, q @ [j])"
      using child [OF assms(1,2) Cons.prems(1) q4] Cons.prems True by simp
    from Cons.IH [OF this] Cons.prems same show ?thesis by simp
  next
    case False
    then show ?thesis using same by (cases "is = []") auto
  qed
qed simp

text \<open>A frame that is allocated and not linked: the root of a new, empty table.\<close>

lemma new_root_forest:
  assumes "good s" "forest (rd s) (live s) roots own" "alloc s = Inr (h, t)"
  shows "forest (rd t) (live t) (insert h roots) (own(h \<mapsto> (h, [])))"
proof -
  have new: "own h = None"
    using alloc_new [OF assms(1,3)] forestD(2) [OF assms(2), of h] by (cases "own h") auto
  have R: "rd t f j = rd s f j" if "own f = Some z" "j < 512" for f j z
    using alloc_rd [OF assms(1,3)] forestD(2) [OF assms(2)] that by (cases z) auto
  have "node_ok (rd t) (live t) (own(h \<mapsto> (h, []))) f r p" if o: "own f = Some (r, p)" for f r p
  proof -
    have "parent_ok (rd t) (own(h \<mapsto> (h, []))) f r p"
    proof (cases p rule: rev_cases)
      case Nil
      then show ?thesis using forestD(4) [OF assms(2) o] by (simp add: parent_ok_def)
    next
      case (snoc q j)
      then obtain a where a: "own a = Some (r, q)" "rd s a j = mk_pte f" and j: "j < 512"
        using forestD(4) [OF assms(2) o] by (auto simp: parent_ok_def)
      moreover have "a \<noteq> h" using new a(1) by auto
      ultimately show ?thesis using snoc R [OF a(1) j] by (auto simp: parent_ok_def)
    qed
    moreover have "inner_entry_ok (own(h \<mapsto> (h, []))) r p j (rd t f j)" if "length p < 4" "j < 512" for j
      using inner_entry_ok_extend [OF forestD(5) [OF assms(2) o that] new] R [OF o that(2)] by simp
    ultimately show ?thesis
      using forestD(2,3) [OF assms(2) o] alloc_live [OF assms(1,3)] by (simp add: node_ok_def)
  qed
  moreover have "node_ok (rd t) (live t) (own(h \<mapsto> (h, []))) h h []"
    using alloc_zero [OF assms(1,3)] alloc_live [OF assms(1,3)]
    by (simp add: node_ok_def parent_ok_def inner_entry_ok_def)
  moreover have "h \<notin> roots" using forest_root [OF assms(2)] new by auto
  ultimately show ?thesis
    using forest_root [OF assms(2)] forestD(1) [OF assms(2)]
    unfolding forest_def by (simp split: if_splits)
qed

end

end
