(* ===== verification/Os_Memory.thy ===== *)
theory Os_Memory
  imports Frame_Store
begin

text \<open>
  The simulated physical memory of \<^verbatim>\<open>src/hw1_os/os.c\<close>: the frame allocator
  \<^verbatim>\<open>alloc_page_frame\<close>, the translation \<^verbatim>\<open>phys_to_virt\<close> and the table \<^verbatim>\<open>pages\<close> that
  links the two.  The C library's \<^verbatim>\<open>mmap\<close> is a parameter of the model.

  Memory is a partial map from addresses to the 64-bit cells stored there; only the 8-byte
  aligned addresses of pages returned by \<^verbatim>\<open>mmap\<close> are mapped, and reading or writing anything
  else is a segmentation fault.
\<close>

section \<open>State\<close>

definition NPAGES :: u64 where
  "NPAGES = 1024 * 1024"

record os =
  os_nalloc :: u64                        \<comment> \<open>the static counter of \<open>alloc_page_frame\<close>\<close>
  os_pages :: "u64 \<Rightarrow> ptr"                \<comment> \<open>\<open>static char* pages[NPAGES]\<close>\<close>
  os_mem :: "ptr \<rightharpoonup> u64"                  \<comment> \<open>the mapped 64-bit cells\<close>
  os_nmmap :: nat                         \<comment> \<open>how many times the kernel's \<open>mmap\<close> was called\<close>

text \<open>
  The \<open>n\<close>-th call of \<^verbatim>\<open>mmap\<close> in the life of the process returns \<open>mm n\<close>, where
  \<^const>\<open>None\<close> is \<^verbatim>\<open>MAP_FAILED\<close>.  Documented behaviour: the address of a new anonymous
  mapping is page aligned, and it is not the address of a mapping that still exists (nothing
  is ever unmapped here).
\<close>

type_synonym mmap_results = "nat \<Rightarrow> ptr option"

definition page_aligned :: "ptr \<Rightarrow> bool" where
  "page_aligned va \<longleftrightarrow> take_bit 12 va = 0"

definition mmap_contract :: "mmap_results \<Rightarrow> bool" where
  "mmap_contract mm \<longleftrightarrow>
     (\<forall>n va. mm n = Some va \<longrightarrow> page_aligned va) \<and>
     (\<forall>n n' va. mm n = Some va \<longrightarrow> mm n' = Some va \<longrightarrow> n = n')"

text \<open>The ways a run of the program can end early.\<close>

datatype os_error =
    Out_of_physical_memory   \<comment> \<open>\<open>errx(1, "out of physical memory")\<close>\<close>
  | Mmap_failed              \<comment> \<open>\<open>err(1, "mmap failed")\<close>\<close>
  | Segfault                 \<comment> \<open>access to an address that is not mapped\<close>
  | Assertion_failed         \<comment> \<open>an \<open>assert\<close> of the test driver\<close>

definition os_init :: os where
  "os_init = \<lparr>os_nalloc = 0, os_pages = (\<lambda>_. NULL), os_mem = Map.empty, os_nmmap = 0\<rparr>"

section \<open>Operations\<close>

text \<open>A new anonymous mapping of 4096 bytes at \<open>va\<close>: 512 zeroed cells.\<close>

definition in_page :: "ptr \<Rightarrow> ptr \<Rightarrow> bool" where
  "in_page va a \<longleftrightarrow> unat va \<le> unat a \<and> unat a < unat va + 4096 \<and> unat a mod 8 = 0"

definition map_page :: "ptr \<Rightarrow> (ptr \<rightharpoonup> u64) \<Rightarrow> (ptr \<rightharpoonup> u64)" where
  "map_page va m = (\<lambda>a. if in_page va a then Some 0 else m a)"

definition alloc_page_frame :: "mmap_results \<Rightarrow> os \<Rightarrow> os_error + u64 \<times> os" where
  "alloc_page_frame mm s =
     (if os_nalloc s = NPAGES then Inl Out_of_physical_memory
      else
        let ppn = os_nalloc s;
            s1 = s\<lparr>os_nalloc := os_nalloc s + 1, os_nmmap := Suc (os_nmmap s)\<rparr>
        in case mm (os_nmmap s) of
             None \<Rightarrow> Inl Mmap_failed
           | Some va \<Rightarrow>
               Inr (ppn, s1\<lparr>os_mem := map_page va (os_mem s1),
                            os_pages := (os_pages s1)(ppn := va)\<rparr>))"

definition phys_to_virt :: "os \<Rightarrow> u64 \<Rightarrow> ptr" where
  "phys_to_virt s phys_addr =
     (let ppn = drop_bit 12 phys_addr;
          off = phys_addr AND 0xfff;
          va = NULL
      in if ppn < NPAGES then os_pages s ppn + off else va)"

definition load :: "os \<Rightarrow> ptr \<Rightarrow> os_error + u64" where
  "load s a = (case os_mem s a of None \<Rightarrow> Inl Segfault | Some w \<Rightarrow> Inr w)"

definition store :: "os \<Rightarrow> ptr \<Rightarrow> u64 \<Rightarrow> os_error + os" where
  "store s a w =
     (case os_mem s a of None \<Rightarrow> Inl Segfault | Some _ \<Rightarrow> Inr (s\<lparr>os_mem := (os_mem s)(a \<mapsto> w)\<rparr>))"

section \<open>Pages as arrays of cells\<close>

definition cell_addr :: "ptr \<Rightarrow> u64 \<Rightarrow> ptr" where
  "cell_addr va i = va + 8 * i"

lemma unat_aligned:
  assumes "page_aligned va"
  obtains k where "unat va = 4096 * k" "k < 2 ^ 52"
proof -
  have "unat (take_bit 12 va) = unat va mod 4096"
    unfolding unsigned_take_bit_eq by (simp add: take_bit_eq_mod)
  then have "unat va = 4096 * (unat va div 4096)"
    using assms by (auto simp: page_aligned_def)
  moreover have "unat va div 4096 < 2 ^ 52"
    using unat_lt_64 [of va] by simp
  ultimately show ?thesis using that by blast
qed

lemma unat_cell:
  assumes "page_aligned va" "i < 512"
  shows "unat (cell_addr va i) = unat va + 8 * unat i"
proof -
  obtain k where k: "unat va = 4096 * k" "k < 2 ^ 52" using unat_aligned [OF assms(1)] .
  have i: "unat i < 512" using assms(2) by (simp add: word_less_nat_alt)
  have "unat (8 * i) = 8 * unat i" using i by (simp add: unat_word_ariths)
  moreover have "unat va + 8 * unat i < 2 ^ 64" using k i by simp
  ultimately show ?thesis by (simp add: cell_addr_def unat_word_ariths)
qed

lemma cell_in_page: "page_aligned va \<Longrightarrow> i < 512 \<Longrightarrow> in_page va (cell_addr va i)"
  by (rule unat_aligned) (auto simp: in_page_def unat_cell word_less_nat_alt)

lemma cell_not_in_page:
  assumes "page_aligned va" "page_aligned vb" "va \<noteq> vb" "i < 512"
  shows "\<not> in_page va (cell_addr vb i)"
proof -
  obtain k where k: "unat va = 4096 * k" "k < 2 ^ 52" using unat_aligned [OF assms(1)] .
  obtain l where l: "unat vb = 4096 * l" "l < 2 ^ 52" using unat_aligned [OF assms(2)] .
  have "k \<noteq> l" using assms(3) k l by (auto simp: word_unat_eq_iff)
  moreover have "unat i < 512" using assms(4) by (simp add: word_less_nat_alt)
  ultimately show ?thesis
    using k l by (auto simp: in_page_def unat_cell [OF assms(2,4)])
qed

lemma cell_inj:
  assumes "page_aligned va" "page_aligned vb" "i < 512" "j < 512"
  shows "cell_addr va i = cell_addr vb j \<longleftrightarrow> va = vb \<and> i = j"
proof
  assume eq: "cell_addr va i = cell_addr vb j"
  then have "va = vb"
    using cell_not_in_page [OF assms(1,2) _ assms(4)] cell_in_page [OF assms(1,3)] by auto
  moreover from this eq have "unat i = unat j"
    using unat_cell [OF assms(1,3)] unat_cell [OF assms(2,4)] by simp
  ultimately show "va = vb \<and> i = j" by (simp add: word_unat_eq_iff)
qed simp

section \<open>Frames: what the page-table code sees of the memory\<close>

definition frame_live :: "os \<Rightarrow> u64 \<Rightarrow> bool" where
  "frame_live s f \<longleftrightarrow> f < os_nalloc s"

definition frame_rd :: "os \<Rightarrow> u64 \<Rightarrow> u64 \<Rightarrow> u64" where
  "frame_rd s f i = (case os_mem s (cell_addr (os_pages s f) i) of None \<Rightarrow> 0 | Some w \<Rightarrow> w)"

definition frame_wr :: "os \<Rightarrow> u64 \<Rightarrow> u64 \<Rightarrow> u64 \<Rightarrow> os" where
  "frame_wr s f i w = s\<lparr>os_mem := (os_mem s)(cell_addr (os_pages s f) i \<mapsto> w)\<rparr>"

definition page_mapped :: "os \<Rightarrow> ptr \<Rightarrow> bool" where
  "page_mapped s va \<longleftrightarrow> (\<forall>i < 512. os_mem s (cell_addr va i) \<noteq> None)"

definition os_inv :: "mmap_results \<Rightarrow> os \<Rightarrow> bool" where
  "os_inv mm s \<longleftrightarrow>
     mmap_contract mm \<and> unat (os_nalloc s) = os_nmmap s \<and> os_nalloc s \<le> NPAGES \<and>
     (\<forall>f < os_nalloc s. mm (unat f) = Some (os_pages s f) \<and> page_mapped s (os_pages s f))"

lemma os_invD:
  assumes "os_inv mm s"
  shows "mmap_contract mm" "unat (os_nalloc s) = os_nmmap s" "os_nalloc s \<le> NPAGES"
    "frame_live s f \<Longrightarrow> mm (unat f) = Some (os_pages s f)"
    "frame_live s f \<Longrightarrow> page_mapped s (os_pages s f)"
    "frame_live s f \<Longrightarrow> page_aligned (os_pages s f)"
  using assms unfolding os_inv_def frame_live_def mmap_contract_def by blast+

lemma pages_inj:
  assumes "os_inv mm s" "frame_live s f" "frame_live s g"
  shows "os_pages s f = os_pages s g \<longleftrightarrow> f = g"
proof
  assume "os_pages s f = os_pages s g"
  then have "unat f = unat g"
    using os_invD(1) [OF assms(1)] os_invD(4) [OF assms(1,2)] os_invD(4) [OF assms(1,3)]
    unfolding mmap_contract_def by metis
  then show "f = g" by (simp add: word_unat_eq_iff)
qed simp

lemma os_init_inv: "mmap_contract mm \<Longrightarrow> os_inv mm os_init"
  by (simp add: os_inv_def os_init_def)

lemma frame_rd_wr:
  assumes "os_inv mm s" "frame_live s f" "frame_live s g" "i < 512" "j < 512"
  shows "frame_rd (frame_wr s f i w) g j = (if g = f \<and> j = i then w else frame_rd s g j)"
  using cell_inj [OF os_invD(6) [OF assms(1,2)] os_invD(6) [OF assms(1,3)] assms(4,5)]
    pages_inj [OF assms(1,2,3)]
  by (auto simp: frame_rd_def frame_wr_def)

lemma frame_wr_inv: "os_inv mm s \<Longrightarrow> frame_live s f \<Longrightarrow> i < 512 \<Longrightarrow> os_inv mm (frame_wr s f i w)"
  by (auto simp: os_inv_def frame_wr_def page_mapped_def)

lemma frame_wr_live [simp]: "frame_live (frame_wr s f i w) g = frame_live s g"
  by (simp add: frame_live_def frame_wr_def)

lemma frame_wr_pages [simp]: "os_pages (frame_wr s f i w) = os_pages s"
  by (simp add: frame_wr_def)

lemma frame_wr_wr [simp]: "frame_wr (frame_wr s f i v) f i w = frame_wr s f i w"
  by (simp add: frame_wr_def)

text \<open>A successful allocation, as an update of the state.\<close>

lemma alloc_Inr:
  assumes "alloc_page_frame mm s = Inr (f, t)"
  obtains va where "mm (os_nmmap s) = Some va" "f = os_nalloc s" "os_nalloc s \<noteq> NPAGES"
    "t = s\<lparr>os_nalloc := f + 1, os_nmmap := Suc (os_nmmap s),
           os_mem := map_page va (os_mem s), os_pages := (os_pages s)(f := va)\<rparr>"
  using assms by (auto simp: alloc_page_frame_def Let_def split: if_splits option.splits)

lemma alloc_step:
  assumes "os_inv mm s" "alloc_page_frame mm s = Inr (f, t)"
  shows "\<not> frame_live s f" "frame_live t g \<longleftrightarrow> g = f \<or> frame_live s g"
    "unat f < unat NPAGES" "unat (os_nalloc t) = Suc (unat f)"
    "page_aligned (os_pages t f)" "mm (unat f) = Some (os_pages t f)"
    "os_mem t = map_page (os_pages t f) (os_mem s)" "os_nmmap t = Suc (os_nmmap s)"
    "g \<noteq> f \<Longrightarrow> os_pages t g = os_pages s g"
proof -
  obtain va where va: "mm (os_nmmap s) = Some va" "f = os_nalloc s" "os_nalloc s \<noteq> NPAGES"
    "t = s\<lparr>os_nalloc := f + 1, os_nmmap := Suc (os_nmmap s),
           os_mem := map_page va (os_mem s), os_pages := (os_pages s)(f := va)\<rparr>"
    using alloc_Inr [OF assms(2)] .
  have lt: "f < NPAGES" using va os_invD(3) [OF assms(1)] by auto
  then show "unat f < unat NPAGES" by (simp add: word_less_nat_alt)
  then have "unat f + 1 < 2 ^ 64" by (simp add: NPAGES_def)
  then show n: "unat (os_nalloc t) = Suc (unat f)" using va by (simp add: unat_word_ariths)
  show "\<not> frame_live s f" using va by (simp add: frame_live_def)
  show "frame_live t g \<longleftrightarrow> g = f \<or> frame_live s g"
    using n va unfolding frame_live_def word_less_nat_alt word_unat_eq_iff
    by (auto simp: less_Suc_eq)
  show "page_aligned (os_pages t f)"
    using va os_invD(1) [OF assms(1)] by (auto simp: mmap_contract_def)
  show "mm (unat f) = Some (os_pages t f)" using va os_invD(2) [OF assms(1)] by simp
  show "os_mem t = map_page (os_pages t f) (os_mem s)" "os_nmmap t = Suc (os_nmmap s)"
    "g \<noteq> f \<Longrightarrow> os_pages t g = os_pages s g" using va by simp_all
qed

lemma alloc_cells:
  assumes "os_inv mm s" "alloc_page_frame mm s = Inr (f, t)" "i < 512"
  shows "os_mem t (cell_addr (os_pages t f) i) = Some 0"
    "frame_live s g \<Longrightarrow> os_pages t g = os_pages s g"
    "frame_live s g \<Longrightarrow> os_mem t (cell_addr (os_pages s g) i) = os_mem s (cell_addr (os_pages s g) i)"
proof -
  note st = alloc_step [OF assms(1,2)]
  show "os_mem t (cell_addr (os_pages t f) i) = Some 0"
    using cell_in_page [OF st(5) assms(3)] st(7) by (simp add: map_page_def)
  assume live: "frame_live s g"
  then have "g \<noteq> f" using st(1) by auto
  then show "os_pages t g = os_pages s g" by (rule st(9))
  have "unat g \<noteq> unat f" using \<open>g \<noteq> f\<close> by (simp add: word_unat_eq_iff)
  then have "os_pages t f \<noteq> os_pages s g"
    using os_invD(1) [OF assms(1)] os_invD(4) [OF assms(1) live] st(6)
    unfolding mmap_contract_def by metis
  then have "\<not> in_page (os_pages t f) (cell_addr (os_pages s g) i)"
    using cell_not_in_page [OF st(5) os_invD(6) [OF assms(1) live] _ assms(3)] by simp
  then show "os_mem t (cell_addr (os_pages s g) i) = os_mem s (cell_addr (os_pages s g) i)"
    using st(7) by (simp add: map_page_def)
qed

lemma alloc_inv:
  assumes "os_inv mm s" "alloc_page_frame mm s = Inr (f, t)"
  shows "os_inv mm t"
proof -
  note st = alloc_step [OF assms] and cells = alloc_cells [OF assms]
  have "mm (unat g) = Some (os_pages t g) \<and> page_mapped t (os_pages t g)" if "frame_live t g" for g
  proof (cases "g = f")
    case True
    then show ?thesis using st(6) cells(1) by (simp add: page_mapped_def)
  next
    case False
    then have g: "frame_live s g" using that st(2) by simp
    have "os_pages t g = os_pages s g" using st(9) False by simp
    then show ?thesis
      using os_invD(4,5) [OF assms(1) g] cells(3) [OF _ g] by (simp add: page_mapped_def)
  qed
  moreover have "unat f = os_nmmap s"
    using alloc_Inr [OF assms(2)] os_invD(2) [OF assms(1)] by metis
  ultimately show ?thesis
    using st(3,4,8) os_invD(1) [OF assms(1)]
    by (simp add: os_inv_def frame_live_def word_le_nat_alt)
qed

lemma alloc_rd_zero:
  assumes "os_inv mm s" "alloc_page_frame mm s = Inr (f, t)" "i < 512"
  shows "frame_rd t f i = 0"
  using alloc_cells(1) [OF assms] by (simp add: frame_rd_def)

lemma alloc_rd_old:
  assumes "os_inv mm s" "alloc_page_frame mm s = Inr (f, t)" "frame_live s g" "i < 512"
  shows "frame_rd t g i = frame_rd s g i"
  using alloc_cells(2,3) [OF assms(1,2,4,3)] by (simp add: frame_rd_def)

lemma frame_small:
  assumes "os_inv mm s" "frame_live s f"
  shows "f < NPAGES" "take_bit 52 f = f"
proof -
  show "f < NPAGES" using assms os_invD(3) [OF assms(1)] by (auto simp: frame_live_def)
  then have "unat f < 2 ^ 52" by (simp add: NPAGES_def word_less_nat_alt)
  then have "unat (take_bit 52 f) = unat f"
    unfolding unsigned_take_bit_eq by (rule take_bit_nat_eq_self)
  then show "take_bit 52 f = f" unfolding word_unat_eq_iff .
qed

interpretation fs: frame_store "alloc_page_frame mm" frame_rd frame_wr frame_live "os_inv mm"
  for mm
  by unfold_locales
    (fact frame_rd_wr frame_wr_inv frame_wr_live alloc_inv alloc_step(1,2) alloc_rd_zero
      alloc_rd_old frame_small(2))+

section \<open>The accesses of the code, on live frames\<close>

lemma load_cell [heap_simps]:
  assumes "os_inv mm s" "frame_live s f" "i < 512"
  shows "load s (cell_addr (os_pages s f) i) = Inr (frame_rd s f i)"
  using os_invD(5) [OF assms(1,2)] assms(3)
  by (auto simp: load_def frame_rd_def page_mapped_def split: option.splits)

lemma store_cell [heap_simps]:
  assumes "os_inv mm s" "frame_live s f" "i < 512"
  shows "store s (cell_addr (os_pages s f) i) w = Inr (frame_wr s f i w)"
  using os_invD(5) [OF assms(1,2)] assms(3)
  by (auto simp: store_def frame_wr_def page_mapped_def split: option.splits)

lemma phys_to_virt_frame [heap_simps]:
  assumes "os_inv mm s" "frame_live s f"
  shows "phys_to_virt s (PHYSICAL_ADDR f 0) = os_pages s f"
proof -
  have "drop_bit 12 (push_bit 12 f) = take_bit 52 f"
    by (rule bit_eqI) (auto simp: bit_simps)
  moreover have "push_bit 12 f AND 0xfff = 0"
    unfolding and_mask12 by (simp add: take_bit_push_bit)
  ultimately show ?thesis
    using frame_small [OF assms]
    by (simp add: phys_to_virt_def PHYSICAL_ADDR_def OFFSET_BITS_def Let_def)
qed

lemma page_not_NO_MAPPING:
  assumes "os_inv mm s" "frame_live s f"
  shows "os_pages s f \<noteq> NO_MAPPING"
  using os_invD(6) [OF assms] by (auto simp: page_aligned_def NO_MAPPING_def)

end
