(* ===== verification/Page_Table.thy ===== *)
theory Page_Table
  imports Os_Memory
begin

text \<open>
  The multi-level page table of \<^verbatim>\<open>src/hw1_os/pt.c\<close>: the macros on page-table entries and
  virtual page numbers, \<^verbatim>\<open>page_walk\<close>, \<^verbatim>\<open>page_table_update\<close> and \<^verbatim>\<open>page_table_query\<close>, and the
  test driver \<^verbatim>\<open>main\<close> of \<^verbatim>\<open>os.c\<close>.
\<close>

text \<open>\<^verbatim>\<open>&pt->entries[i]\<close> for a \<^verbatim>\<open>pt_node_t* pt\<close>.\<close>

definition entry_addr :: "ptr \<Rightarrow> u64 \<Rightarrow> ptr" where
  "entry_addr pt i = pt + of_nat PT_ENTRY_SIZE_BYTES * i"

section \<open>Walk, update, query\<close>

text \<open>
  The loop of \<^verbatim>\<open>page_walk\<close> with its counter \<open>i\<close> and its current node.  The
  read-modify-writes of \<^verbatim>\<open>SET_FRAME_N\<close> and \<^verbatim>\<open>SET_VALID\<close> follow the call of the allocator, and
  the entry is read again for \<^verbatim>\<open>GET_FRAME_N\<close>, as in the code.
\<close>

function page_walk_loop ::
  "mmap_results \<Rightarrow> u64 \<Rightarrow> bool \<Rightarrow> nat \<Rightarrow> ptr \<Rightarrow> os \<Rightarrow> os_error + ptr \<times> os" where
  "page_walk_loop mm vpn allocate i curr_pt s =
     (if i < TRIE_DEPTH then
        let vpn_i = VPN_I vpn i;
            curr_entry = entry_addr curr_pt vpn_i
        in case load s curr_entry of
             Inl e \<Rightarrow> Inl e
           | Inr pte \<Rightarrow>
               if \<not> IS_VALID_PTE pte then
                 if \<not> allocate then Inr (NO_MAPPING, s)
                 else
                   (case alloc_page_frame mm s of
                      Inl e \<Rightarrow> Inl e
                    | Inr (frame, s1) \<Rightarrow>
                   (case load s1 curr_entry of
                      Inl e \<Rightarrow> Inl e
                    | Inr pte1 \<Rightarrow>
                   (case store s1 curr_entry (SET_FRAME_N pte1 frame) of
                      Inl e \<Rightarrow> Inl e
                    | Inr s2 \<Rightarrow>
                   (case load s2 curr_entry of
                      Inl e \<Rightarrow> Inl e
                    | Inr pte2 \<Rightarrow>
                   (case store s2 curr_entry (SET_VALID pte2) of
                      Inl e \<Rightarrow> Inl e
                    | Inr s3 \<Rightarrow>
                   (case load s3 curr_entry of
                      Inl e \<Rightarrow> Inl e
                    | Inr pte3 \<Rightarrow>
                        page_walk_loop mm vpn allocate (i + 1)
                          (phys_to_virt s3 (PHYSICAL_ADDR (GET_FRAME_N pte3) 0)) s3))))))
               else
                 page_walk_loop mm vpn allocate (i + 1)
                   (phys_to_virt s (PHYSICAL_ADDR (GET_FRAME_N pte) 0)) s
      else Inr (curr_pt, s))"
  by pat_completeness auto
termination
  by (relation "measure (\<lambda>(mm, vpn, allocate, i, curr_pt, s). TRIE_DEPTH - i)") auto

declare page_walk_loop.simps [simp del]

definition page_walk ::
  "mmap_results \<Rightarrow> ptr \<Rightarrow> u64 \<Rightarrow> bool \<Rightarrow> os \<Rightarrow> os_error + ptr \<times> os" where
  "page_walk mm base_pt vpn allocate s = page_walk_loop mm vpn allocate 1 base_pt s"

definition page_table_update ::
  "mmap_results \<Rightarrow> u64 \<Rightarrow> u64 \<Rightarrow> u64 \<Rightarrow> os \<Rightarrow> os_error + os" where
  "page_table_update mm pt vpn ppn s =
     (let base_pt = phys_to_virt s (PHYSICAL_ADDR pt 0);
          allocate = (ppn \<noteq> NO_MAPPING)
      in case page_walk mm base_pt vpn allocate s of
           Inl e \<Rightarrow> Inl e
         | Inr (target_pt, s1) \<Rightarrow>
             if target_pt \<noteq> NO_MAPPING then
               let target_entry = entry_addr target_pt (VPN_I vpn TRIE_DEPTH)
               in case store s1 target_entry 0 of
                    Inl e \<Rightarrow> Inl e
                  | Inr s2 \<Rightarrow>
                      if allocate then
                        (case load s2 target_entry of
                           Inl e \<Rightarrow> Inl e
                         | Inr pte \<Rightarrow>
                        (case store s2 target_entry (SET_VALID pte) of
                           Inl e \<Rightarrow> Inl e
                         | Inr s3 \<Rightarrow>
                        (case load s3 target_entry of
                           Inl e \<Rightarrow> Inl e
                         | Inr pte1 \<Rightarrow> store s3 target_entry (SET_FRAME_N pte1 ppn))))
                      else Inr s2
             else Inr s1)"

definition page_table_query ::
  "mmap_results \<Rightarrow> u64 \<Rightarrow> u64 \<Rightarrow> os \<Rightarrow> os_error + u64 \<times> os" where
  "page_table_query mm pt vpn s =
     (let base_pt = phys_to_virt s (PHYSICAL_ADDR pt 0)
      in case page_walk mm base_pt vpn False s of
           Inl e \<Rightarrow> Inl e
         | Inr (target_pt, s1) \<Rightarrow>
             if target_pt = NO_MAPPING then Inr (NO_MAPPING, s1)
             else
               (case load s1 (entry_addr target_pt (VPN_I vpn TRIE_DEPTH)) of
                  Inl e \<Rightarrow> Inl e
                | Inr target_entry \<Rightarrow>
                    if \<not> IS_VALID_PTE target_entry then Inr (NO_MAPPING, s1)
                    else Inr (GET_FRAME_N target_entry, s1)))"

section \<open>The test driver\<close>

definition assert_query ::
  "mmap_results \<Rightarrow> u64 \<Rightarrow> u64 \<Rightarrow> u64 \<Rightarrow> os \<Rightarrow> os_error + os" where
  "assert_query mm pt vpn expected s =
     (case page_table_query mm pt vpn s of
        Inl e \<Rightarrow> Inl e
      | Inr (r, s1) \<Rightarrow> if r = expected then Inr s1 else Inl Assertion_failed)"

definition os_main :: "mmap_results \<Rightarrow> os_error + nat" where
  "os_main mm =
     (case alloc_page_frame mm os_init of
        Inl e \<Rightarrow> Inl e
      | Inr (pt, s0) \<Rightarrow>
     (case assert_query mm pt 0xcafe NO_MAPPING s0 of
        Inl e \<Rightarrow> Inl e
      | Inr s1 \<Rightarrow>
     (case page_table_update mm pt 0xcafe 0xf00d s1 of
        Inl e \<Rightarrow> Inl e
      | Inr s2 \<Rightarrow>
     (case assert_query mm pt 0xcafe 0xf00d s2 of
        Inl e \<Rightarrow> Inl e
      | Inr s3 \<Rightarrow>
     (case page_table_update mm pt 0xcafe NO_MAPPING s3 of
        Inl e \<Rightarrow> Inl e
      | Inr s4 \<Rightarrow>
     (case assert_query mm pt 0xcafe NO_MAPPING s4 of
        Inl e \<Rightarrow> Inl e
      | Inr s5 \<Rightarrow> Inr 0))))))"

section \<open>Correctness\<close>

lemma entry_addr_cell: "entry_addr pt i = cell_addr pt i"
  by (simp add: entry_addr_def cell_addr_def PT_ENTRY_SIZE_BYTES_def)

definition pt_inv :: "mmap_results \<Rightarrow> u64 set \<Rightarrow> os \<Rightarrow> bool" where
  "pt_inv mm roots s \<longleftrightarrow>
     os_inv mm s \<and> (\<exists>own. forest (frame_rd s) (frame_live s) roots own)"

abbreviation mapping :: "os \<Rightarrow> u64 \<Rightarrow> u64 \<Rightarrow> u64 option" where
  "mapping s \<equiv> translation (frame_rd s)"

lemma vpn_path_Suc: "vpn_path vpn (Suc n) = vpn_path vpn n @ [VPN_I vpn (Suc n)]"
  by (simp add: vpn_path_def)

lemma vpn_path_simps [simp]:
  "vpn_path vpn 0 = []" "length (vpn_path vpn n) = n" "\<forall>i \<in> set (vpn_path vpn n). i < 512"
  by (auto simp: vpn_path_def)

lemma vpn_rest: "i < 5 \<Longrightarrow> map (VPN_I vpn) [i..<5] = VPN_I vpn i # map (VPN_I vpn) [Suc i..<5]"
  by (simp add: upt_conv_Cons)

text \<open>The five indices determine the low 45 bits of the virtual page number, and nothing else.\<close>

lemma bit_VPN_I: "bit (VPN_I v k) n \<longleftrightarrow> n < 9 \<and> bit v (9 * (5 - k) + n)"
  by (auto simp: VPN_I_take_bit bit_simps)

lemma vpn_path_eq_iff: "vpn_path v 5 = vpn_path w 5 \<longleftrightarrow> take_bit 45 v = take_bit 45 w"
proof
  assume eq: "vpn_path v 5 = vpn_path w 5"
  have idx: "VPN_I v k = VPN_I w k" if "1 \<le> k" "k \<le> 5" for k
    using arg_cong [OF eq, of "\<lambda>p. p ! (k - 1)"] that by (simp add: vpn_path_def)
  show "take_bit 45 v = take_bit 45 w"
  proof (rule bit_eqI)
    fix n
    have "bit v n = bit w n" if "n < 45"
    proof -
      have "bit (VPN_I v (5 - n div 9)) (n mod 9) = bit (VPN_I w (5 - n div 9)) (n mod 9)"
        using that by (simp add: idx)
      moreover have "9 * (5 - (5 - n div 9)) + n mod 9 = n" using that by simp
      ultimately show ?thesis by (simp add: bit_VPN_I)
    qed
    then show "bit (take_bit 45 v) n = bit (take_bit 45 w) n"
      by (auto simp: bit_take_bit_iff)
  qed
next
  assume eq: "take_bit 45 v = take_bit 45 w"
  have bits: "bit v n = bit w n" if "n < 45" for n
    using arg_cong [OF eq, of "\<lambda>x. bit x n"] that by (simp add: bit_take_bit_iff)
  have "VPN_I v k = VPN_I w k" if "1 \<le> k" for k
    by (rule bit_eqI) (use that bits in \<open>auto simp: bit_VPN_I\<close>)
  then show "vpn_path v 5 = vpn_path w 5" by (simp add: vpn_path_def)
qed

subsection \<open>The walk\<close>

lemma page_walk_done: "page_walk_loop mm vpn allocate 5 pt s = Inr (pt, s)"
  by (simp add: page_walk_loop.simps)

lemma page_walk_lookup:
  assumes "os_inv mm s" "forest (frame_rd s) (frame_live s) roots own"
    "own f = Some (r, vpn_path vpn k)" "i = Suc k" "k \<le> 4"
  shows "page_walk_loop mm vpn False i (os_pages s f) s =
    Inr (case trie_lookup (frame_rd s) f (map (VPN_I vpn) [i..<5]) of
           None \<Rightarrow> NO_MAPPING | Some g \<Rightarrow> os_pages s g, s)"
  using assms(3-)
proof (induction "4 - k" arbitrary: i k f)
  case 0
  then show ?case by (simp add: page_walk_done)
next
  case (Suc n)
  then have k: "k < 4" and i: "i = Suc k" "i < 5" by auto
  have live: "frame_live s f" using forestD(2) [OF assms(2) Suc.prems(1)] .
  let ?e = "frame_rd s f (VPN_I vpn i)"
  note ld = load_cell [OF assms(1) live VPN_I_lt]
  show ?case
  proof (cases "IS_VALID_PTE ?e")
    case False
    then show ?thesis using i
      by (subst page_walk_loop.simps) (simp add: entry_addr_cell ld Let_def vpn_rest)
  next
    case True
    have child: "own (GET_FRAME_N ?e) = Some (r, vpn_path vpn (Suc k))"
      using fs.child [OF assms(1,2) Suc.prems(1) _ VPN_I_lt True] k i by (simp add: vpn_path_Suc)
    have "page_walk_loop mm vpn False i (os_pages s f) s =
        page_walk_loop mm vpn False (Suc i) (os_pages s (GET_FRAME_N ?e)) s"
      using True i phys_to_virt_frame [OF assms(1) forestD(2) [OF assms(2) child]]
      by (subst page_walk_loop.simps) (simp add: entry_addr_cell ld Let_def)
    also have "\<dots> = Inr (case trie_lookup (frame_rd s) (GET_FRAME_N ?e) (map (VPN_I vpn) [Suc i..<5]) of
           None \<Rightarrow> NO_MAPPING | Some g \<Rightarrow> os_pages s g, s)"
      by (rule Suc.hyps(1) [OF _ child]) (use Suc.hyps(2) i k in auto)
    finally show ?thesis using True i by (simp add: vpn_rest)
  qed
qed

text \<open>
  One turn of the allocating walk at a zero entry: the frame is allocated, linked, and the
  walk goes on in it.
\<close>

lemma SET_VALID_SET_FRAME: "SET_VALID (SET_FRAME_N 0 f) = mk_pte f"
  by (simp add: mk_pte_def)

lemma walk_link_step:
  assumes "os_inv mm s" "frame_live s f" "frame_rd s f (VPN_I vpn i) = 0" "i < 5"
  shows "page_walk_loop mm vpn True i (os_pages s f) s =
    (case alloc_page_frame mm s of
       Inl e \<Rightarrow> Inl e
     | Inr (h, t) \<Rightarrow>
         (let u = frame_wr t f (VPN_I vpn i) (mk_pte h)
          in page_walk_loop mm vpn True (Suc i) (os_pages u h) u))"
proof (cases "alloc_page_frame mm s")
  case (Inl e)
  then show ?thesis
    using assms by (subst page_walk_loop.simps) (simp add: entry_addr_cell load_cell Let_def)
next
  case (Inr ht)
  obtain h t where ht: "ht = (h, t)" by (cases ht)
  note al = Inr [unfolded ht]
  let ?i = "VPN_I vpn i"
  have invt: "os_inv mm t" using alloc_inv [OF assms(1) al] .
  have live: "frame_live t f" "frame_live t h" using alloc_step(2) [OF assms(1) al] assms(2) by auto
  have pg: "os_pages t f = os_pages s f" by (rule alloc_cells(2) [OF assms(1) al VPN_I_lt assms(2)])
  have r0: "frame_rd t f ?i = 0" using alloc_rd_old [OF assms(1) al assms(2) VPN_I_lt] assms(3) by simp
  have inv2: "os_inv mm (frame_wr t f ?i w)" for w by (rule frame_wr_inv [OF invt live(1) VPN_I_lt])
  have acc: "load t (cell_addr (os_pages s f) ?i) = Inr 0"
    "store t (cell_addr (os_pages s f) ?i) w = Inr (frame_wr t f ?i w)"
    "load (frame_wr t f ?i w) (cell_addr (os_pages s f) ?i) = Inr w"
    "store (frame_wr t f ?i w) (cell_addr (os_pages s f) ?i) v = Inr (frame_wr t f ?i v)" for v w
    using load_cell [OF invt live(1) VPN_I_lt, of vpn i] store_cell [OF invt live(1) VPN_I_lt, of vpn i]
      load_cell [OF inv2 _ VPN_I_lt, of _ f vpn i] store_cell [OF inv2 _ VPN_I_lt, of _ f vpn i] live(1)
      frame_rd_wr [OF invt live(1) live(1) VPN_I_lt VPN_I_lt]
    by (simp_all add: pg r0)
  have h52: "take_bit 52 h = h" by (rule frame_small(2) [OF invt live(2)])
  have virt: "phys_to_virt (frame_wr t f ?i (mk_pte h)) (PHYSICAL_ADDR h 0) = os_pages t h"
    using phys_to_virt_frame [OF inv2 [of "mk_pte h"], of h] live(2) by simp
  show ?thesis
    using assms(3,4) load_cell [OF assms(1,2) VPN_I_lt, of vpn i]
    by (subst page_walk_loop.simps)
      (simp add: entry_addr_cell al ht acc SET_VALID_SET_FRAME h52 virt Let_def)
qed

text \<open>All complete lookups from the given roots agree in two states.\<close>

definition same_tables :: "u64 set \<Rightarrow> os \<Rightarrow> os \<Rightarrow> bool" where
  "same_tables roots s t \<longleftrightarrow>
     (\<forall>r \<in> roots. \<forall>is. length is = 5 \<longrightarrow> (\<forall>j \<in> set is. j < 512) \<longrightarrow>
        trie_lookup (frame_rd t) r is = trie_lookup (frame_rd s) r is)"

lemma same_tables_trans: "same_tables roots s t \<Longrightarrow> same_tables roots t u \<Longrightarrow> same_tables roots s u"
  by (simp add: same_tables_def)

text \<open>What the allocating walk leaves behind, with \<open>n\<close> levels still to go at its start.\<close>

fun walk_post ::
  "mmap_results \<Rightarrow> u64 set \<Rightarrow> u64 \<Rightarrow> u64 list \<Rightarrow> nat \<Rightarrow> os \<Rightarrow> os_error + ptr \<times> os \<Rightarrow> bool" where
  "walk_post mm roots r p n s (Inl e) \<longleftrightarrow>
     (e = Out_of_physical_memory \<and> unat NPAGES < unat (os_nalloc s) + n) \<or>
     (e = Mmap_failed \<and> (\<exists>k < n. mm (os_nmmap s + k) = None))"
| "walk_post mm roots r p n s (Inr (c, t)) \<longleftrightarrow>
     os_inv mm t \<and> same_tables roots s t \<and>
     (\<exists>own g. forest (frame_rd t) (frame_live t) roots own \<and> own g = Some (r, p) \<and> c = os_pages t g)"

lemma walk_post_mono: "walk_post mm roots r p n s res \<Longrightarrow> n \<le> m \<Longrightarrow> walk_post mm roots r p m s res"
  by (cases "(mm, roots, r, p, n, s, res)" rule: walk_post.cases) (auto intro: less_le_trans)

lemma walk_post_alloc:
  assumes "alloc_page_frame mm s = Inr (h, t)" "os_inv mm s" "same_tables roots s u"
    "os_nalloc u = os_nalloc t" "os_nmmap u = os_nmmap t" "walk_post mm roots r p n u res"
  shows "walk_post mm roots r p (Suc n) s res"
proof -
  note st = alloc_step [OF assms(2,1)]
  have h: "unat h = unat (os_nalloc s)" using alloc_Inr [OF assms(1)] by metis
  show ?thesis
  proof (cases res)
    case (Inl e)
    have "unat (os_nalloc u) = Suc (unat (os_nalloc s))" "os_nmmap u = Suc (os_nmmap s)"
      using st(4,8) h assms(4,5) by simp_all
    then show ?thesis using assms(6) Inl by (auto intro: exI [of _ "Suc k" for k])
  next
    case (Inr ct)
    then show ?thesis
      using assms(6) same_tables_trans [OF assms(3)] by (cases ct) auto
  qed
qed

lemma alloc_fails:
  assumes "alloc_page_frame mm s = Inl e" "os_inv mm s" "0 < n"
  shows "walk_post mm roots r p n s (Inl e)"
  using assms os_invD(2) [OF assms(2)]
  by (auto simp: alloc_page_frame_def Let_def split: if_splits option.splits intro: exI [of _ 0])

lemma page_walk_alloc:
  assumes "os_inv mm s" "forest (frame_rd s) (frame_live s) roots own"
    "own f = Some (r, vpn_path vpn k)" "i = Suc k" "k \<le> 4"
  shows "walk_post mm roots r (vpn_path vpn 4) (4 - k) s (page_walk_loop mm vpn True i (os_pages s f) s)"
  using assms
proof (induction "4 - k" arbitrary: i k f s own)
  case 0
  then have "k = 4" "i = 5" by auto
  with 0 show ?case by (auto simp: page_walk_done same_tables_def)
next
  case (Suc n)
  then have k: "k < 4" and i: "i = Suc k" "i < 5" and n: "n = 4 - Suc k" by auto
  have live: "frame_live s f" using forestD(2) [OF Suc.prems(2,3)] .
  let ?i = "VPN_I vpn i"
  let ?e = "frame_rd s f ?i"
  have len: "length (vpn_path vpn k) < 4" using k by simp
  show ?case
  proof (cases "IS_VALID_PTE ?e")
    case True
    have child: "own (GET_FRAME_N ?e) = Some (r, vpn_path vpn (Suc k))"
      using fs.child [OF Suc.prems(1-3) len VPN_I_lt True] i by (simp add: vpn_path_Suc)
    have "page_walk_loop mm vpn True i (os_pages s f) s =
        page_walk_loop mm vpn True (Suc i) (os_pages s (GET_FRAME_N ?e)) s"
      using True i phys_to_virt_frame [OF Suc.prems(1) forestD(2) [OF Suc.prems(2) child]]
        load_cell [OF Suc.prems(1) live VPN_I_lt, of vpn i]
      by (subst page_walk_loop.simps) (simp add: entry_addr_cell Let_def)
    moreover have "walk_post mm roots r (vpn_path vpn 4) (4 - Suc k) s
        (page_walk_loop mm vpn True (Suc i) (os_pages s (GET_FRAME_N ?e)) s)"
      using Suc.hyps(1) [OF n Suc.prems(1,2) child] i k by simp
    ultimately show ?thesis using k by (simp add: walk_post_mono [where n = "4 - Suc k"])
  next
    case False
    then have zero: "?e = 0"
      using forestD(5) [OF Suc.prems(2,3) len VPN_I_lt, of vpn i] by (auto simp: inner_entry_ok_def)
    note walk = walk_link_step [OF Suc.prems(1) live zero i(2)]
    show ?thesis
    proof (cases "alloc_page_frame mm s")
      case (Inl e)
      show ?thesis
        unfolding walk Inl sum.case by (rule alloc_fails [OF Inl Suc.prems(1)]) (use k in simp)
    next
      case (Inr ht)
      obtain h t where al: "alloc_page_frame mm s = Inr (h, t)" using Inr by (cases ht) auto
      let ?u = "frame_wr t f ?i (mk_pte h)"
      have path: "vpn_path vpn k @ [?i] = vpn_path vpn (Suc k)" using i by (simp add: vpn_path_Suc)
      have invt: "os_inv mm t" using alloc_inv [OF Suc.prems(1) al] .
      have "frame_live t f" using alloc_step(2) [OF Suc.prems(1) al] live by simp
      then have invu: "os_inv mm ?u" by (rule frame_wr_inv [OF invt _ VPN_I_lt])
      have forest: "forest (frame_rd ?u) (frame_live ?u) roots (own(h \<mapsto> (r, vpn_path vpn (Suc k))))"
        using fs.link_forest [OF Suc.prems(1-3) len VPN_I_lt zero al] path by simp
      have same: "same_tables roots s ?u"
        using fs.link_lookup [OF Suc.prems(1-3) len VPN_I_lt zero al forest_root [OF Suc.prems(2)]]
        by (simp add: same_tables_def)
      have "walk_post mm roots r (vpn_path vpn 4) (4 - Suc k) ?u
          (page_walk_loop mm vpn True (Suc i) (os_pages ?u h) ?u)"
        using Suc.hyps(1) [OF n invu forest] i k by simp
      then have "walk_post mm roots r (vpn_path vpn 4) (Suc (4 - Suc k)) s
          (page_walk_loop mm vpn True (Suc i) (os_pages ?u h) ?u)"
        by (intro walk_post_alloc [OF al Suc.prems(1) same]) (simp_all add: frame_wr_def)
      moreover have "Suc (4 - Suc k) = 4 - k" using k by simp
      ultimately show ?thesis by (simp add: walk al Let_def)
    qed
  qed
qed

subsection \<open>Query and update\<close>

lemma root_walk:
  assumes "forest (frame_rd s) (frame_live s) roots own" "pt \<in> roots"
  shows "own pt = Some (pt, vpn_path vpn 0)" "frame_live s pt"
  using forest_root [OF assms] forestD(2) [OF assms(1) forest_root [OF assms]] by simp_all

lemma path5: "vpn_path vpn 5 = vpn_path vpn 4 @ [VPN_I vpn 5]"
  using vpn_path_Suc [of vpn 4] by simp

lemma path4_upt: "map (VPN_I vpn) [Suc 0..<5] = vpn_path vpn 4"
  by (simp add: vpn_path_def)

text \<open>On well-formed page tables \<^verbatim>\<open>page_table_query\<close> returns exactly what the table
  with the given root maps the virtual page number to, or \<^verbatim>\<open>NO_MAPPING\<close>; it never faults and
  leaves memory as it was.\<close>

lemma query_spec:
  assumes "pt_inv mm roots s" "pt \<in> roots"
  shows "page_table_query mm pt vpn s =
    Inr (case mapping s pt vpn of None \<Rightarrow> NO_MAPPING | Some ppn \<Rightarrow> ppn, s)"
proof -
  obtain own where inv: "os_inv mm s" and own: "forest (frame_rd s) (frame_live s) roots own"
    using assms(1) by (auto simp: pt_inv_def)
  note root = root_walk [OF own assms(2)]
  have walk: "page_walk mm (os_pages s pt) vpn False s =
      Inr (case trie_lookup (frame_rd s) pt (vpn_path vpn 4) of
             None \<Rightarrow> NO_MAPPING | Some g \<Rightarrow> os_pages s g, s)"
    using page_walk_lookup [OF inv own root(1)] by (simp add: page_walk_def path4_upt)
  show ?thesis
  proof (cases "trie_lookup (frame_rd s) pt (vpn_path vpn 4)")
    case None
    then show ?thesis
      by (simp add: page_table_query_def phys_to_virt_frame [OF inv root(2)] walk
          translation_def path5 trie_lookup_append)
  next
    case (Some g)
    then have "own g = Some (pt, vpn_path vpn 4)"
      using fs.lookup_own [OF inv own root(1)] by simp
    then have live: "frame_live s g" by (rule forestD(2) [OF own])
    show ?thesis
      using Some page_not_NO_MAPPING [OF inv live] load_cell [OF inv live VPN_I_lt, of vpn 5]
      by (simp add: page_table_query_def phys_to_virt_frame [OF inv root(2)] walk
          translation_def path5 trie_lookup_append entry_addr_cell)
  qed
qed

text \<open>The write of the last-level entry.\<close>

definition leaf_entry :: "u64 \<Rightarrow> pt_entry" where
  "leaf_entry ppn = (if ppn = NO_MAPPING then 0 else mk_pte ppn)"

lemma leaf_write:
  assumes "os_inv mm s" "forest (frame_rd s) (frame_live s) roots own"
    "own g = Some (pt, vpn_path vpn 4)"
  shows "pt_inv mm roots (frame_wr s g (VPN_I vpn 5) (leaf_entry ppn))"
    "r \<in> roots \<Longrightarrow> mapping (frame_wr s g (VPN_I vpn 5) (leaf_entry ppn)) r w =
       (if r = pt \<and> take_bit 45 w = take_bit 45 vpn
        then (if ppn = NO_MAPPING then None else Some (take_bit 52 ppn)) else mapping s r w)"
proof -
  have live: "frame_live s g" using forestD(2) [OF assms(2,3)] .
  show "pt_inv mm roots (frame_wr s g (VPN_I vpn 5) (leaf_entry ppn))"
    unfolding pt_inv_def
    by (intro conjI exI) (rule frame_wr_inv [OF assms(1) live VPN_I_lt],
        rule fs.leaf_forest [OF assms _ VPN_I_lt], simp)
  assume "r \<in> roots"
  then have "own r = Some (r, [])" by (rule forest_root [OF assms(2)])
  from fs.leaf_lookup [OF assms _ VPN_I_lt this, of "vpn_path w 5" vpn 5 "leaf_entry ppn"]
  show "mapping (frame_wr s g (VPN_I vpn 5) (leaf_entry ppn)) r w =
       (if r = pt \<and> take_bit 45 w = take_bit 45 vpn
        then (if ppn = NO_MAPPING then None else Some (take_bit 52 ppn)) else mapping s r w)"
    by (simp add: translation_def path5 [symmetric] vpn_path_eq_iff leaf_entry_def)
qed

text \<open>The tail of \<^verbatim>\<open>page_table_update\<close>, once the walk has found the last-level node \<open>g\<close>.\<close>

lemma update_tail:
  assumes "os_inv mm t" "frame_live t g"
    "page_walk mm (os_pages s pt) vpn (ppn \<noteq> NO_MAPPING) s = Inr (os_pages t g, t)"
    "os_inv mm s" "frame_live s pt"
  shows "page_table_update mm pt vpn ppn s = Inr (frame_wr t g (VPN_I vpn 5) (leaf_entry ppn))"
proof -
  let ?i = "VPN_I vpn 5"
  have inv: "os_inv mm (frame_wr t g ?i e)" for e by (rule frame_wr_inv [OF assms(1,2) VPN_I_lt])
  have acc: "store t (cell_addr (os_pages t g) ?i) e = Inr (frame_wr t g ?i e)"
    "load (frame_wr t g ?i e) (cell_addr (os_pages t g) ?i) = Inr e"
    "store (frame_wr t g ?i e) (cell_addr (os_pages t g) ?i) d = Inr (frame_wr t g ?i d)" for d e
    using store_cell [OF assms(1,2) VPN_I_lt, of vpn 5] load_cell [OF inv _ VPN_I_lt, of _ g vpn 5]
      store_cell [OF inv _ VPN_I_lt, of _ g vpn 5] assms(2)
      frame_rd_wr [OF assms(1,2,2) VPN_I_lt VPN_I_lt]
    by simp_all
  show ?thesis
    using page_not_NO_MAPPING [OF assms(1,2)] assms(3)
    by (simp add: page_table_update_def phys_to_virt_frame [OF assms(4,5)] entry_addr_cell acc
        set_order leaf_entry_def Let_def)
qed

text \<open>The two kinds of update: unmapping never allocates, mapping may.\<close>

lemma update_unmap_cases:
  assumes "os_inv mm s" "forest (frame_rd s) (frame_live s) roots own" "pt \<in> roots"
  obtains (absent) "trie_lookup (frame_rd s) pt (vpn_path vpn 4) = None"
      "page_table_update mm pt vpn NO_MAPPING s = Inr s"
    | (leaf) g where "own g = Some (pt, vpn_path vpn 4)"
      "page_table_update mm pt vpn NO_MAPPING s = Inr (frame_wr s g (VPN_I vpn 5) (leaf_entry NO_MAPPING))"
proof -
  note root = root_walk [OF assms(2,3)]
  have walk: "page_walk mm (os_pages s pt) vpn False s =
      Inr (case trie_lookup (frame_rd s) pt (vpn_path vpn 4) of
             None \<Rightarrow> NO_MAPPING | Some g \<Rightarrow> os_pages s g, s)"
    using page_walk_lookup [OF assms(1,2) root(1), where i = 1] by (simp add: page_walk_def path4_upt)
  show ?thesis
  proof (cases "trie_lookup (frame_rd s) pt (vpn_path vpn 4)")
    case None
    then show ?thesis
      using absent walk by (simp add: page_table_update_def phys_to_virt_frame [OF assms(1) root(2)])
  next
    case (Some g)
    then have g: "own g = Some (pt, vpn_path vpn 4)"
      using fs.lookup_own [OF assms(1,2) root(1)] by simp
    show ?thesis
      by (rule leaf [OF g], rule update_tail [OF assms(1) forestD(2) [OF assms(2) g] _ assms(1) root(2)])
        (simp add: walk Some)
  qed
qed

lemma update_map_cases:
  assumes "os_inv mm s" "forest (frame_rd s) (frame_live s) roots own" "pt \<in> roots" "ppn \<noteq> NO_MAPPING"
  obtains (failed) e where "page_table_update mm pt vpn ppn s = Inl e"
      "walk_post mm roots pt (vpn_path vpn 4) 4 s (Inl e)"
    | (leaf) u own' g where "os_inv mm u" "forest (frame_rd u) (frame_live u) roots own'"
      "own' g = Some (pt, vpn_path vpn 4)" "same_tables roots s u"
      "page_table_update mm pt vpn ppn s = Inr (frame_wr u g (VPN_I vpn 5) (leaf_entry ppn))"
proof -
  note root = root_walk [OF assms(2,3)]
  let ?walk = "page_walk mm (os_pages s pt) vpn True s"
  have post: "walk_post mm roots pt (vpn_path vpn 4) 4 s ?walk"
    using page_walk_alloc [OF assms(1,2) root(1), where i = 1] by (simp add: page_walk_def)
  show ?thesis
  proof (cases ?walk)
    case (Inl e)
    show ?thesis
      by (rule failed [of e])
        (use Inl post assms(4) in
          \<open>simp_all add: page_table_update_def phys_to_virt_frame [OF assms(1) root(2)]\<close>)
  next
    case (Inr cu)
    then obtain u own' g where u: "?walk = Inr (os_pages u g, u)" "os_inv mm u" "same_tables roots s u"
        "forest (frame_rd u) (frame_live u) roots own'" "own' g = Some (pt, vpn_path vpn 4)"
      using post by (cases cu) auto
    show ?thesis
      by (rule leaf [OF u(2,4,5,3)], rule update_tail [OF u(2) forestD(2) [OF u(4,5)] _ assms(1) root(2)])
        (simp add: u(1) assms(4))
  qed
qed

text \<open>A successful \<^verbatim>\<open>page_table_update\<close> refines the update of the abstract map: the
  virtual page number (its low 45 bits) is unmapped for \<^verbatim>\<open>NO_MAPPING\<close> and otherwise mapped to the
  given frame number (its low 52 bits); every other page of this table, and every page of every
  other table, keeps its mapping; and the tables stay well formed.\<close>

lemma update_spec:
  assumes "pt_inv mm roots s" "pt \<in> roots" "page_table_update mm pt vpn ppn s = Inr t"
  shows "pt_inv mm roots t \<and>
    (\<forall>r \<in> roots. \<forall>w. mapping t r w =
       (if r = pt \<and> take_bit 45 w = take_bit 45 vpn
        then (if ppn = NO_MAPPING then None else Some (take_bit 52 ppn))
        else mapping s r w))"
proof -
  obtain own where inv: "os_inv mm s" and own: "forest (frame_rd s) (frame_live s) roots own"
    using assms(1) by (auto simp: pt_inv_def)
  show ?thesis
  proof (cases "ppn = NO_MAPPING")
    case True
    show ?thesis
    proof (rule update_unmap_cases [OF inv own assms(2), of vpn])
      assume none: "trie_lookup (frame_rd s) pt (vpn_path vpn 4) = None"
        and "page_table_update mm pt vpn NO_MAPPING s = Inr s"
      then have "t = s" using assms(3) True by simp
      moreover have "mapping s pt w = None" if "take_bit 45 w = take_bit 45 vpn" for w
      proof -
        have "vpn_path w 5 = vpn_path vpn 5" using that by (simp add: vpn_path_eq_iff)
        then show ?thesis using none by (simp add: translation_def path5 trie_lookup_append)
      qed
      ultimately show ?thesis using assms(1) True by auto
    next
      fix g
      assume g: "own g = Some (pt, vpn_path vpn 4)"
        and "page_table_update mm pt vpn NO_MAPPING s =
          Inr (frame_wr s g (VPN_I vpn 5) (leaf_entry NO_MAPPING))"
      then have "t = frame_wr s g (VPN_I vpn 5) (leaf_entry ppn)" using assms(3) True by simp
      then show ?thesis using leaf_write [OF inv own g] by simp
    qed
  next
    case False
    show ?thesis
    proof (rule update_map_cases [OF inv own assms(2) False, of vpn])
      fix u own' g
      assume u: "os_inv mm u" "forest (frame_rd u) (frame_live u) roots own'"
          "own' g = Some (pt, vpn_path vpn 4)" "same_tables roots s u"
        and "page_table_update mm pt vpn ppn s = Inr (frame_wr u g (VPN_I vpn 5) (leaf_entry ppn))"
      then have "t = frame_wr u g (VPN_I vpn 5) (leaf_entry ppn)" using assms(3) by simp
      moreover have "mapping u r w = mapping s r w" if "r \<in> roots" for r w
        using u(4) that by (simp add: same_tables_def translation_def)
      ultimately show ?thesis using leaf_write [OF u(1,2,3)] by simp
    qed (use assms(3) in simp)
  qed
qed

text \<open>\<^verbatim>\<open>page_table_update\<close> never touches unmapped memory on well-formed tables: it can
  only fail because the simulated physical memory is exhausted or \<^verbatim>\<open>mmap\<close> fails, it needs at most
  four new frames, and unmapping needs none and always succeeds.\<close>

lemma update_outcome:
  assumes "pt_inv mm roots s" "pt \<in> roots"
  shows "case page_table_update mm pt vpn ppn s of
      Inl e \<Rightarrow> ppn \<noteq> NO_MAPPING \<and>
        (e = Out_of_physical_memory \<and> unat NPAGES < unat (os_nalloc s) + 4 \<or>
         e = Mmap_failed \<and> (\<exists>k < 4. mm (os_nmmap s + k) = None))
    | Inr t \<Rightarrow> ppn = NO_MAPPING \<longrightarrow> os_nalloc t = os_nalloc s"
proof -
  obtain own where inv: "os_inv mm s" and own: "forest (frame_rd s) (frame_live s) roots own"
    using assms(1) by (auto simp: pt_inv_def)
  show ?thesis
  proof (cases "ppn = NO_MAPPING")
    case True
    show ?thesis
      by (rule update_unmap_cases [OF inv own assms(2), of vpn]) (simp_all add: True frame_wr_def)
  next
    case False
    show ?thesis
      by (rule update_map_cases [OF inv own assms(2) False, of vpn]) (simp_all add: False)
  qed
qed

text \<open>A freshly allocated frame is an empty table, and no other table changes.\<close>

lemma new_table_spec:
  assumes "pt_inv mm roots s" "alloc_page_frame mm s = Inr (f, t)"
  shows "f \<notin> roots \<and> pt_inv mm (insert f roots) t \<and>
    (\<forall>w. mapping t f w = None) \<and> (\<forall>r \<in> roots. \<forall>w. mapping t r w = mapping s r w)"
proof -
  obtain own where inv: "os_inv mm s" and own: "forest (frame_rd s) (frame_live s) roots own"
    using assms(1) by (auto simp: pt_inv_def)
  have "f \<notin> roots" using alloc_step(1) [OF inv assms(2)] root_walk(2) [OF own] by auto
  moreover have "pt_inv mm (insert f roots) t"
    using alloc_inv [OF inv assms(2)] fs.new_root_forest [OF inv own assms(2)]
    unfolding pt_inv_def by blast
  moreover have "mapping t f w = None" for w
    using alloc_rd_zero [OF inv assms(2) VPN_I_lt]
    by (simp add: translation_def vpn_path_def upt_conv_Cons)
  moreover have "mapping t r w = mapping s r w" if "r \<in> roots" for r w
    using fs.alloc_lookup [OF inv own assms(2) forest_root [OF own that], of "vpn_path w 5"]
    by (simp add: translation_def)
  ultimately show ?thesis by simp
qed

lemma pt_inv_init: "mmap_contract mm \<Longrightarrow> pt_inv mm {} os_init"
  using os_init_inv forest_empty by (auto simp: pt_inv_def)

lemma query_spec_D:
  assumes "pt_inv mm roots s" "pt \<in> roots"
  shows "page_table_query mm pt vpn s = Inr (r, t) \<longleftrightarrow>
    t = s \<and> r = (case mapping s pt vpn of None \<Rightarrow> NO_MAPPING | Some ppn \<Rightarrow> ppn)"
  using query_spec [OF assms, of vpn] by auto

end
