(* ===== verification/Page_Table_Thms.thy ===== *)
theory Page_Table_Thms
  imports Page_Table
begin

text \<open>
  The properties of the page table of \<^verbatim>\<open>src/hw1_os\<close>: query and update refine lookup and
  update of one partial map per root, tables are isolated from each other, memory is never
  accessed outside allocated frames, and the program's own test driver succeeds.  Their
  witnesses run on a concrete \<^verbatim>\<open>mmap\<close> with sixteen pages.
\<close>

section \<open>A concrete machine\<close>

definition mmap_low :: mmap_results where
  "mmap_low n = (if n < 16 then Some (4096 * (of_nat n + 1)) else None)"

lemma mmap_low_contract: "mmap_contract mmap_low"
proof -
  have "take_bit 12 (4096 * x) = 0" for x :: u64
    using take_bit_push_bit [of 12 12 x] by (simp add: push_bit_eq_mult mult.commute)
  moreover have "n = m" if "n < 16" "m < 16" "4096 * (of_nat n + 1 :: u64) = 4096 * (of_nat m + 1)" for n m
  proof -
    have "unat (4096 * (of_nat n + 1 :: u64)) = 4096 * (n + 1)" if "n < 16" for n
      using that by (simp add: unat_word_ariths unsigned_of_nat take_bit_nat_eq_self)
    then show ?thesis using that by (metis add_right_cancel mult_cancel_left zero_neq_numeral)
  qed
  ultimately show ?thesis
    unfolding mmap_contract_def mmap_low_def page_aligned_def
    by (auto simp del: distrib_left_numeral split: if_splits)
qed

definition machine0 :: os where
  "machine0 = \<lparr>os_nalloc = 1, os_pages = (\<lambda>_. NULL)(0 := 4096),
     os_mem = map_page 4096 Map.empty, os_nmmap = 1\<rparr>"

lemma machine0_sel [simp]: "os_nalloc machine0 = 1" "os_nmmap machine0 = 1"
  by (simp_all add: machine0_def)

lemma machine0_alloc: "alloc_page_frame mmap_low os_init = Inr (0, machine0)"
  by (simp add: alloc_page_frame_def os_init_def NPAGES_def mmap_low_def machine0_def)

lemma machine0_inv: "pt_inv mmap_low {0} machine0"
  using new_table_spec [OF pt_inv_init [OF mmap_low_contract] machine0_alloc] by simp

lemma machine0_empty: "mapping machine0 0 vpn = None"
  using new_table_spec [OF pt_inv_init [OF mmap_low_contract] machine0_alloc] by simp

lemma machine0_update: "\<exists>t. page_table_update mmap_low 0 vpn ppn machine0 = Inr t"
proof (cases "page_table_update mmap_low 0 vpn ppn machine0")
  case (Inl e)
  have "\<not> (\<exists>k < 4. mmap_low (Suc k) = None)" by (auto simp: mmap_low_def)
  then show ?thesis
    using update_outcome [OF machine0_inv, where pt = 0 and vpn = vpn and ppn = ppn] Inl
    by (auto simp: NPAGES_def)
qed simp

section \<open>Properties\<close>

text \<open>Claim C15. On well-formed page tables \<^verbatim>\<open>page_table_query\<close> returns exactly what the table
  with the given root maps the virtual page number to, or \<^verbatim>\<open>NO_MAPPING\<close>, which no mapped page
  returns; it never faults and leaves memory as it was.\<close>

theorem page_table_query_correct:
  assumes "pt_inv mm roots s" "pt \<in> roots"
  shows "page_table_query mm pt vpn s =
      Inr (case mapping s pt vpn of None \<Rightarrow> NO_MAPPING | Some ppn \<Rightarrow> ppn, s) \<and>
    mapping s pt vpn \<noteq> Some NO_MAPPING"
proof -
  have "trie_lookup R f (is @ [i]) \<noteq> Some NO_MAPPING" for R f "is" i
  proof (induction "is" arbitrary: f)
    case Nil
    have "\<not> bit (GET_FRAME_N (R f i)) 63"
      using bit_imp_le_length [of "R f i" 75] by (auto simp: GET_FRAME_N_def bit_drop_bit_eq)
    moreover have "bit NO_MAPPING 63" by (simp add: NO_MAPPING_def)
    ultimately show ?case by auto
  qed simp
  then show ?thesis using query_spec [OF assms] by (simp add: translation_def path5)
qed

theorem page_table_query_correct_witness:
  "page_table_query mmap_low 0 0xcafe machine0 = Inr (NO_MAPPING, machine0)"
  using page_table_query_correct [OF machine0_inv, of 0 "0xcafe"] machine0_empty by simp

text \<open>Claim C1. A successful \<^verbatim>\<open>page_table_update\<close> refines the update of the abstract map: the
  virtual page number (its low 45 bits) is unmapped for \<^verbatim>\<open>NO_MAPPING\<close> and otherwise mapped to the
  given frame number (its low 52 bits); every other page of this table, and every page of every
  other table, keeps its mapping; and the tables stay well formed.\<close>

theorem page_table_update_correct:
  assumes "pt_inv mm roots s" "pt \<in> roots" "page_table_update mm pt vpn ppn s = Inr t"
  shows "pt_inv mm roots t \<and>
    (\<forall>r \<in> roots. \<forall>w. mapping t r w =
       (if r = pt \<and> take_bit 45 w = take_bit 45 vpn
        then (if ppn = NO_MAPPING then None else Some (take_bit 52 ppn))
        else mapping s r w))"
  by (rule update_spec [OF assms])

theorem page_table_update_correct_witness:
  "\<exists>t. page_table_update mmap_low 0 0xcafe 0xf00d machine0 = Inr t \<and>
     mapping t 0 0xcafe = Some 0xf00d \<and> mapping t 0 0xcaff = None"
proof -
  obtain t where t: "page_table_update mmap_low 0 0xcafe 0xf00d machine0 = Inr t"
    using machine0_update by blast
  from page_table_update_correct [OF machine0_inv _ t] t show ?thesis
    by (simp add: machine0_empty NO_MAPPING_def)
qed

text \<open>Claim C21. \<^verbatim>\<open>page_table_update\<close> never touches unmapped memory on well-formed tables: it can
  only fail because the simulated physical memory is exhausted or \<^verbatim>\<open>mmap\<close> fails, it needs at most
  four new frames, and unmapping needs none and always succeeds.\<close>

theorem page_table_update_total:
  assumes "pt_inv mm roots s" "pt \<in> roots"
  shows "case page_table_update mm pt vpn ppn s of
      Inl e \<Rightarrow> ppn \<noteq> NO_MAPPING \<and>
        (e = Out_of_physical_memory \<and> unat NPAGES < unat (os_nalloc s) + 4 \<or>
         e = Mmap_failed \<and> (\<exists>k < 4. mm (os_nmmap s + k) = None))
    | Inr t \<Rightarrow> ppn = NO_MAPPING \<longrightarrow> os_nalloc t = os_nalloc s"
  by (rule update_outcome [OF assms])

theorem page_table_update_total_witness:
  "\<exists>t. page_table_update mmap_low 0 0xcafe NO_MAPPING machine0 = Inr t \<and> os_nalloc t = 1"
  using page_table_update_total [OF machine0_inv, where pt = 0 and vpn = "0xcafe" and ppn = NO_MAPPING]
  by (cases "page_table_update mmap_low 0 0xcafe NO_MAPPING machine0") auto

text \<open>Claim C10. After a successful update, a query of the same page of the same table returns
  what was stored; a query of any other page, or of any other table, returns what it returned
  before.\<close>

theorem update_then_query:
  assumes "pt_inv mm roots s" "pt \<in> roots" "pt' \<in> roots"
    "page_table_update mm pt vpn ppn s = Inr t" "page_table_query mm pt' vpn' s = Inr (r, s')"
  shows "page_table_query mm pt' vpn' t =
    Inr (if pt' = pt \<and> take_bit 45 vpn' = take_bit 45 vpn
         then (if ppn = NO_MAPPING then NO_MAPPING else take_bit 52 ppn)
         else r, t)"
  using update_spec [OF assms(1,2,4)] query_spec [OF _ assms(3), of mm t vpn']
    query_spec_D [OF assms(1,3), of vpn' r s'] assms(3,5)
  by simp

theorem update_then_query_witness:
  "\<exists>t. page_table_update mmap_low 0 0xcafe 0xf00d machine0 = Inr t \<and>
     page_table_query mmap_low 0 0xcafe t = Inr (0xf00d, t) \<and>
     page_table_query mmap_low 0 0xbeef t = Inr (NO_MAPPING, t)"
proof -
  obtain t where t: "page_table_update mmap_low 0 0xcafe 0xf00d machine0 = Inr t"
    using machine0_update by blast
  have q: "page_table_query mmap_low 0 v machine0 = Inr (NO_MAPPING, machine0)" for v
    using query_spec [OF machine0_inv, of 0 v] machine0_empty by simp
  show ?thesis
    using update_then_query [OF machine0_inv _ _ t q] t by (simp add: NO_MAPPING_def)
qed

text \<open>Claim C25. A frame fresh from \<^verbatim>\<open>alloc_page_frame\<close> is the root of a new, empty table: it is no
  root that existed, every page of it is unmapped, the mappings of all other tables stand, and
  the tables together are well formed.\<close>

theorem new_page_table:
  assumes "pt_inv mm roots s" "alloc_page_frame mm s = Inr (f, t)"
  shows "f \<notin> roots \<and> pt_inv mm (insert f roots) t \<and>
    (\<forall>w. mapping t f w = None) \<and> (\<forall>r \<in> roots. \<forall>w. mapping t r w = mapping s r w)"
  by (rule new_table_spec [OF assms])

theorem new_page_table_witness:
  "alloc_page_frame mmap_low os_init = Inr (0, machine0) \<and> pt_inv mmap_low {0} machine0"
  using new_page_table [OF pt_inv_init [OF mmap_low_contract] machine0_alloc] machine0_alloc by simp

text \<open>The test driver \<^verbatim>\<open>main\<close> of \<^verbatim>\<open>os.c\<close> passes all its assertions and returns 0,
  whatever addresses \<^verbatim>\<open>mmap\<close> hands out for the five frames it needs.\<close>

theorem os_main_succeeds:
  assumes "mmap_contract mm" "\<forall>n < 5. mm n \<noteq> None"
  shows "os_main mm = Inr 0"
proof -
  have "mm 0 \<noteq> None" using assms(2) by simp
  then obtain va where "mm 0 = Some va" by blast
  then obtain s0 where s0: "alloc_page_frame mm os_init = Inr (0, s0)"
      and n0: "os_nalloc s0 = 1" "os_nmmap s0 = 1"
    by (simp add: alloc_page_frame_def os_init_def NPAGES_def)
  have inv0: "pt_inv mm {0} s0" "mapping s0 0 w = None" for w
    using new_table_spec [OF pt_inv_init [OF assms(1)] s0] by simp_all
  have "\<not> (\<exists>k < 4. mm (Suc k) = None)"
    using assms(2) by (auto dest: spec [of _ "Suc k" for k])
  then obtain s2 where s2: "page_table_update mm 0 0xcafe 0xf00d s0 = Inr s2"
    using update_outcome [OF inv0(1), where pt = 0 and vpn = "0xcafe" and ppn = "0xf00d"] n0
    by (cases "page_table_update mm 0 0xcafe 0xf00d s0") (auto simp: NPAGES_def)
  have inv2: "pt_inv mm {0} s2" "mapping s2 0 0xcafe = Some 0xf00d"
    using update_spec [OF inv0(1) _ s2] by (simp_all add: NO_MAPPING_def)
  obtain s4 where s4: "page_table_update mm 0 0xcafe NO_MAPPING s2 = Inr s4"
    using update_outcome [OF inv2(1), where pt = 0 and vpn = "0xcafe" and ppn = NO_MAPPING]
    by (cases "page_table_update mm 0 0xcafe NO_MAPPING s2") auto
  have inv4: "pt_inv mm {0} s4" "mapping s4 0 0xcafe = None"
    using update_spec [OF inv2(1) _ s4] by simp_all
  show ?thesis
    using query_spec [OF inv0(1), of 0] query_spec [OF inv2(1), of 0] query_spec [OF inv4(1), of 0]
    by (simp add: os_main_def assert_query_def s0 s2 s4 inv0 inv2 inv4)
qed

theorem os_main_succeeds_witness: "os_main mmap_low = Inr 0"
  by (rule os_main_succeeds [OF mmap_low_contract]) (simp add: mmap_low_def)

end
