(* ===== verification/Byte_Streams.thy ===== *)
theory Byte_Streams
  imports Prelude
begin

text \<open>
  What the two programs of \<^verbatim>\<open>src/hw5_os\<close> use of the C library and the kernel: byte order
  conversion, \<^verbatim>\<open>read\<close> from a socket or file and \<^verbatim>\<open>write\<close> to a socket.

  A source holds the bytes that are still to come, in order.  How many of them each call
  of \<^verbatim>\<open>read\<close> delivers is decided by an arbitrary list of chunk sizes; at least one byte
  comes while there is one.  After the last byte \<^verbatim>\<open>read\<close> returns 0 (end of file, or the peer
  closed the connection) or -1 (an error, such as a connection reset).  A sink records the
  bytes it took; an arbitrary list says for each \<^verbatim>\<open>write\<close> whether it fails or how many bytes
  it takes, and once the list is used up every write takes everything.  A write that fails with
  \<^verbatim>\<open>EPIPE\<close>, because the peer is gone, also raises \<^verbatim>\<open>SIGPIPE\<close>.
\<close>

section \<open>Byte order\<close>

definition byte_of :: "nat \<Rightarrow> u32 \<Rightarrow> u8" where
  "byte_of k w = ucast (drop_bit (8 * k) w)"

text \<open>The four bytes of a 32-bit integer in memory, on a little-endian host.\<close>

definition le_store :: "u32 \<Rightarrow> u8 list" where
  "le_store w = [byte_of 0 w, byte_of 1 w, byte_of 2 w, byte_of 3 w]"

fun le_load :: "u8 list \<Rightarrow> u32" where
  "le_load [] = 0"
| "le_load (b # bs) = ucast b OR push_bit 8 (le_load bs)"

definition be_bytes :: "u32 \<Rightarrow> u8 list" where
  "be_bytes w = rev (le_store w)"

definition htonl :: "u32 \<Rightarrow> u32" where
  "htonl w = le_load (rev (le_store w))"

definition ntohl :: "u32 \<Rightarrow> u32" where
  "ntohl w = le_load (rev (le_store w))"

lemma bit_byte_of: "bit (byte_of k w) n \<longleftrightarrow> n < 8 \<and> bit w (8 * k + n)"
  by (auto simp: byte_of_def bit_simps)

lemma le_load_store [simp]: "le_load (le_store w) = w"
proof (rule bit_eqI)
  fix n assume "possible_bit TYPE(u32) n"
  then have "n < 32" by simp
  then consider "n < 8" | "8 \<le> n" "n < 16" | "16 \<le> n" "n < 24" | "24 \<le> n" "n < 32" by linarith
  then show "bit (le_load (le_store w)) n = bit w n"
    by cases (auto simp: le_store_def bit_simps bit_byte_of)
qed

lemma le_store_load [simp]: "le_store (le_load [a, b, c, d]) = [a, b, c, d]"
proof -
  have "byte_of k (le_load [a, b, c, d]) = [a, b, c, d] ! k" if "k \<in> {0, 1, 2, 3}" for k
    by (rule bit_eqI) (use that in \<open>auto simp: bit_byte_of bit_simps dest: bit_imp_le_length\<close>)
  then show ?thesis by (simp add: le_store_def)
qed

lemma be_bytes_simps [simp]: "length (be_bytes w) = 4" "length (le_store w) = 4"
  by (simp_all add: be_bytes_def le_store_def)

lemma le_store_load_rev [simp]: "le_store (le_load (rev (le_store w))) = rev (le_store w)"
proof -
  have r: "rev (le_store w) = [byte_of 3 w, byte_of 2 w, byte_of 1 w, byte_of 0 w]"
    by (simp add: le_store_def)
  show ?thesis unfolding r by (rule le_store_load)
qed

lemma le_store_htonl [simp]: "le_store (htonl w) = be_bytes w"
  by (simp only: htonl_def be_bytes_def le_store_load_rev)

lemma ntohl_load_be [simp]: "ntohl (le_load (be_bytes w)) = w"
  by (simp only: ntohl_def be_bytes_def le_store_load_rev rev_rev_ident le_load_store)

section \<open>Sources and sinks\<close>

record source =
  src_bytes :: "u8 list"       \<comment> \<open>the bytes still to be delivered\<close>
  src_chunks :: "nat list"     \<comment> \<open>how many bytes the next calls of \<open>read\<close> deliver\<close>
  src_error :: bool            \<comment> \<open>after the last byte: an error instead of end of file\<close>

definition chunk :: "source \<Rightarrow> nat \<Rightarrow> nat" where
  "chunk c n =
     min n (min (length (src_bytes c))
       (case src_chunks c of [] \<Rightarrow> length (src_bytes c) | k # _ \<Rightarrow> max 1 k))"

text \<open>\<open>sys_read c n\<close> is \<^verbatim>\<open>read(fd, buf, n)\<close>: its result, the bytes stored at \<open>buf\<close>, the new source.\<close>

definition src_end :: "source \<Rightarrow> int" where
  "src_end c = (if src_error c then -1 else 0)"

definition sys_read :: "source \<Rightarrow> nat \<Rightarrow> int \<times> u8 list \<times> source" where
  "sys_read c n =
     (if src_bytes c = [] then (src_end c, [], c)
      else let k = chunk c n
           in (int k, take k (src_bytes c),
               c\<lparr>src_bytes := drop k (src_bytes c), src_chunks := tl (src_chunks c)\<rparr>))"

record sink =
  snk_sent :: "u8 list"              \<comment> \<open>the bytes taken so far\<close>
  snk_results :: "nat option list"   \<comment> \<open>\<open>None\<close>: the write fails; \<open>Some k\<close>: it takes at most \<open>k\<close> bytes\<close>
  snk_epipe :: bool                  \<comment> \<open>a failing write fails with \<open>EPIPE\<close>\<close>
  snk_sigpipe :: bool                \<comment> \<open>the last write raised \<open>SIGPIPE\<close>\<close>

definition sys_write :: "sink \<Rightarrow> u8 list \<Rightarrow> int \<times> sink" where
  "sys_write c bs =
     (case snk_results c of
        [] \<Rightarrow> (int (length bs), c\<lparr>snk_sent := snk_sent c @ bs, snk_sigpipe := False\<rparr>)
      | None # rs \<Rightarrow> (-1, c\<lparr>snk_results := rs, snk_sigpipe := snk_epipe c\<rparr>)
      | Some k # rs \<Rightarrow>
          (int (min k (length bs)),
           c\<lparr>snk_sent := snk_sent c @ take k bs, snk_results := rs, snk_sigpipe := False\<rparr>))"

section \<open>The interfaces of the loops that read and write\<close>

text \<open>
  The loops of both programs rely on this much of \<^verbatim>\<open>read\<close>: it delivers a non-empty prefix of
  the pending bytes, never more than asked for, and reports the end only when nothing is
  pending.
\<close>

locale byte_source =
  fixes rd :: "'c \<Rightarrow> nat \<Rightarrow> int \<times> u8 list \<times> 'c"
    and pend :: "'c \<Rightarrow> u8 list"
    and ended :: "'c \<Rightarrow> int"
  assumes rd_end: "pend c = [] \<Longrightarrow> rd c n = (ended c, [], c)"
    and ended_le: "ended c \<le> 0"
    and rd_data: "pend c \<noteq> [] \<Longrightarrow> 0 < n \<Longrightarrow>
      \<exists>k d. 0 < k \<and> k \<le> n \<and> k \<le> length (pend c) \<and> rd c n = (int k, take k (pend c), d) \<and>
        pend d = drop k (pend c) \<and> ended d = ended c"
begin

lemma rd_cases:
  assumes "0 < n"
  obtains "pend c = []" "rd c n = (ended c, [], c)" "ended c \<le> 0"
    | k d where "0 < k" "k \<le> n" "k \<le> length (pend c)"
      "rd c n = (int k, take k (pend c), d)" "pend d = drop k (pend c)" "ended d = ended c"
  using rd_end ended_le rd_data [OF _ assms] by (cases "pend c = []") blast+

lemma rd_positive:
  assumes "rd c n = (r, bs, d)" "0 < n" "0 < r"
  shows "length (pend d) < length (pend c)" "length bs = nat r" "nat r \<le> n"
    "pend c = bs @ pend d"
  using assms(2)
  by (rule rd_cases [where c = c]; use assms in simp)+

end

locale byte_sink =
  fixes wr :: "'c \<Rightarrow> u8 list \<Rightarrow> int \<times> 'c"
    and sent :: "'c \<Rightarrow> u8 list"
    and patience :: "'c \<Rightarrow> nat"
  assumes wr_taken: "wr c bs = (r, d) \<Longrightarrow> 0 \<le> r \<Longrightarrow>
      nat r \<le> length bs \<and> sent d = sent c @ take (nat r) bs"
    and wr_failed: "wr c bs = (r, d) \<Longrightarrow> r < 0 \<Longrightarrow> sent d = sent c"
    and wr_progress: "wr c bs = (r, d) \<Longrightarrow> bs \<noteq> [] \<Longrightarrow> patience d < patience c \<or> r = int (length bs)"
begin

lemma wr_prefix: "wr c bs = (r, d) \<Longrightarrow> \<exists>k. sent d = sent c @ take k bs"
  using wr_taken wr_failed by (cases "0 \<le> r") (auto intro: exI [of _ 0])

end

interpretation rs: byte_source sys_read src_bytes src_end
proof
  fix c :: source and n :: nat assume "src_bytes c \<noteq> []" "0 < n"
  then have "0 < chunk c n" "chunk c n \<le> n" "chunk c n \<le> length (src_bytes c)"
    by (auto simp: chunk_def split: list.split)
  then show "\<exists>k d. 0 < k \<and> k \<le> n \<and> k \<le> length (src_bytes c) \<and>
      sys_read c n = (int k, take k (src_bytes c), d) \<and>
      src_bytes d = drop k (src_bytes c) \<and> src_end d = src_end c"
    using \<open>src_bytes c \<noteq> []\<close> by (auto simp: sys_read_def Let_def src_end_def)
qed (auto simp: sys_read_def src_end_def)

interpretation ws: byte_sink sys_write snk_sent "\<lambda>c. length (snk_results c)"
  by unfold_locales (auto simp: sys_write_def min_def split: list.splits option.splits if_splits)

end
