(* ===== verification/Pcc_Server.thy ===== *)
theory Pcc_Server
  imports Byte_Streams
begin

text \<open>
  The printable-characters-counting server of \<^verbatim>\<open>src/hw5_os/pcc_server.c\<close>: its counters, the
  three transfers with a client.  Messages on stdout and stderr are not modelled, except
  the final counts.
\<close>

section \<open>Global state\<close>

definition MIN_PRINTABLE_CHAR :: u8 where
  "MIN_PRINTABLE_CHAR = 32"

definition MAX_PRINTABLE_CHAR :: u8 where
  "MAX_PRINTABLE_CHAR = 126"

definition PRINABLE_CHARS_AMOUNT :: nat where
  "PRINABLE_CHARS_AMOUNT = unat MAX_PRINTABLE_CHAR - unat MIN_PRINTABLE_CHAR + 1"

definition BUFFER_SZIE :: nat where
  "BUFFER_SZIE = 1024"

record server =
  pcc_total :: "u32 list"
  pcc_client :: "u32 list"
  recieve_buff :: "u8 list"
  g_server_is_running :: bool
  g_server_is_processing :: bool
  sigint_caught :: bool            \<comment> \<open>the handler for SIGINT is installed\<close>

definition server_init :: server where
  "server_init =
     \<lparr>pcc_total = replicate PRINABLE_CHARS_AMOUNT 0,
      pcc_client = replicate PRINABLE_CHARS_AMOUNT 0,
      recieve_buff = replicate BUFFER_SZIE 0,
      g_server_is_running = False, g_server_is_processing = False, sigint_caught = False\<rparr>"

section \<open>Counting\<close>

definition is_printable :: "u8 \<Rightarrow> bool" where
  "is_printable c \<longleftrightarrow> c \<ge> MIN_PRINTABLE_CHAR \<and> c \<le> MAX_PRINTABLE_CHAR"

text \<open>One turn of the loop of \<^verbatim>\<open>update_pcc_client\<close>, on the counters and \<open>printable_counter\<close>.\<close>

definition count_byte :: "u8 \<Rightarrow> u32 list \<times> u32 \<Rightarrow> u32 list \<times> u32" where
  "count_byte curr_char st =
     (case st of (client, printable_counter) \<Rightarrow>
        if is_printable curr_char then
          let i = unat (curr_char - MIN_PRINTABLE_CHAR)
          in (client[i := client ! i + 1], printable_counter + 1)
        else (client, printable_counter))"

definition update_pcc_client :: "nat \<Rightarrow> server \<Rightarrow> u32 \<times> server" where
  "update_pcc_client bytes_num s =
     (let (client, printable_counter) =
            fold (\<lambda>i. count_byte (recieve_buff s ! i)) [0..<bytes_num] (pcc_client s, 0)
      in (printable_counter, s\<lparr>pcc_client := client\<rparr>))"

definition update_pcc_total :: "server \<Rightarrow> server" where
  "update_pcc_total s =
     s\<lparr>pcc_total := fold (\<lambda>i total. total[i := total ! i + pcc_client s ! i])
                        [0..<PRINABLE_CHARS_AMOUNT] (pcc_total s)\<rparr>"

definition reset_pcc_client :: "server \<Rightarrow> server" where
  "reset_pcc_client s =
     s\<lparr>pcc_client := fold (\<lambda>i client. client[i := 0]) [0..<PRINABLE_CHARS_AMOUNT] (pcc_client s)\<rparr>"

section \<open>Transfers\<close>

text \<open>\<open>overlay buf off bs\<close>: the buffer after \<open>bs\<close> was stored at offset \<open>off\<close>.\<close>

definition overlay :: "u8 list \<Rightarrow> nat \<Rightarrow> u8 list \<Rightarrow> u8 list" where
  "overlay buf off bs = take off buf @ bs @ drop (off + length bs) buf"

text \<open>
  The do-while loop of \<^verbatim>\<open>read_stream_size_from_client\<close> on the four bytes of
  \<^verbatim>\<open>stream_byte_size\<close>.  \<^const>\<open>None\<close> is \<^verbatim>\<open>*error_status = True\<close>.
\<close>

function read_size_loop :: "source \<Rightarrow> u8 list \<Rightarrow> u32 \<Rightarrow> u8 list option \<times> source" where
  "read_size_loop conn stream_size_ptr total_bytes_read =
     (let (bytes_read, bs, conn') = sys_read conn (4 - unat total_bytes_read)
      in if bytes_read \<le> 0 then (None, conn')
         else
           let mem = overlay stream_size_ptr (unat total_bytes_read) bs;
               total = total_bytes_read + of_int bytes_read
           in if total < 4 then read_size_loop conn' mem total else (Some mem, conn'))"
  by pat_completeness auto
termination
  by (relation "measure (\<lambda>(conn, mem, total). length (src_bytes conn))")
    (auto simp: sys_read_def src_end_def Let_def split: if_splits)

definition read_stream_size_from_client :: "source \<Rightarrow> u32 option \<times> source" where
  "read_stream_size_from_client conn =
     (case read_size_loop conn (replicate 4 0) 0 of
        (None, conn') \<Rightarrow> (None, conn')
      | (Some mem, conn') \<Rightarrow> (Some (ntohl (le_load mem)), conn'))"

text \<open>
  The loop of \<^verbatim>\<open>read_stream_from_client\<close>: each \<^verbatim>\<open>read\<close> may fill the whole buffer, however few
  bytes of the stream are still missing.
\<close>

function read_stream_loop ::
  "u32 \<Rightarrow> source \<Rightarrow> server \<Rightarrow> u32 \<Rightarrow> u32 \<Rightarrow> u32 option \<times> source \<times> server" where
  "read_stream_loop stream_byte_size conn s total_bytes_read printable_counter =
     (if total_bytes_read < stream_byte_size then
        let (bytes_read, bs, conn') = sys_read conn BUFFER_SZIE
        in if bytes_read = 0 then (None, conn', s)
           else if bytes_read < 0 then (None, conn', s)
           else
             let s1 = s\<lparr>recieve_buff := overlay (recieve_buff s) 0 bs\<rparr>;
                 total = total_bytes_read + of_int bytes_read;
                 (n, s2) = update_pcc_client (nat bytes_read) s1
             in read_stream_loop stream_byte_size conn' s2 total (printable_counter + n)
      else (Some printable_counter, conn, s))"
  by pat_completeness auto
termination
  by (relation "measure (\<lambda>(size, conn, s, total, n). length (src_bytes conn))")
    (auto simp: sys_read_def src_end_def Let_def BUFFER_SZIE_def split: if_splits)

definition read_stream_from_client ::
  "u32 \<Rightarrow> source \<Rightarrow> server \<Rightarrow> u32 option \<times> source \<times> server" where
  "read_stream_from_client stream_byte_size conn s = read_stream_loop stream_byte_size conn s 0 0"

text \<open>The do-while loop of \<^verbatim>\<open>send_printable_counter_to_client\<close>; the result is \<^verbatim>\<open>False\<close> on error.\<close>

function send_loop :: "sink \<Rightarrow> u8 list \<Rightarrow> nat \<Rightarrow> bool \<times> sink" where
  "send_loop conn write_data total_bytes_written =
     (let (bytes_written, conn') =
            sys_write conn (take (4 - total_bytes_written) (drop total_bytes_written write_data))
      in if bytes_written \<le> 0 then (False, conn')
         else
           let total = total_bytes_written + nat bytes_written
           in if total < 4 then send_loop conn' write_data total else (True, conn'))"
  by pat_completeness auto
termination
  by (relation "measures [\<lambda>(conn, d, total). length (snk_results conn), \<lambda>(conn, d, total). 4 - total]")
    (auto simp: sys_write_def Let_def split: list.splits option.splits if_splits)

definition send_printable_counter_to_client :: "sink \<Rightarrow> u8 list \<Rightarrow> bool \<times> sink" where
  "send_printable_counter_to_client conn write_data = send_loop conn write_data 0"

declare read_size_loop.simps [simp del] read_stream_loop.simps [simp del] send_loop.simps [simp del]

section \<open>What counting computes\<close>

definition printables :: "u8 list \<Rightarrow> nat" where
  "printables bs = length (filter is_printable bs)"

text \<open>The number of occurrences of the \<open>i\<close>-th printable character, for each \<open>i\<close>.\<close>

definition hist :: "u8 list \<Rightarrow> nat list" where
  "hist bs = map (\<lambda>i. count_list bs (MIN_PRINTABLE_CHAR + of_nat i)) [0..<PRINABLE_CHARS_AMOUNT]"

definition add_counts :: "u32 list \<Rightarrow> nat list \<Rightarrow> u32 list" where
  "add_counts xs ns = map2 (\<lambda>x n. x + of_nat n) xs ns"

lemma amount_95 [simp]: "PRINABLE_CHARS_AMOUNT = 95"
  by (simp add: PRINABLE_CHARS_AMOUNT_def MIN_PRINTABLE_CHAR_def MAX_PRINTABLE_CHAR_def)

lemma length_hist [simp]: "length (hist bs) = 95"
  by (simp add: hist_def)

lemma length_add_counts [simp]: "length (add_counts xs ns) = min (length xs) (length ns)"
  by (simp add: add_counts_def)

lemma nth_hist [simp]: "i < 95 \<Longrightarrow> hist bs ! i = count_list bs (32 + of_nat i)"
  by (simp add: hist_def MIN_PRINTABLE_CHAR_def)

lemma nth_add_counts [simp]:
  "i < length xs \<Longrightarrow> i < length ns \<Longrightarrow> add_counts xs ns ! i = xs ! i + of_nat (ns ! i)"
  by (simp add: add_counts_def)

lemma printables_simps [simp]:
  "printables [] = 0"
  "printables (c # bs) = (if is_printable c then 1 else 0) + printables bs"
  "printables (bs @ cs) = printables bs + printables cs"
  by (simp_all add: printables_def)

lemma is_printable_unat: "is_printable c \<longleftrightarrow> 32 \<le> unat c \<and> unat c \<le> 126"
  by (simp add: is_printable_def MIN_PRINTABLE_CHAR_def MAX_PRINTABLE_CHAR_def word_le_nat_alt)

lemma printable_index:
  assumes "is_printable c"
  shows "unat (c - MIN_PRINTABLE_CHAR) = unat c - 32" "unat c - 32 < 95"
  using assms
  by (auto simp: is_printable_unat MIN_PRINTABLE_CHAR_def unat_sub word_le_nat_alt)

lemma char_at_index: "i < 95 \<Longrightarrow> (c :: u8) = 32 + of_nat i \<longleftrightarrow> is_printable c \<and> i = unat c - 32"
proof -
  assume i: "i < 95"
  then have "unat (32 + of_nat i :: u8) = 32 + i"
    by (simp add: unat_word_ariths unsigned_of_nat take_bit_nat_eq_self)
  then show ?thesis using i by (auto simp: is_printable_unat word_unat_eq_iff)
qed

lemma count_byte_spec:
  assumes "length client = 95"
  shows "count_byte c (client, n) = (add_counts client (hist [c]), n + of_nat (printables [c]))"
proof (cases "is_printable c")
  case True
  have "client[unat c - 32 := client ! (unat c - 32) + 1] = add_counts client (hist [c])"
    using assms True printable_index [OF True]
    by (intro nth_equalityI) (auto simp: nth_list_update char_at_index)
  then show ?thesis using True printable_index [OF True] by (simp add: count_byte_def Let_def)
next
  case False
  have "client = add_counts client (hist [c])"
    using assms False by (intro nth_equalityI) (auto simp: char_at_index)
  then show ?thesis using False by (simp add: count_byte_def)
qed

lemma hist_append: "i < 95 \<Longrightarrow> hist (bs @ cs) ! i = hist bs ! i + hist cs ! i"
  by simp

lemma add_counts_append:
  "length xs = 95 \<Longrightarrow> add_counts (add_counts xs (hist bs)) (hist cs) = add_counts xs (hist (bs @ cs))"
  by (intro nth_equalityI) (auto simp: add.assoc)

lemma add_counts_Nil: "length xs = 95 \<Longrightarrow> add_counts xs (hist []) = xs"
  by (intro nth_equalityI) auto

lemma fold_count_byte:
  assumes "length client = 95"
  shows "fold count_byte bs (client, n) = (add_counts client (hist bs), n + of_nat (printables bs))"
  using assms
proof (induction bs arbitrary: client n)
  case (Cons c bs)
  then show ?case
    using add_counts_append [of client "[c]" bs] by (simp add: count_byte_spec add.assoc)
qed (simp add: add_counts_Nil)

lemma fold_upt_nth: "n \<le> length xs \<Longrightarrow> fold (\<lambda>i. f (xs ! i)) [0..<n] = fold f (take n xs)"
proof (induction n)
  case (Suc n)
  then show ?case by (simp add: take_Suc_conv_app_nth fold_append)
qed simp

lemma update_pcc_client_spec:
  assumes "length (pcc_client s) = 95" "n \<le> length (recieve_buff s)"
  shows "update_pcc_client n s =
    (of_nat (printables (take n (recieve_buff s))),
     s\<lparr>pcc_client := add_counts (pcc_client s) (hist (take n (recieve_buff s)))\<rparr>)"
  by (simp add: update_pcc_client_def fold_upt_nth [OF assms(2)] fold_count_byte [OF assms(1)])

lemma fold_update_nth:
  "n \<le> length xs \<Longrightarrow>
   fold (\<lambda>i ys. ys[i := h i (ys ! i)]) [0..<n] xs = map2 h [0..<n] (take n xs) @ drop n xs"
proof (induction n)
  case (Suc n)
  then have "drop n xs = xs ! n # drop (Suc n) xs" by (simp add: Cons_nth_drop_Suc)
  with Suc show ?case by (simp add: take_Suc_conv_app_nth list_update_append nth_append)
qed simp

lemma update_pcc_total_spec:
  assumes "length (pcc_total s) = 95" "length (pcc_client s) = 95"
  shows "update_pcc_total s = s\<lparr>pcc_total := map2 (+) (pcc_total s) (pcc_client s)\<rparr>"
proof -
  have "map2 (\<lambda>i x. x + pcc_client s ! i) [0..<95] (pcc_total s) = map2 (+) (pcc_total s) (pcc_client s)"
    using assms by (intro nth_equalityI) auto
  then show ?thesis
    using fold_update_nth [of 95 "pcc_total s" "\<lambda>i x. x + pcc_client s ! i"] assms(1)
    by (simp add: update_pcc_total_def)
qed

lemma reset_pcc_client_spec:
  assumes "length (pcc_client s) = 95"
  shows "reset_pcc_client s = s\<lparr>pcc_client := replicate 95 0\<rparr>"
proof -
  have "map2 (\<lambda>i x. 0 :: u32) [0..<95] (pcc_client s) = replicate 95 0"
    using assms by (intro nth_equalityI) auto
  then show ?thesis
    using fold_update_nth [of 95 "pcc_client s" "\<lambda>i x. 0"] assms
    by (simp add: reset_pcc_client_def)
qed

lemma add_counts_zero: "add_counts (replicate 95 0) (hist bs) = map of_nat (hist bs)"
  by (intro nth_equalityI) auto

lemma total_add_counts:
  "length ts = 95 \<Longrightarrow> map2 (+) ts (map of_nat (hist bs)) = add_counts ts (hist bs)"
  by (intro nth_equalityI) auto

section \<open>What the transfers do\<close>

lemma overlay_same: "length buf = n \<Longrightarrow> off + length bs \<le> n \<Longrightarrow> length (overlay buf off bs) = n"
  by (auto simp: overlay_def)

lemma take_overlay:
  "off + length bs \<le> length buf \<Longrightarrow> take (off + length bs) (overlay buf off bs) = take off buf @ bs"
  by (simp add: overlay_def)

text \<open>Reading the header: four bytes, however they are split, or an error if fewer arrive.\<close>

lemma read_size_loop_spec:
  assumes "length mem = 4" "unat nread < 4"
  shows "if 4 - unat nread \<le> length (src_bytes conn)
     then \<exists>d. read_size_loop conn mem nread =
            (Some (take (unat nread) mem @ take (4 - unat nread) (src_bytes conn)), d) \<and>
          src_bytes d = drop (4 - unat nread) (src_bytes conn) \<and> src_end d = src_end conn
     else fst (read_size_loop conn mem nread) = None"
  using assms
proof (induction "length (src_bytes conn)" arbitrary: conn mem nread rule: less_induct)
  case less
  let ?n = "4 - unat nread"
  have n: "0 < ?n" using less.prems by simp
  show ?case
  proof (cases rule: rs.rd_cases [OF n, of conn])
    case 1
    then show ?thesis using n by (subst (1 2) read_size_loop.simps) simp
  next
    case (2 k d)
    let ?bs = "take k (src_bytes conn)"
    let ?mem = "overlay mem (unat nread) ?bs"
    let ?nread = "nread + of_nat k"
    have len: "length ?bs = k" using 2(3) by simp
    have tot: "unat ?nread = unat nread + k"
      using 2(2) less.prems(2) by (simp add: unat_word_ariths unsigned_of_nat take_bit_nat_eq_self)
    have mem: "length ?mem = 4"
      by (rule overlay_same) (use less.prems len 2(2) in auto)
    have pre: "take (unat nread + k) ?mem = take (unat nread) mem @ ?bs"
      using take_overlay [of "unat nread" ?bs mem] less.prems len 2(2) by simp
    show ?thesis
    proof (cases "unat nread + k < 4")
      case True
      then have lt: "?nread < 4" using tot by (simp add: word_less_nat_alt)
      then have step: "read_size_loop conn mem nread = read_size_loop d ?mem ?nread"
        using 2 by (subst read_size_loop.simps) simp
      have "length (src_bytes d) < length (src_bytes conn)" using 2 by simp
      note IH = less.hyps [OF this mem, of ?nread, unfolded tot, OF True]
      have "take k xs @ take (4 - (unat nread + k)) (drop k xs) = take ?n xs" for xs :: "u8 list"
        using True by (simp flip: take_add)
      then have joined: "take (unat nread + k) ?mem @ take (4 - (unat nread + k)) (src_bytes d) =
          take (unat nread) mem @ take ?n (src_bytes conn)"
        by (simp add: pre 2(5))
      have rest: "drop (4 - (unat nread + k)) (src_bytes d) = drop ?n (src_bytes conn)"
        using True by (simp add: 2(5))
      show ?thesis
      proof (cases "?n \<le> length (src_bytes conn)")
        case True
        then have "4 - (unat nread + k) \<le> length (src_bytes d)" by (simp add: 2(5))
        with IH True show ?thesis unfolding step joined rest 2(6) by (simp only: if_True)
      next
        case False
        then have "\<not> 4 - (unat nread + k) \<le> length (src_bytes d)"
          using \<open>unat nread + k < 4\<close> by (simp add: 2(5))
        with IH False show ?thesis unfolding step by (simp only: if_False)
      qed
    next
      case False
      then have k: "k = ?n" using 2(2) less.prems by simp
      have "\<not> ?nread < 4" using False tot by (simp add: word_less_nat_alt)
      then have "read_size_loop conn mem nread = (Some ?mem, d)"
        using 2 by (subst read_size_loop.simps) simp
      moreover have "?mem = take (unat nread) mem @ ?bs" using pre mem False by simp
      ultimately show ?thesis using 2 k by simp
    qed
  qed
qed

text \<open>The sizes of the arrays; every operation keeps them.\<close>

definition server_ok :: "server \<Rightarrow> bool" where
  "server_ok s \<longleftrightarrow> length (pcc_total s) = 95 \<and> length (pcc_client s) = 95 \<and> length (recieve_buff s) = 1024"

text \<open>What receiving a stream may touch: the per-client counters and the buffer.\<close>

definition receive_frame :: "server \<Rightarrow> server \<Rightarrow> bool" where
  "receive_frame s t \<longleftrightarrow> server_ok t \<and> pcc_total t = pcc_total s \<and>
     g_server_is_running t = g_server_is_running s \<and>
     g_server_is_processing t = g_server_is_processing s \<and> sigint_caught t = sigint_caught s"

lemma receive_frame_refl: "server_ok s \<Longrightarrow> receive_frame s s"
  by (simp add: receive_frame_def)

lemma receive_ok: "receive_frame s t \<Longrightarrow> server_ok t"
  by (simp add: receive_frame_def)

lemma receive_frame_trans: "receive_frame s t \<Longrightarrow> receive_frame t u \<Longrightarrow> receive_frame s u"
  by (simp add: receive_frame_def)

text \<open>One turn of the loop of \<^verbatim>\<open>read_stream_from_client\<close>.\<close>

lemma read_stream_end:
  assumes "t < sz" "src_bytes conn = []"
  shows "read_stream_loop sz conn s t p = (None, conn, s)"
  using assms rs.rd_end [OF assms(2)] rs.ended_le [of conn]
  by (subst read_stream_loop.simps) (auto simp: src_end_def)

lemma read_stream_step:
  assumes "server_ok s" "t < sz" "src_bytes conn \<noteq> []"
  obtains k d u where "0 < k" "k \<le> 1024" "k \<le> length (src_bytes conn)"
    "src_bytes d = drop k (src_bytes conn)" "src_end d = src_end conn"
    "receive_frame s u"
    "pcc_client u = add_counts (pcc_client s) (hist (take k (src_bytes conn)))"
    "read_stream_loop sz conn s t p =
       read_stream_loop sz d u (t + of_nat k) (p + of_nat (printables (take k (src_bytes conn))))"
proof -
  have "0 < BUFFER_SZIE" by (simp add: BUFFER_SZIE_def)
  then show ?thesis
  proof (cases rule: rs.rd_cases [of BUFFER_SZIE conn])
    case 1
    with assms(3) show ?thesis by simp
  next
    case (2 k d)
    let ?bs = "take k (src_bytes conn)"
    let ?s1 = "s\<lparr>recieve_buff := overlay (recieve_buff s) 0 ?bs\<rparr>"
    let ?u = "?s1\<lparr>pcc_client := add_counts (pcc_client s) (hist ?bs)\<rparr>"
    have k: "k \<le> 1024" using 2(2) by (simp add: BUFFER_SZIE_def)
    have len: "length ?bs = k" using 2(3) by simp
    have ok: "length (recieve_buff ?s1) = 1024" "length (pcc_client ?s1) = 95"
      using assms(1) k len overlay_same [of "recieve_buff s" 1024 0 ?bs] by (simp_all add: server_ok_def)
    have "take k (recieve_buff ?s1) = ?bs" using len by (simp add: overlay_def)
    then have upd: "update_pcc_client k ?s1 = (of_nat (printables ?bs), ?u)"
      using update_pcc_client_spec [OF ok(2), of k] ok(1) k by simp
    have frame: "receive_frame s ?u"
      using assms(1) ok(1) by (auto simp: receive_frame_def server_ok_def)
    have step: "read_stream_loop sz conn s t p =
        read_stream_loop sz d ?u (t + of_nat k) (p + of_nat (printables ?bs))"
      using assms(2) 2(1,4) upd by (subst read_stream_loop.simps) simp
    show ?thesis by (rule that [OF 2(1) k 2(3,5,6) frame _ step]) simp
  qed
qed

lemma read_stream_enough:
  assumes "server_ok s" "unat sz \<le> unat t + length (src_bytes conn)"
    "min (unat t + length (src_bytes conn)) (unat sz + 1023) < 2 ^ 32"
  shows "\<exists>c d u. read_stream_loop sz conn s t p =
      (Some (p + of_nat (printables (take c (src_bytes conn)))), d, u) \<and>
    src_bytes d = drop c (src_bytes conn) \<and> src_end d = src_end conn \<and> c \<le> length (src_bytes conn) \<and>
    unat sz \<le> unat t + c \<and> unat t + c \<le> max (unat t) (unat sz + 1023) \<and>
    receive_frame s u \<and> pcc_client u = add_counts (pcc_client s) (hist (take c (src_bytes conn)))"
  using assms
proof (induction "length (src_bytes conn)" arbitrary: conn s t p rule: less_induct)
  case less
  show ?case
  proof (cases "t < sz")
    case False
    then have "unat sz \<le> unat t" by (simp add: word_le_nat_alt not_less)
    with False less.prems(1) show ?thesis
      by (intro exI [of _ 0] exI [of _ conn] exI [of _ s], subst read_stream_loop.simps)
        (auto simp: receive_frame_refl add_counts_Nil server_ok_def)
  next
    case True
    then have lt: "unat t < unat sz" by (simp add: word_less_nat_alt)
    with less.prems(2) have "src_bytes conn \<noteq> []" by auto
    with less.prems(1) True show ?thesis
    proof (cases rule: read_stream_step [where s = s and t = t and sz = sz and conn = conn and p = p])
      case (1 k d u)
      have "unat t + k < 2 ^ 32" using less.prems(3) lt 1(2,3) by auto
      then have tk: "unat (t + of_nat k) = unat t + k"
        by (simp add: unat_word_ariths unsigned_of_nat take_bit_nat_eq_self)
      have shorter: "length (src_bytes d) < length (src_bytes conn)" using 1 by simp
      from less.hyps [OF shorter receive_ok [OF 1(6)], of "t + of_nat k"
          "p + of_nat (printables (take k (src_bytes conn)))"]
      obtain c e w where IH:
        "read_stream_loop sz d u (t + of_nat k) (p + of_nat (printables (take k (src_bytes conn)))) =
          (Some (p + of_nat (printables (take k (src_bytes conn))) + of_nat (printables (take c (src_bytes d)))), e, w)"
        "src_bytes e = drop c (src_bytes d)" "src_end e = src_end d" "c \<le> length (src_bytes d)"
        "unat sz \<le> unat t + k + c" "unat t + k + c \<le> max (unat t + k) (unat sz + 1023)"
        "receive_frame u w" "pcc_client w = add_counts (pcc_client u) (hist (take c (src_bytes d)))"
        using less.prems(2,3) 1(3,4) tk by auto
      have cat: "take (c + k) (src_bytes conn) = take k (src_bytes conn) @ take c (drop k (src_bytes conn))"
        by (simp add: take_add add.commute [of c])
      show ?thesis
        by (rule exI [of _ "c + k"], rule exI [of _ e], rule exI [of _ w])
          (use IH 1 less.prems(1) lt receive_frame_trans [OF 1(6) IH(7)] in
            \<open>auto simp: cat add_counts_append server_ok_def add.assoc add.commute\<close>)
    qed
  qed
qed

lemma read_stream_short:
  assumes "server_ok s" "unat t + length (src_bytes conn) < unat sz"
  shows "\<exists>d u. read_stream_loop sz conn s t p = (None, d, u) \<and> receive_frame s u"
  using assms
proof (induction "length (src_bytes conn)" arbitrary: conn s t p rule: less_induct)
  case less
  then have True: "t < sz" by (simp add: word_less_nat_alt)
  show ?case
  proof (cases "src_bytes conn = []")
    case True
    with \<open>t < sz\<close> less.prems(1) show ?thesis
      using read_stream_end receive_frame_refl by blast
  next
    case False
    with less.prems(1) \<open>t < sz\<close> show ?thesis
    proof (cases rule: read_stream_step [where s = s and t = t and sz = sz and conn = conn and p = p])
      case (1 k d u)
      have "unat t + k < 2 ^ 32" using less.prems(2) 1(3) unat_lt_32 [of sz] by simp
      then have tk: "unat (t + of_nat k) = unat t + k"
        by (simp add: unat_word_ariths unsigned_of_nat take_bit_nat_eq_self)
      have shorter: "length (src_bytes d) < length (src_bytes conn)" using 1 by simp
      have "unat (t + of_nat k) + length (src_bytes d) < unat sz"
        using less.prems(2) 1(3,4) tk by simp
      from less.hyps [OF shorter receive_ok [OF 1(6)] this]
      show ?thesis using 1(8) receive_frame_trans [OF 1(6)] by metis
    qed
  qed
qed

text \<open>Whatever happens, the counters reflect exactly the bytes that were consumed.\<close>

lemma read_stream_result:
  assumes "server_ok s" "read_stream_loop sz conn s t p = (res, d, u)"
  shows "receive_frame s u \<and>
    (\<exists>c \<le> length (src_bytes conn). src_bytes d = drop c (src_bytes conn) \<and>
       pcc_client u = add_counts (pcc_client s) (hist (take c (src_bytes conn))) \<and>
       (res = None \<or> res = Some (p + of_nat (printables (take c (src_bytes conn))))))"
  using assms
proof (induction "length (src_bytes conn)" arbitrary: conn s t p rule: less_induct)
  case less
  have stop: ?case if "u = s" "d = conn" "res = None \<or> res = Some p"
    using that less.prems(1)
    by (intro conjI exI [of _ 0]) (auto simp: receive_frame_refl add_counts_Nil server_ok_def)
  show ?case
  proof (cases "t < sz")
    case False
    then have "read_stream_loop sz conn s t p = (Some p, conn, s)" by (subst read_stream_loop.simps) simp
    with less.prems(2) show ?thesis using stop by auto
  next
    case True
    show ?thesis
    proof (cases "src_bytes conn = []")
      case True
      then show ?thesis using read_stream_end [OF \<open>t < sz\<close> True] less.prems(2) stop by auto
    next
      case False
      with less.prems(1) \<open>t < sz\<close> show ?thesis
      proof (cases rule: read_stream_step [where s = s and t = t and sz = sz and conn = conn and p = p])
        case (1 k e v)
        have shorter: "length (src_bytes e) < length (src_bytes conn)" using 1 by simp
        obtain c where IH: "receive_frame v u" "c \<le> length (src_bytes e)" "src_bytes d = drop c (src_bytes e)"
          "pcc_client u = add_counts (pcc_client v) (hist (take c (src_bytes e)))"
          "res = None \<or> res = Some (p + of_nat (printables (take k (src_bytes conn))) +
             of_nat (printables (take c (src_bytes e))))"
          using less.hyps [OF shorter receive_ok [OF 1(6)]] less.prems(2) 1(8) by metis
        have cat: "take (c + k) (src_bytes conn) = take k (src_bytes conn) @ take c (drop k (src_bytes conn))"
          by (simp add: take_add add.commute [of c])
        show ?thesis
          by (rule conjI [OF receive_frame_trans [OF 1(6) IH(1)]], rule exI [of _ "c + k"])
            (use IH 1 less.prems(1) in \<open>auto simp: cat add_counts_append server_ok_def add.assoc\<close>)
      qed
    qed
  qed
qed

text \<open>The reply: all four bytes, or a failure after a proper prefix of them.\<close>

lemma send_loop_spec:
  assumes "length data = 4" "n < 4" "send_loop conn data n = (ok, d)"
  shows "if ok then snk_sent d = snk_sent conn @ drop n data
    else \<exists>k < 4 - n. snk_sent d = snk_sent conn @ take k (drop n data)"
  using assms
proof (induction "4 - n" arbitrary: conn n rule: less_induct)
  case less
  obtain r e where wr: "sys_write conn (take (4 - n) (drop n data)) = (r, e)" by force
  have bs: "take (4 - n) (drop n data) = drop n data" using less.prems(1) by simp
  note wr' = wr [unfolded bs]
  show ?case
  proof (cases "r \<le> 0")
    case True
    then have "snk_sent e = snk_sent conn"
      using ws.wr_failed [OF wr'] ws.wr_taken [OF wr'] by (cases "r = 0") auto
    moreover have "ok = False" "d = e"
      using less.prems(3) wr True by (subst (asm) send_loop.simps, simp)+
    ultimately show ?thesis using less.prems(2) by (auto intro!: exI [of _ 0])
  next
    case False
    then have e: "nat r \<le> 4 - n" "snk_sent e = snk_sent conn @ take (nat r) (drop n data)"
      using ws.wr_taken [OF wr'] less.prems(1) by auto
    show ?thesis
    proof (cases "n + nat r < 4")
      case True
      then have step: "send_loop e data (n + nat r) = (ok, d)"
        using less.prems(3) wr False by (subst (asm) send_loop.simps) simp
      have "4 - (n + nat r) < 4 - n" using False less.prems(2) by simp
      note IH = less.hyps [OF this less.prems(1) True step]
      show ?thesis
      proof (cases ok)
        case True
        then have "snk_sent d = snk_sent conn @ take (nat r) (drop n data) @ drop (nat r) (drop n data)"
          using IH e by (simp add: add.commute)
        then show ?thesis using True by (simp only: append_take_drop_id if_True)
      next
        case False
        then obtain k where k: "k < 4 - (n + nat r)"
            "snk_sent d = snk_sent e @ take k (drop (n + nat r) data)"
          using IH by auto
        then have "snk_sent d = snk_sent conn @ take (nat r + k) (drop n data)"
          by (simp add: e take_add [of "nat r" k] add.commute [of n])
        then show ?thesis using k(1) \<open>\<not> r \<le> 0\<close> False by (auto intro!: exI [of _ "nat r + k"])
      qed
    next
      case ge: False
      then have "ok \<and> d = e"
        using less.prems(3) wr False by (subst (asm) send_loop.simps) simp
      then show ?thesis using e ge less.prems by simp
    qed
  qed
qed

lemma send_loop_succeeds:
  assumes "length data = 4" "n < 4" "\<forall>r \<in> set (snk_results conn). \<exists>k > 0. r = Some k"
  shows "fst (send_loop conn data n)"
  using assms
proof (induction "4 - n" arbitrary: conn n rule: less_induct)
  case less
  show ?case
  proof (cases "snk_results conn")
    case Nil
    then show ?thesis using less.prems by (subst send_loop.simps) (simp add: sys_write_def Let_def nat_diff_distrib')
  next
    case (Cons x rs)
    then obtain k where k: "x = Some k" "0 < k" using less.prems(3) by auto
    let ?e = "conn\<lparr>snk_sent := snk_sent conn @ take k (drop n data), snk_results := rs, snk_sigpipe := False\<rparr>"
    have wr: "sys_write conn (drop n data) = (int (min k (4 - n)), ?e)"
      using Cons k less.prems by (simp add: sys_write_def)
    show ?thesis
    proof (cases "n + min k (4 - n) < 4")
      case True
      have "fst (send_loop ?e data (n + min k (4 - n)))"
        using less.hyps [OF _ less.prems(1) True, of ?e] less.prems Cons k(2) by simp
      then show ?thesis using wr True k less.prems by (subst send_loop.simps) (simp add: Let_def)
    next
      case False
      then show ?thesis using wr k less.prems
        by (subst send_loop.simps) (simp add: Let_def nat_diff_distrib')
    qed
  qed
qed

end
