(* ===== verification/Pcc_Machine.thy ===== *)
theory Pcc_Machine
  imports Pcc_Server
begin

text \<open>
  The server loop of \<^verbatim>\<open>main\<close> in \<^verbatim>\<open>src/hw5_os/pcc_server.c\<close> as a state machine: the program
  counter ranges over the statements of the loop, a step executes one of them, and \<^verbatim>\<open>SIGINT\<close>
  may arrive between any two, or in the middle of a blocked \<^verbatim>\<open>accept\<close> or \<^verbatim>\<open>read\<close>.

  The prescribed build of the program, \<^verbatim>\<open>gcc -std=c11 -D_POSIX_C_SOURCE=200809\<close>, gives
  \<^verbatim>\<open>signal\<close> its System V meaning: the handler is reset to the default when it is called, so a
  second \<^verbatim>\<open>SIGINT\<close> kills the process, and a call that the signal interrupts is not restarted but
  fails with \<^verbatim>\<open>EINTR\<close>.  \<^verbatim>\<open>SIGPIPE\<close> keeps its default action: a reply to a client that is gone
  kills the process.
\<close>

section \<open>The machine\<close>

record connection =
  con_in :: source
  con_out :: sink

datatype signal_no = SIGINT | SIGPIPE

datatype pc =
    Loop_head                          \<comment> \<open>\<open>while (g_server_is_running)\<close>\<close>
  | In_accept                          \<comment> \<open>blocked in \<open>accept\<close>\<close>
  | Accepted connection                \<comment> \<open>about to set the processing flag\<close>
  | Read_size connection
  | Reset_client connection u32
  | Read_stream connection u32
  | Send_counter connection u32
  | Update_total connection
  | Close_ok connection
  | Clear_processing
  | Close_err connection               \<comment> \<open>\<open>close(connection_fd); continue;\<close>\<close>
  | Print_total
  | Exited int "u32 list option"       \<comment> \<open>exit code and the counts printed, if any\<close>
  | Killed signal_no                   \<comment> \<open>by the default action of a signal\<close>

datatype event =
    Tau
  | Sigint                             \<comment> \<open>between two system calls\<close>
  | Sigint_in_call nat                 \<comment> \<open>in a blocked call; the number of bytes read before it\<close>
  | Accept connection
  | Accept_fails

definition EXIT_SUCCESS :: int where
  "EXIT_SUCCESS = 0"

definition EXIT_FAILURE :: int where
  "EXIT_FAILURE = 1"

text \<open>The body of the loop, one statement per step; \<^const>\<open>None\<close> where the machine must wait.\<close>

fun server_stmt :: "pc \<Rightarrow> server \<Rightarrow> (pc \<times> server) option" where
  "server_stmt Loop_head s =
     Some (if g_server_is_running s then In_accept else Print_total, s)"
| "server_stmt In_accept s = None"
| "server_stmt (Accepted c) s = Some (Read_size c, s\<lparr>g_server_is_processing := True\<rparr>)"
| "server_stmt (Read_size c) s =
     (case read_stream_size_from_client (con_in c) of
        (None, d) \<Rightarrow> Some (Close_err (c\<lparr>con_in := d\<rparr>), s)
      | (Some n, d) \<Rightarrow> Some (Reset_client (c\<lparr>con_in := d\<rparr>) n, s))"
| "server_stmt (Reset_client c n) s = Some (Read_stream c n, reset_pcc_client s)"
| "server_stmt (Read_stream c n) s =
     (case read_stream_from_client n (con_in c) s of
        (None, d, s') \<Rightarrow> Some (Close_err (c\<lparr>con_in := d\<rparr>), s')
      | (Some p, d, s') \<Rightarrow> Some (Send_counter (c\<lparr>con_in := d\<rparr>) (htonl p), s'))"
| "server_stmt (Send_counter c p) s =
     (case send_printable_counter_to_client (con_out c) (le_store p) of
        (ok, d) \<Rightarrow>
          Some (if ok then Update_total (c\<lparr>con_out := d\<rparr>)
                else if snk_sigpipe d then Killed SIGPIPE
                else Close_err (c\<lparr>con_out := d\<rparr>), s))"
| "server_stmt (Update_total c) s = Some (Close_ok c, update_pcc_total s)"
| "server_stmt (Close_ok c) s = Some (Clear_processing, s)"
| "server_stmt Clear_processing s = Some (Loop_head, s\<lparr>g_server_is_processing := False\<rparr>)"
| "server_stmt (Close_err c) s = Some (Loop_head, s)"
| "server_stmt Print_total s = Some (Exited EXIT_SUCCESS (Some (pcc_total s)), s)"
| "server_stmt (Exited code out) s = None"
| "server_stmt (Killed sig) s = None"

definition sig_int_handler :: "pc \<Rightarrow> server \<Rightarrow> pc \<times> server" where
  "sig_int_handler pc s =
     (if g_server_is_processing s then (pc, s\<lparr>g_server_is_running := False\<rparr>)
      else (Exited EXIT_SUCCESS (Some (pcc_total s)), s))"

text \<open>Delivery of \<^verbatim>\<open>SIGINT\<close>: the handler is called once, then the default action applies.\<close>

definition deliver_sigint :: "pc \<Rightarrow> server \<Rightarrow> pc \<times> server" where
  "deliver_sigint pc s =
     (if sigint_caught s then sig_int_handler pc (s\<lparr>sigint_caught := False\<rparr>) else (Killed SIGINT, s))"

text \<open>
  Where the statement goes on whose blocked system call fails with \<^verbatim>\<open>EINTR\<close>; \<^const>\<open>None\<close> when it
  does not block there.  A transfer whose \<^verbatim>\<open>read\<close> is interrupted after \<open>k\<close> bytes is one
  from a connection that delivers these and then fails.  The interruption of a blocked
  \<^verbatim>\<open>write\<close> of the reply is the signal followed by a write that fails.
\<close>

definition interrupt :: "nat \<Rightarrow> connection \<Rightarrow> connection" where
  "interrupt k c = c\<lparr>con_in := (con_in c)\<lparr>src_bytes := take k (src_bytes (con_in c)), src_error := True\<rparr>\<rparr>"

fun only_failure :: "(pc \<times> server) option \<Rightarrow> (pc \<times> server) option" where
  "only_failure (Some (Close_err c, s)) = Some (Close_err c, s)"
| "only_failure _ = None"

fun interrupted_call :: "nat \<Rightarrow> pc \<Rightarrow> server \<Rightarrow> (pc \<times> server) option" where
  "interrupted_call k In_accept s = Some (Exited EXIT_FAILURE None, s)"
| "interrupted_call k (Read_size c) s = only_failure (server_stmt (Read_size (interrupt k c)) s)"
| "interrupted_call k (Read_stream c n) s = only_failure (server_stmt (Read_stream (interrupt k c) n) s)"
| "interrupted_call k _ s = None"

fun is_exited :: "pc \<Rightarrow> bool" where
  "is_exited (Exited code out) = True"
| "is_exited (Killed sig) = True"
| "is_exited _ = False"

inductive srv_step :: "pc \<times> server \<Rightarrow> event \<Rightarrow> pc \<times> server \<Rightarrow> bool" where
  stmt: "server_stmt pc s = Some (pc', s') \<Longrightarrow> srv_step (pc, s) Tau (pc', s')"
| sigint: "\<not> is_exited pc \<Longrightarrow> deliver_sigint pc s = (pc', s') \<Longrightarrow> srv_step (pc, s) Sigint (pc', s')"
| sigint_in_call: "interrupted_call k pc s = Some (pc1, s1) \<Longrightarrow> deliver_sigint pc1 s1 = (pc', s') \<Longrightarrow>
    srv_step (pc, s) (Sigint_in_call k) (pc', s')"
| accept: "srv_step (In_accept, s) (Accept c) (Accepted c, s)"
| accept_fails: "srv_step (In_accept, s) Accept_fails (Exited EXIT_FAILURE None, s)"

inductive_cases srv_step_cases [consumes 1, case_names stmt sigint sigint_in_call accept accept_fails]:
  "srv_step (pc, s) ev (pc', s')"

inductive_simps srv_step_simps:
  "srv_step (pc, s) Tau x" "srv_step (pc, s) Sigint x" "srv_step (pc, s) (Sigint_in_call k) x"
  "srv_step (pc, s) (Accept c) x" "srv_step (pc, s) Accept_fails x"

text \<open>The state in which \<^verbatim>\<open>main\<close> enters the loop.\<close>

definition server_start :: server where
  "server_start = server_init\<lparr>sigint_caught := True, g_server_is_running := True\<rparr>"

section \<open>Running without signals\<close>

fun run_stmts :: "nat \<Rightarrow> pc \<times> server \<Rightarrow> pc \<times> server" where
  "run_stmts 0 x = x"
| "run_stmts (Suc n) x = (case server_stmt (fst x) (snd x) of None \<Rightarrow> x | Some y \<Rightarrow> run_stmts n y)"

lemma run_stmts_step: "server_stmt pc s = Some y \<Longrightarrow> run_stmts (Suc n) (pc, s) = run_stmts n y"
  by simp

lemma server_ok_flags [simp]:
  "server_ok (s\<lparr>g_server_is_processing := b\<rparr>) = server_ok s"
  "server_ok (s\<lparr>g_server_is_running := b\<rparr>) = server_ok s"
  "server_ok (s\<lparr>sigint_caught := b\<rparr>) = server_ok s"
  by (simp_all add: server_ok_def)

lemma server_ok_reset: "server_ok s \<Longrightarrow> server_ok (reset_pcc_client s)"
  by (simp add: server_ok_def reset_pcc_client_spec)

lemma server_ok_total: "server_ok s \<Longrightarrow> server_ok (update_pcc_total s)"
  by (simp add: server_ok_def update_pcc_total_spec)

lemma server_start_ok: "server_ok server_start"
  by (simp add: server_ok_def server_start_def server_init_def BUFFER_SZIE_def)

text \<open>The header of a request.\<close>

lemma read_header:
  assumes "src_bytes c = be_bytes n @ rest"
  shows "\<exists>d. read_stream_size_from_client c = (Some n, d) \<and> src_bytes d = rest \<and> src_end d = src_end c"
proof -
  obtain d where "read_size_loop c (replicate 4 0) 0 = (Some (be_bytes n), d)"
      "src_bytes d = rest" "src_end d = src_end c"
    using read_size_loop_spec [of "replicate 4 0" 0 c] assms by auto
  then show ?thesis by (auto simp: read_stream_size_from_client_def)
qed

lemma read_header_short:
  assumes "length (src_bytes c) < 4"
  shows "\<exists>d. read_stream_size_from_client c = (None, d)"
  using read_size_loop_spec [of "replicate 4 0" 0 c] assms
  by (cases "read_size_loop c (replicate 4 0) 0") (auto simp: read_stream_size_from_client_def)

text \<open>
  The body of the loop up to the sending of the reply, for a request whose stream arrived:
  \<open>k\<close> is how many bytes after the header were read in all.
\<close>

lemma serve_stream:
  assumes "server_ok s" "src_bytes (con_in c) = be_bytes n @ rest" "unat n \<le> length rest"
    "min (length rest) (unat n + 1023) < 2 ^ 32"
  shows "\<exists>k d u. run_stmts 4 (Accepted c, s) =
      (Send_counter (c\<lparr>con_in := d\<rparr>) (htonl (of_nat (printables (take k rest)))), u) \<and>
    src_bytes d = drop k rest \<and> unat n \<le> k \<and> k \<le> length rest \<and> k \<le> unat n + 1023 \<and>
    receive_frame (s\<lparr>g_server_is_processing := True\<rparr>) u \<and>
    pcc_client u = map of_nat (hist (take k rest))"
proof -
  obtain e where e: "read_stream_size_from_client (con_in c) = (Some n, e)" "src_bytes e = rest"
    using read_header [OF assms(2)] by blast
  let ?s = "reset_pcc_client (s\<lparr>g_server_is_processing := True\<rparr>)"
  have ok: "server_ok ?s" by (rule server_ok_reset) (simp add: assms(1))
  have zero: "?s = s\<lparr>g_server_is_processing := True, pcc_client := replicate 95 0\<rparr>"
    using assms(1) reset_pcc_client_spec [of "s\<lparr>g_server_is_processing := True\<rparr>"]
    by (simp add: server_ok_def)
  have "\<exists>k d u. read_stream_from_client n e ?s = (Some (of_nat (printables (take k rest))), d, u) \<and>
    src_bytes d = drop k rest \<and> k \<le> length rest \<and> unat n \<le> k \<and> k \<le> unat n + 1023 \<and>
    receive_frame ?s u \<and> pcc_client u = add_counts (replicate 95 0) (hist (take k rest))"
    using read_stream_enough [OF ok, of n 0 e 0] assms(3,4) e(2)
    unfolding read_stream_from_client_def by (auto simp: zero)
  then obtain k d u where r:
    "read_stream_from_client n e ?s = (Some (of_nat (printables (take k rest))), d, u)"
    "src_bytes d = drop k rest" "k \<le> length rest" "unat n \<le> k" "k \<le> unat n + 1023"
    "receive_frame ?s u" "pcc_client u = map of_nat (hist (take k rest))"
    by (auto simp: add_counts_zero)
  have "run_stmts 4 (Accepted c, s) =
      (Send_counter (c\<lparr>con_in := d\<rparr>) (htonl (of_nat (printables (take k rest)))), u)"
    using e r(1) by (simp add: numeral_eq_Suc)
  moreover have "receive_frame (s\<lparr>g_server_is_processing := True\<rparr>) u"
    using r(6) by (simp add: zero receive_frame_def)
  ultimately show ?thesis using r by blast
qed

text \<open>The rest of the body: the reply, and only after it the totals.\<close>

lemma send_reply_ok:
  assumes "\<forall>r \<in> set (snk_results (con_out c)). \<exists>k > 0. r = Some k"
  shows "\<exists>o'. server_stmt (Send_counter c (htonl w)) s = Some (Update_total (c\<lparr>con_out := o'\<rparr>), s) \<and>
    snk_sent o' = snk_sent (con_out c) @ be_bytes w"
proof -
  obtain o' where o': "send_printable_counter_to_client (con_out c) (be_bytes w) = (True, o')"
    using send_loop_succeeds [of "be_bytes w" 0 "con_out c"] assms
    by (cases "send_loop (con_out c) (be_bytes w) 0") (auto simp: send_printable_counter_to_client_def)
  then have "snk_sent o' = snk_sent (con_out c) @ be_bytes w"
    using send_loop_spec [of "be_bytes w" 0 "con_out c" True o']
    by (simp add: send_printable_counter_to_client_def)
  then show ?thesis using o' by auto
qed

lemma add_total:
  assumes "server_ok s" "pcc_client s = map of_nat (hist bs)"
  shows "update_pcc_total s = s\<lparr>pcc_total := add_counts (pcc_total s) (hist bs)\<rparr>"
  using assms total_add_counts [of "pcc_total s" bs] by (simp add: server_ok_def update_pcc_total_spec)

section \<open>Invariant of every interleaving\<close>

text \<open>
  Two history values go along with a run: the bytes consumed of the current client's
  stream, and the list of these for the clients that were served completely.
\<close>

fun consumed :: "pc \<Rightarrow> pc \<Rightarrow> u8 list \<Rightarrow> u8 list" where
  "consumed (Read_stream c n) (Send_counter d p) cur =
     take (length (src_bytes (con_in c)) - length (src_bytes (con_in d))) (src_bytes (con_in c))"
| "consumed pc pc' cur = cur"

fun completed :: "pc \<Rightarrow> event \<Rightarrow> u8 list \<Rightarrow> u8 list list \<Rightarrow> u8 list list" where
  "completed (Update_total c) Tau cur served = served @ [cur]"
| "completed pc ev cur served = served"

inductive srv_reach :: "pc \<Rightarrow> server \<Rightarrow> u8 list \<Rightarrow> u8 list list \<Rightarrow> bool" where
  start: "srv_reach Loop_head server_start [] []"
| step: "srv_reach pc s cur served \<Longrightarrow> srv_step (pc, s) ev (pc', s') \<Longrightarrow>
    srv_reach pc' s' (consumed pc pc' cur) (completed pc ev cur served)"

fun in_body :: "pc \<Rightarrow> bool" where
  "in_body Loop_head = False"
| "in_body In_accept = False"
| "in_body (Accepted c) = False"
| "in_body Print_total = False"
| "in_body (Exited code out) = False"
| "in_body (Killed sig) = False"
| "in_body _ = True"

fun pc_inv :: "pc \<Rightarrow> server \<Rightarrow> u8 list \<Rightarrow> bool" where
  "pc_inv (Read_stream c n) s cur \<longleftrightarrow> pcc_client s = replicate 95 0"
| "pc_inv (Send_counter c p) s cur \<longleftrightarrow>
     pcc_client s = map of_nat (hist cur) \<and> p = htonl (of_nat (printables cur))"
| "pc_inv (Update_total c) s cur \<longleftrightarrow> pcc_client s = map of_nat (hist cur)"
| "pc_inv (Exited code out) s cur \<longleftrightarrow>
     (code = EXIT_SUCCESS \<and> out = Some (pcc_total s)) \<or> (code = EXIT_FAILURE \<and> out = None)"
| "pc_inv pc s cur \<longleftrightarrow> True"

definition srv_inv :: "pc \<Rightarrow> server \<Rightarrow> u8 list \<Rightarrow> u8 list list \<Rightarrow> bool" where
  "srv_inv pc s cur served \<longleftrightarrow>
     server_ok s \<and> pcc_total s = map of_nat (hist (concat served)) \<and> pc_inv pc s cur \<and>
     (in_body pc \<longrightarrow> g_server_is_processing s) \<and>
     (\<not> is_exited pc \<longrightarrow> sigint_caught s = g_server_is_running s)"

lemma srv_inv_start: "srv_inv Loop_head server_start [] []"
proof -
  have "replicate 95 0 = map (of_nat :: nat \<Rightarrow> u32) (hist [])"
    by (intro nth_equalityI) auto
  then show ?thesis
    using server_start_ok by (simp add: srv_inv_def) (simp add: server_start_def server_init_def)
qed

lemma pc_inv_processing [simp]: "pc_inv pc (s\<lparr>g_server_is_processing := b\<rparr>) cur = pc_inv pc s cur"
  "pc_inv pc (s\<lparr>g_server_is_running := b\<rparr>) cur = pc_inv pc s cur"
  "pc_inv pc (s\<lparr>sigint_caught := b\<rparr>) cur = pc_inv pc s cur"
  by (cases pc; simp)+

lemma add_counts_map: "add_counts (map of_nat (hist bs)) (hist cs) = map of_nat (hist (bs @ cs))"
  by (intro nth_equalityI) auto

lemma stmt_inv:
  assumes "server_stmt pc s = Some (pc', s')" "srv_inv pc s cur served"
  shows "srv_inv pc' s' (consumed pc pc' cur) (completed pc Tau cur served)"
proof (cases pc)
  case (Reset_client c n)
  then show ?thesis
    using assms server_ok_reset by (auto simp: srv_inv_def reset_pcc_client_spec server_ok_def)
next
  case (Read_stream c n)
  obtain res d u where r: "read_stream_loop n (con_in c) s 0 0 = (res, d, u)"
    by (cases "read_stream_loop n (con_in c) s 0 0")
  obtain k where k: "k \<le> length (src_bytes (con_in c))" "src_bytes d = drop k (src_bytes (con_in c))"
    "pcc_client u = map of_nat (hist (take k (src_bytes (con_in c))))" "receive_frame s u"
    "res = None \<or> res = Some (of_nat (printables (take k (src_bytes (con_in c)))))"
    using read_stream_result [OF _ r] assms(2) Read_stream by (auto simp: srv_inv_def add_counts_zero)
  then show ?thesis
    using assms r Read_stream
    by (auto simp: srv_inv_def read_stream_from_client_def receive_frame_def)
next
  case (Update_total c)
  then show ?thesis
    using assms server_ok_total [of s]
    by (auto simp: srv_inv_def add_total add_counts_map)
qed (use assms in \<open>auto simp: srv_inv_def split: option.splits prod.splits if_splits\<close>)

lemma deliver_inv:
  assumes "deliver_sigint pc s = (pc', s')" "srv_inv pc s cur served"
  shows "srv_inv pc' s' cur served"
  using assms by (auto simp: srv_inv_def deliver_sigint_def sig_int_handler_def split: if_splits)

lemma deliver_history:
  assumes "deliver_sigint pc s = (pc', s')"
  shows "consumed pc pc' cur = cur"
  using assms by (cases pc) (auto simp: deliver_sigint_def sig_int_handler_def split: if_splits)

lemma only_failure_Some: "only_failure x = Some y \<longleftrightarrow> x = Some y \<and> (\<exists>c s. y = (Close_err c, s))"
  by (cases x rule: only_failure.cases) auto

text \<open>An interrupted statement is one that failed, up to the connection it leaves behind.\<close>

lemma interrupted_inv:
  assumes "interrupted_call k pc s = Some (pc1, s1)" "srv_inv pc s cur served"
  shows "srv_inv pc1 s1 cur served"
proof (cases pc)
  case In_accept
  then show ?thesis using assms by (auto simp: srv_inv_def)
next
  case (Read_size c)
  then obtain d where d: "server_stmt (Read_size (interrupt k c)) s = Some (pc1, s1)" "pc1 = Close_err d"
    using assms(1) by (auto simp: only_failure_Some simp del: server_stmt.simps)
  have "srv_inv (Read_size (interrupt k c)) s cur served" using assms(2) Read_size by (simp add: srv_inv_def)
  from stmt_inv [OF d(1) this] show ?thesis by simp
next
  case (Read_stream c n)
  then obtain d where d: "server_stmt (Read_stream (interrupt k c) n) s = Some (pc1, s1)" "pc1 = Close_err d"
    using assms(1) by (auto simp: only_failure_Some simp del: server_stmt.simps)
  have "srv_inv (Read_stream (interrupt k c) n) s cur served" using assms(2) Read_stream by (simp add: srv_inv_def)
  from stmt_inv [OF d(1) this] d(2) show ?thesis by simp
qed (use assms(1) in simp_all)

lemma sigint_history: "interrupted_call k pc s = Some (pc1, s1) \<Longrightarrow> deliver_sigint pc1 s1 = (pc', s') \<Longrightarrow>
    consumed pc pc' cur = cur \<and> completed pc (Sigint_in_call k) cur served = served"
  by (cases pc) (auto simp: only_failure_Some deliver_sigint_def sig_int_handler_def simp del: server_stmt.simps
      split: if_splits)

lemma srv_step_inv:
  assumes "srv_step (pc, s) ev (pc', s')" "srv_inv pc s cur served"
  shows "srv_inv pc' s' (consumed pc pc' cur) (completed pc ev cur served)"
  using assms
proof (cases rule: srv_step_cases)
  case stmt
  then show ?thesis using stmt_inv assms(2) by simp
next
  case sigint
  have "completed pc ev cur served = served" using sigint(1) by (cases pc) auto
  then show ?thesis
    using deliver_inv [OF sigint(3) assms(2)] deliver_history [OF sigint(3)] by simp
next
  case (sigint_in_call k pc1 s1)
  have "srv_inv pc' s' cur served"
    by (rule deliver_inv [OF sigint_in_call(3) interrupted_inv [OF sigint_in_call(2) assms(2)]])
  then show ?thesis using sigint_history [OF sigint_in_call(2,3)] sigint_in_call(1) by simp
qed (use assms(2) in \<open>simp_all add: srv_inv_def\<close>)

lemma srv_reach_inv: "srv_reach pc s cur served \<Longrightarrow> srv_inv pc s cur served"
proof (induction rule: srv_reach.induct)
  case start
  show ?case by (rule srv_inv_start)
next
  case (step pc s cur served ev pc' s')
  then show ?case by (rule_tac srv_step_inv)
qed

section \<open>Clients that fail\<close>

definition broken_request :: "source \<Rightarrow> bool" where
  "broken_request c \<longleftrightarrow>
     length (src_bytes c) < 4 \<or>
     (\<exists>n rest. src_bytes c = be_bytes n @ rest \<and> length rest < unat n)"

lemma failed_client_run:
  assumes "server_ok s" "broken_request (con_in c)"
  shows "\<exists>k u. run_stmts k (Accepted c, s) = (Loop_head, u) \<and> pcc_total u = pcc_total s \<and>
    g_server_is_running u = g_server_is_running s \<and> g_server_is_processing u \<and>
    sigint_caught u = sigint_caught s"
proof (cases "length (src_bytes (con_in c)) < 4")
  case True
  then obtain d where "read_stream_size_from_client (con_in c) = (None, d)"
    using read_header_short by blast
  then have "run_stmts 3 (Accepted c, s) = (Loop_head, s\<lparr>g_server_is_processing := True\<rparr>)"
    by (simp add: numeral_eq_Suc)
  then show ?thesis
    by (intro exI [of _ 3] exI [of _ "s\<lparr>g_server_is_processing := True\<rparr>"]) simp
next
  case False
  then obtain n rest where nr: "src_bytes (con_in c) = be_bytes n @ rest" "length rest < unat n"
    using assms(2) by (auto simp: broken_request_def)
  obtain e where e: "read_stream_size_from_client (con_in c) = (Some n, e)" "src_bytes e = rest"
    using read_header [OF nr(1)] by blast
  let ?s = "reset_pcc_client (s\<lparr>g_server_is_processing := True\<rparr>)"
  have ok: "server_ok ?s" by (rule server_ok_reset) (simp add: assms(1))
  obtain d u where r: "read_stream_from_client n e ?s = (None, d, u)" "receive_frame ?s u"
    using read_stream_short [OF ok, of 0 e n 0] nr(2) e(2) unfolding read_stream_from_client_def by auto
  have "run_stmts 5 (Accepted c, s) = (Loop_head, u)"
    using e(1) r(1) by (simp add: numeral_eq_Suc)
  moreover have "pcc_total u = pcc_total s" "g_server_is_running u = g_server_is_running s"
      "g_server_is_processing u" "sigint_caught u = sigint_caught s"
    using r(2) by (simp_all add: receive_frame_def reset_pcc_client_def)
  ultimately show ?thesis by blast
qed

section \<open>Signals\<close>

text \<open>How many statements are left once the running flag is down.\<close>

fun rank :: "pc \<Rightarrow> nat" where
  "rank (Accepted c) = 10"
| "rank (Read_size c) = 9"
| "rank (Reset_client c n) = 8"
| "rank (Read_stream c n) = 7"
| "rank (Send_counter c p) = 6"
| "rank (Update_total c) = 5"
| "rank (Close_ok c) = 4"
| "rank (Close_err c) = 3"
| "rank Clear_processing = 3"
| "rank Loop_head = 2"
| "rank Print_total = 1"
| "rank In_accept = 0"
| "rank (Exited code out) = 0"
| "rank (Killed sig) = 0"

lemma read_stream_loop_flag:
  "read_stream_loop sz conn s t p = (res, d, u) \<Longrightarrow> g_server_is_running u = g_server_is_running s"
proof (induction sz conn s t p rule: read_stream_loop.induct)
  case (1 sz conn s t p)
  show ?case
  proof (cases "t < sz")
    case False
    then show ?thesis using "1.prems" by (subst (asm) read_stream_loop.simps) simp
  next
    case True
    obtain r bs c' where rd: "sys_read conn BUFFER_SZIE = (r, bs, c')" by (cases "sys_read conn BUFFER_SZIE")
    show ?thesis
    proof (cases "r \<le> 0")
      case True
      then show ?thesis
        using "1.prems" rd \<open>t < sz\<close> by (subst (asm) read_stream_loop.simps) (auto split: if_splits)
    next
      case False
      obtain n s2 where up: "update_pcc_client (nat r) (s\<lparr>recieve_buff := overlay (recieve_buff s) 0 bs\<rparr>) = (n, s2)"
        by force
      have "read_stream_loop sz c' s2 (t + of_int r) (p + n) = (res, d, u)"
        using "1.prems" rd up False True by (subst (asm) read_stream_loop.simps) simp
      then have "g_server_is_running u = g_server_is_running s2"
        using "1.IH" True rd up False by simp
      moreover have "g_server_is_running s2 = g_server_is_running s"
        using up by (auto simp: update_pcc_client_def split: prod.splits)
      ultimately show ?thesis by simp
    qed
  qed
qed

lemma stmt_running:
  "server_stmt pc s = Some (pc', s') \<Longrightarrow> g_server_is_running s' = g_server_is_running s"
  by (cases pc)
    (auto simp: reset_pcc_client_def update_pcc_total_def read_stream_from_client_def
      dest: read_stream_loop_flag split: option.splits prod.splits)

lemma stmt_rank:
  "server_stmt pc s = Some (pc', s') \<Longrightarrow> \<not> g_server_is_running s \<Longrightarrow> rank pc' < rank pc"
  by (cases pc) (auto split: option.splits prod.splits)

lemma stmt_exits:
  "server_stmt pc s = Some (pc', s') \<Longrightarrow> \<not> g_server_is_running s \<Longrightarrow>
   pc' \<noteq> In_accept \<and> (is_exited pc' \<longrightarrow> pc' \<in> {Exited EXIT_SUCCESS (Some (pcc_total s')), Killed SIGPIPE})"
  by (cases pc) (auto split: option.splits prod.splits if_splits)

lemma stmt_defined: "pc \<noteq> In_accept \<Longrightarrow> \<not> is_exited pc \<Longrightarrow> \<exists>x. server_stmt pc s = Some x"
  by (cases pc) (auto split: option.splits prod.splits)

lemma run_to_exit:
  assumes "\<not> g_server_is_running s" "pc \<noteq> In_accept" "rank pc \<le> n"
    "is_exited pc \<longrightarrow> pc \<in> {Exited EXIT_SUCCESS (Some (pcc_total s)), Killed SIGPIPE}"
  shows "\<exists>u. run_stmts n (pc, s) = (Exited EXIT_SUCCESS (Some (pcc_total u)), u) \<or>
    run_stmts n (pc, s) = (Killed SIGPIPE, u)"
  using assms
proof (induction n arbitrary: pc s)
  case 0
  then show ?case by (cases pc) auto
next
  case (Suc n)
  show ?case
  proof (cases "is_exited pc")
    case True
    then show ?thesis using Suc.prems by (cases pc) auto
  next
    case False
    then obtain pc' s' where st: "server_stmt pc s = Some (pc', s')"
      using stmt_defined [OF Suc.prems(2)] by (metis surj_pair)
    then show ?thesis
      using Suc.IH [of s' pc'] stmt_running [OF st] stmt_rank [OF st] stmt_exits [OF st] Suc.prems
      by simp
  qed
qed

text \<open>What a failed or interrupted transfer is followed by.\<close>

lemma run_after_failure:
  assumes "\<not> g_server_is_running s"
  shows "run_stmts 10 (Close_err c, s) = (Exited EXIT_SUCCESS (Some (pcc_total s)), s)"
  using assms by (simp add: numeral_eq_Suc)

lemma run_stmts_add: "run_stmts (m + n) x = run_stmts n (run_stmts m x)"
proof (induction m arbitrary: x)
  case (Suc m)
  have stuck: "server_stmt (fst x) (snd x) = None \<Longrightarrow> run_stmts n x = x" for n
    by (cases n) simp_all
  show ?case using Suc stuck by (cases "server_stmt (fst x) (snd x)") simp_all
qed simp

lemma run_stmts_running:
  "run_stmts n (pc, s) = (pc', u) \<Longrightarrow> g_server_is_running u = g_server_is_running s"
proof (induction n arbitrary: pc s)
  case (Suc n)
  show ?case
  proof (cases "server_stmt pc s")
    case (Some y)
    then obtain pc1 s1 where "server_stmt pc s = Some (pc1, s1)" by (cases y) auto
    then show ?thesis using Suc.IH [of pc1 s1] Suc.prems stmt_running by simp
  qed (use Suc.prems in simp)
qed simp

lemma interrupted_running:
  assumes "interrupted_call k pc s = Some (pc1, s1)" "pc \<noteq> In_accept"
  shows "(\<exists>c. pc1 = Close_err c) \<and> g_server_is_running s1 = g_server_is_running s"
  using assms by (cases pc) (auto simp: only_failure_Some simp del: server_stmt.simps dest: stmt_running)

text \<open>The body of the loop does not depend on the flags that SIGINT changes.\<close>

definition halted :: "server \<Rightarrow> server" where
  "halted s = s\<lparr>sigint_caught := False, g_server_is_running := False\<rparr>"

lemma read_stream_halted:
  "read_stream_loop sz conn (halted s) t p =
   (case read_stream_loop sz conn s t p of (res, d, u) \<Rightarrow> (res, d, halted u))"
proof (induction sz conn s t p rule: read_stream_loop.induct)
  case (1 sz conn s t p)
  show ?case
  proof (cases "t < sz")
    case False
    then show ?thesis by (subst (1 2) read_stream_loop.simps) simp
  next
    case True
    obtain r bs c' where rd: "sys_read conn BUFFER_SZIE = (r, bs, c')" by (cases "sys_read conn BUFFER_SZIE")
    show ?thesis
    proof (cases "r \<le> 0")
      case True
      then show ?thesis using rd \<open>t < sz\<close> by (subst (1 2) read_stream_loop.simps) auto
    next
      case False
      obtain n s2 where up: "update_pcc_client (nat r) (s\<lparr>recieve_buff := overlay (recieve_buff s) 0 bs\<rparr>) = (n, s2)"
        by force
      then have up': "update_pcc_client (nat r) ((halted s)\<lparr>recieve_buff := overlay (recieve_buff (halted s)) 0 bs\<rparr>) =
          (n, halted s2)"
        by (auto simp: update_pcc_client_def halted_def split: prod.splits)
      have IH: "read_stream_loop sz c' (halted s2) (t + of_int r) (p + n) =
          (case read_stream_loop sz c' s2 (t + of_int r) (p + n) of (res, d, u) \<Rightarrow> (res, d, halted u))"
        using "1.IH" True rd up False by simp
      have "read_stream_loop sz conn (halted s) t p = read_stream_loop sz c' (halted s2) (t + of_int r) (p + n)"
        using rd up' False True by (subst read_stream_loop.simps) simp
      moreover have "read_stream_loop sz conn s t p = read_stream_loop sz c' s2 (t + of_int r) (p + n)"
        using rd up False True by (subst read_stream_loop.simps) simp
      ultimately show ?thesis using IH by simp
    qed
  qed
qed

lemma stmt_halted:
  assumes "server_stmt pc s = Some (pc', s')" "in_body pc"
  shows "server_stmt pc (halted s) = Some (pc', halted s')"
proof (cases pc)
  case (Read_stream c n)
  then show ?thesis using assms(1)
    by (auto simp: read_stream_from_client_def read_stream_halted split: prod.splits option.splits)
next
  case (Reset_client c n)
  then show ?thesis using assms(1) by (auto simp: reset_pcc_client_def halted_def)
next
  case (Update_total c)
  then show ?thesis using assms(1) by (auto simp: update_pcc_total_def halted_def)
next
  case Clear_processing
  then show ?thesis using assms(1) by (auto simp: halted_def)
qed (use assms in \<open>auto split: prod.splits option.splits\<close>)

lemma run_halted:
  assumes "run_stmts k (pc, s) = (Loop_head, s')" "\<forall>j < k. in_body (fst (run_stmts j (pc, s)))"
  shows "run_stmts k (pc, halted s) = (Loop_head, halted s')"
  using assms
proof (induction k arbitrary: pc s)
  case (Suc k)
  have b: "in_body pc" using Suc.prems(2) by force
  then obtain pc1 s1 where st: "server_stmt pc s = Some (pc1, s1)"
    using stmt_defined [of pc s] by (cases pc) auto
  have "\<forall>j < k. in_body (fst (run_stmts j (pc1, s1)))"
    using Suc.prems(2) st by (auto dest: spec [where x = "Suc j" for j])
  then show ?case using Suc.IH [of pc1 s1] Suc.prems(1) st stmt_halted [OF st b] by simp
qed simp

lemma run_stmts_stop: "is_exited (fst (run_stmts k x)) \<Longrightarrow> k \<le> n \<Longrightarrow> run_stmts n x = run_stmts k x"
proof -
  assume a: "is_exited (fst (run_stmts k x))" "k \<le> n"
  have "server_stmt pc s = None" if "is_exited pc" for pc s using that by (cases pc) simp_all
  then have "run_stmts m y = y" if "is_exited (fst y)" for m y using that by (cases m) simp_all
  then show ?thesis using a run_stmts_add [of k "n - k" x] by simp
qed

end
