(* ===== verification/Pcc_Client.thy ===== *)
theory Pcc_Client
  imports Pcc_Server
begin

text \<open>
  The client of \<^verbatim>\<open>src/hw5_os/pcc_client.c\<close>.  Results of system calls that only succeed or fail
  (\<^verbatim>\<open>open\<close>, \<^verbatim>\<open>stat\<close>, \<^verbatim>\<open>socket\<close>, \<^verbatim>\<open>inet_pton\<close>, \<^verbatim>\<open>connect\<close>) are inputs; the file is a source and the
  connection a source and a sink.  \<^const>\<open>Inl\<close> of a result is the exit code of the program, or the
  negated number of the signal that killed it.
\<close>

section \<open>Definitions\<close>

definition CLIENT_FAILURE :: int where
  "CLIENT_FAILURE = 1"

text \<open>How the program ends after a failed write: it exits, unless the write raised \<^verbatim>\<open>SIGPIPE\<close>.\<close>

definition write_failed :: "sink \<Rightarrow> int" where
  "write_failed sk = (if snk_sigpipe sk then - 13 else CLIENT_FAILURE)"

text \<open>\<^verbatim>\<open>stat\<close>'s \<^verbatim>\<open>st_size\<close>, converted to \<^verbatim>\<open>uint32_t\<close> by the return.\<close>

definition input_file_length :: "int option \<Rightarrow> int + u32" where
  "input_file_length st_size =
     (case st_size of None \<Rightarrow> Inl CLIENT_FAILURE | Some n \<Rightarrow> Inr (of_int n))"

text \<open>The inner loop of \<^verbatim>\<open>write_file_to_socket\<close>: \<open>bs\<close> are the \<^verbatim>\<open>bytes_left_to_send\<close> at \<^verbatim>\<open>buffer_ptr\<close>.\<close>

function send_buffer :: "sink \<Rightarrow> u8 list \<Rightarrow> bool \<times> sink" where
  "send_buffer sk bs =
     (if length bs > 0 then
        let (bytes_written, sk') = sys_write sk bs
        in if bytes_written < 0 then (False, sk') else send_buffer sk' (drop (nat bytes_written) bs)
      else (True, sk))"
  by pat_completeness auto
termination
  by (relation "measures [\<lambda>(sk, bs). length (snk_results sk), \<lambda>(sk, bs). length bs]")
    (auto simp: sys_write_def split: list.splits option.splits)

text \<open>
  \<^verbatim>\<open>bytes_to_send\<close> and \<^verbatim>\<open>total_bytes_read\<close> are signed 32-bit integers.  The sum of the counter wraps
  here where C leaves the overflow undefined; it stays below \<open>2^31\<close> for every file that is no
  longer than announced.
\<close>

function write_file_loop :: "source \<Rightarrow> sink \<Rightarrow> u32 \<Rightarrow> u32 \<Rightarrow> bool \<times> sink" where
  "write_file_loop file sk bytes_to_send total_bytes_read =
     (if sint total_bytes_read < sint bytes_to_send then
        let (current_bytes_read, buffer, file') = sys_read file BUFFER_SZIE
        in if current_bytes_read = 0 then (True, sk)
           else if current_bytes_read < 0 then (False, sk)
           else
             (case send_buffer sk buffer of
                (False, sk') \<Rightarrow> (False, sk')
              | (True, sk') \<Rightarrow>
                  write_file_loop file' sk' bytes_to_send (total_bytes_read + of_int current_bytes_read))
      else (True, sk))"
  by pat_completeness auto
termination
  by (relation "measure (\<lambda>(file, sk, n, t). length (src_bytes file))")
    (auto simp: sys_read_def src_end_def Let_def BUFFER_SZIE_def split: if_splits)

definition write_file_to_socket :: "sink \<Rightarrow> source \<Rightarrow> u32 \<Rightarrow> bool \<times> sink" where
  "write_file_to_socket sk file bytes_to_send = write_file_loop file sk bytes_to_send 0"

text \<open>
  The loop of \<^verbatim>\<open>read_result_from_server\<close> treats the end of the connection like a read of
  zero bytes and tries again, so it may not return: \<^const>\<open>None\<close>.
\<close>

partial_function (option) read_result_loop :: "source \<Rightarrow> u8 list \<Rightarrow> u8 \<Rightarrow> (int + u8 list) option" where
  "read_result_loop conn data_ptr total_bytes_read =
     (case sys_read conn (4 - unat total_bytes_read) of
        (bytes_read, bs, conn') \<Rightarrow>
          if bytes_read < 0 then Some (Inl CLIENT_FAILURE)
          else if total_bytes_read + of_int bytes_read < 4
          then read_result_loop conn' (overlay data_ptr (unat total_bytes_read) bs)
                 (total_bytes_read + of_int bytes_read)
          else Some (Inr (overlay data_ptr (unat total_bytes_read) bs)))"

definition read_result_from_server :: "source \<Rightarrow> (int + u32) option" where
  "read_result_from_server conn =
     (case read_result_loop conn (replicate 4 0) 0 of
        None \<Rightarrow> None
      | Some (Inl e) \<Rightarrow> Some (Inl e)
      | Some (Inr mem) \<Rightarrow> Some (Inr (le_load mem)))"

text \<open>\<^verbatim>\<open>stream_size_ptr\<close> points to the four bytes of \<open>file_length_net\<close>; the counter is a \<^verbatim>\<open>uint8_t\<close>.\<close>

function write_size_loop :: "sink \<Rightarrow> u32 \<Rightarrow> u8 \<Rightarrow> bool \<times> sink" where
  "write_size_loop sk file_length_net total_bytes_written =
     (case sys_write sk (take (4 - unat total_bytes_written)
                          (drop (unat total_bytes_written) (le_store file_length_net))) of
        (bytes_written, sk') \<Rightarrow>
          if bytes_written < 0 then (False, sk')
          else if total_bytes_written + of_int bytes_written < 4
          then write_size_loop sk' file_length_net (total_bytes_written + of_int bytes_written)
          else (True, sk'))"
  by pat_completeness auto

lemma write_size_progress:
  assumes "(r, sk') = sys_write sk (drop (unat t) (le_store w))" "t + of_int r < (4 :: u8)"
  shows "length (snk_results sk') < length (snk_results sk)"
proof (cases "snk_results sk")
  case Nil
  then have r: "r = int (4 - unat t)"
    using assms(1) by (auto simp: sys_write_def)
  have "\<not> t + of_int r < 4"
  proof (cases "unat t < 4")
    case True
    then have "unat (t + of_int r) = 4"
      by (simp add: r unat_word_ariths unsigned_of_nat take_bit_nat_eq_self)
    then show ?thesis by (simp add: word_less_nat_alt)
  next
    case False
    then show ?thesis by (simp add: r word_less_nat_alt)
  qed
  with assms(2) show ?thesis by simp
next
  case (Cons x xs)
  then show ?thesis using assms(1) by (auto simp: sys_write_def split: option.splits)
qed

termination write_size_loop
  by (relation "measure (\<lambda>(sk, w, t). length (snk_results sk))") (auto dest: write_size_progress)

definition write_stream_size_to_server :: "sink \<Rightarrow> u32 \<Rightarrow> bool \<times> sink" where
  "write_stream_size_to_server sk file_length_net = write_size_loop sk file_length_net 0"

declare send_buffer.simps [simp del] write_file_loop.simps [simp del] write_size_loop.simps [simp del]

text \<open>
  \<^verbatim>\<open>main\<close>: the bytes it sent and how it ended: \<open>None\<close>, it never returns; \<open>Some (Inl code)\<close>, it
  exits with an error or is killed; \<open>Some (Inr n)\<close>, it prints \<open>n\<close> and returns 0.  A failed
  \<^verbatim>\<open>read\<close> of the file comes after a successful write, so it is told from a failed write.
\<close>

record client_env =
  ce_argc :: int
  ce_file :: "source option"          \<comment> \<open>\<open>open(argv[3], O_RDONLY)\<close>\<close>
  ce_st_size :: "int option"          \<comment> \<open>\<open>stat(argv[3])\<close>\<close>
  ce_socket_fd :: int
  ce_inet_pton :: int
  ce_connect :: int
  ce_in :: source
  ce_out :: sink

definition pcc_client_main :: "client_env \<Rightarrow> sink \<times> (int + u32) option" where
  "pcc_client_main e =
     (if ce_argc e \<noteq> 4 then (ce_out e, Some (Inl CLIENT_FAILURE))
      else
        case ce_file e of
          None \<Rightarrow> (ce_out e, Some (Inl CLIENT_FAILURE))
        | Some input_file_fd \<Rightarrow>
       (case input_file_length (ce_st_size e) of
          Inl c \<Rightarrow> (ce_out e, Some (Inl c))
        | Inr file_length \<Rightarrow>
            if ce_socket_fd e < 0 then (ce_out e, Some (Inl CLIENT_FAILURE))
            else if ce_inet_pton e = 0 then (ce_out e, Some (Inl CLIENT_FAILURE))
            else if ce_connect e < 0 then (ce_out e, Some (Inl CLIENT_FAILURE))
            else
             (case write_stream_size_to_server (ce_out e) (htonl file_length) of
                (False, sk) \<Rightarrow> (sk, Some (Inl (write_failed sk)))
              | (True, sk) \<Rightarrow>
             (case write_file_to_socket sk input_file_fd file_length of
                (False, sk') \<Rightarrow> (sk', Some (Inl (write_failed sk')))
              | (True, sk') \<Rightarrow>
                  (sk', map_option (map_sum id ntohl) (read_result_from_server (ce_in e)))))))"

section \<open>What the client sends and reads\<close>

lemma send_buffer_spec:
  assumes "send_buffer sk bs = (ok, d)"
  shows "if ok then snk_sent d = snk_sent sk @ bs else \<exists>k. snk_sent d = snk_sent sk @ take k bs"
  using assms
proof (induction sk bs rule: send_buffer.induct)
  case (1 sk bs)
  show ?case
  proof (cases "bs = []")
    case True
    then show ?thesis using "1.prems" by (subst (asm) send_buffer.simps) auto
  next
    case False
    obtain r e where wr: "sys_write sk bs = (r, e)" by force
    show ?thesis
    proof (cases "r < 0")
      case True
      then have "ok = False" "d = e"
        using "1.prems" wr False by (subst (asm) send_buffer.simps, simp)+
      then show ?thesis using ws.wr_failed [OF wr True] by (auto intro: exI [of _ 0])
    next
      case ge: False
      then have e: "snk_sent e = snk_sent sk @ take (nat r) bs" using ws.wr_taken [OF wr] by simp
      have "send_buffer e (drop (nat r) bs) = (ok, d)"
        using "1.prems" wr False ge by (subst (asm) send_buffer.simps) simp
      then have IH: "if ok then snk_sent d = snk_sent e @ drop (nat r) bs
          else \<exists>k. snk_sent d = snk_sent e @ take k (drop (nat r) bs)"
        using "1.IH" wr False ge by simp
      show ?thesis
      proof (cases ok)
        case True
        then show ?thesis using IH e by simp
      next
        case False
        then obtain k where "snk_sent d = snk_sent sk @ take (nat r + k) bs"
          using IH e by (auto simp: take_add)
        then show ?thesis using False by auto
      qed
    qed
  qed
qed

lemma send_buffer_succeeds: "None \<notin> set (snk_results sk) \<Longrightarrow> fst (send_buffer sk bs)"
proof (induction sk bs rule: send_buffer.induct)
  case (1 sk bs)
  obtain r e where wr: "sys_write sk bs = (r, e)" by force
  have r: "0 \<le> r" "None \<notin> set (snk_results e)"
    using wr "1.prems" by (auto simp: sys_write_def split: list.splits option.splits)
  then have "bs \<noteq> [] \<Longrightarrow> fst (send_buffer e (drop (nat r) bs))" using "1.IH" wr by simp
  then show ?case using wr r by (subst send_buffer.simps) auto
qed

lemma send_buffer_results:
  "None \<notin> set (snk_results sk) \<Longrightarrow> None \<notin> set (snk_results (snd (send_buffer sk bs)))"
proof (induction sk bs rule: send_buffer.induct)
  case (1 sk bs)
  obtain r e where wr: "sys_write sk bs = (r, e)" by force
  have r: "0 \<le> r" "None \<notin> set (snk_results e)"
    using wr "1.prems" by (auto simp: sys_write_def split: list.splits option.splits)
  then have "bs \<noteq> [] \<Longrightarrow> None \<notin> set (snk_results (snd (send_buffer e (drop (nat r) bs))))"
    using "1.IH" wr by simp
  then show ?case using wr r "1.prems" by (subst send_buffer.simps) auto
qed

text \<open>The file: all of it when \<^verbatim>\<open>bytes_to_send\<close> allows, nothing when that is not positive.\<close>

lemma sint_add:
  assumes "0 \<le> sint (n :: u32)" "sint n + int k < 2 ^ 31"
  shows "sint (n + of_nat k) = sint n + int k"
proof -
  have "n + of_nat k = of_int (sint n + int k)" by simp
  then show ?thesis using assms by (simp only: signed_of_int) (simp add: signed_take_bit_int_eq_self)
qed

lemma write_file_all:
  assumes "None \<notin> set (snk_results sk)" "\<not> src_error fl" "0 \<le> sint n"
    "sint n + int (length (src_bytes fl)) \<le> sint total_to_send"
  shows "\<exists>d. write_file_loop fl sk total_to_send n = (True, d) \<and> snk_sent d = snk_sent sk @ src_bytes fl \<and>
    None \<notin> set (snk_results d)"
  using assms
proof (induction "length (src_bytes fl)" arbitrary: fl sk n rule: less_induct)
  case less
  have pos: "0 < BUFFER_SZIE" by (simp add: BUFFER_SZIE_def)
  have err: "src_end fl = 0" using less.prems(2) by (simp add: src_end_def)
  show ?case
  proof (cases rule: rs.rd_cases [OF pos, of fl])
    case 1
    then show ?thesis using err less.prems(1) by (subst write_file_loop.simps) auto
  next
    case (2 k f)
    let ?bs = "take k (src_bytes fl)"
    obtain e where sb: "send_buffer sk ?bs = (True, e)"
      using send_buffer_succeeds [OF less.prems(1), of ?bs] by (cases "send_buffer sk ?bs") auto
    have e: "send_buffer sk ?bs = (True, e)" "snk_sent e = snk_sent sk @ ?bs"
        "None \<notin> set (snk_results e)"
      using sb send_buffer_spec [OF sb] send_buffer_results [OF less.prems(1), of ?bs] by simp_all
    have lt: "sint n < sint total_to_send" using less.prems(4) 2(1,3) by linarith
    have "sint n + int k < 2 ^ 31" using less.prems(4) 2(3) sint_lt [of total_to_send] by simp
    then have nk: "sint (n + of_nat k) = sint n + int k" by (rule sint_add [OF less.prems(3)])
    from lt have step: "write_file_loop fl sk total_to_send n = write_file_loop f e total_to_send (n + of_nat k)"
      using 2(1,4) e(1) by (subst write_file_loop.simps) simp
    have shorter: "length (src_bytes f) < length (src_bytes fl)" using 2 by simp
    have "\<not> src_error f" using 2(6) err by (simp add: src_end_def split: if_splits)
    moreover have "0 \<le> sint (n + of_nat k)" "sint (n + of_nat k) + int (length (src_bytes f)) \<le> sint total_to_send"
      unfolding nk using 2(3,5) less.prems(3,4) by simp_all
    ultimately obtain d where "write_file_loop f e total_to_send (n + of_nat k) = (True, d)"
        "snk_sent d = snk_sent e @ src_bytes f" "None \<notin> set (snk_results d)"
      using less.hyps [OF shorter e(3)] by blast
    then show ?thesis using step e(2) 2(5) by auto
  qed
qed

lemma write_file_nothing: "sint total_to_send \<le> sint n \<Longrightarrow> write_file_loop file sk total_to_send n = (True, sk)"
  by (subst write_file_loop.simps) simp

text \<open>The header.\<close>

lemma write_size_all:
  assumes "None \<notin> set (snk_results sk)" "unat t < 4"
  shows "\<exists>d. write_size_loop sk w t = (True, d) \<and> snk_sent d = snk_sent sk @ drop (unat t) (le_store w) \<and>
    None \<notin> set (snk_results d)"
  using assms
proof (induction sk w t rule: write_size_loop.induct)
  case (1 sk w t)
  obtain r e where wr: "sys_write sk (drop (unat t) (le_store w)) = (r, e)" by force
  have r: "0 \<le> r" "None \<notin> set (snk_results e)"
    using wr "1.prems"(1) by (auto simp: sys_write_def split: list.splits option.splits)
  have e: "nat r \<le> 4 - unat t" "snk_sent e = snk_sent sk @ take (nat r) (drop (unat t) (le_store w))"
    using ws.wr_taken [OF wr r(1)] by simp_all
  have tot: "unat (t + of_int r) = unat t + nat r"
  proof -
    have "of_int r = (of_nat (nat r) :: u8)" using r(1) by simp
    then show ?thesis
      using e(1) "1.prems"(2) by (simp add: unat_word_ariths unsigned_of_nat take_bit_nat_eq_self)
  qed
  show ?case
  proof (cases "unat t + nat r < 4")
    case True
    then have lt: "t + of_int r < 4" using tot by (simp add: word_less_nat_alt)
    have step: "write_size_loop sk w t = write_size_loop e w (t + of_int r)"
      using wr r(1) lt by (subst write_size_loop.simps) simp
    obtain d where d: "write_size_loop e w (t + of_int r) = (True, d)"
      "snk_sent d = snk_sent e @ drop (unat t + nat r) (le_store w)" "None \<notin> set (snk_results d)"
      using "1.IH" [of r e] wr r lt True tot by auto
    have "snk_sent d = snk_sent sk @ take (nat r) (drop (unat t) (le_store w)) @
        drop (nat r) (drop (unat t) (le_store w))"
      using d(2) e(2) by (simp add: add.commute)
    then show ?thesis using d step by (simp only: append_take_drop_id) auto
  next
    case False
    then have "\<not> t + of_int r < 4" using tot by (simp add: word_less_nat_alt)
    then have "write_size_loop sk w t = (True, e)"
      using wr r(1) by (subst write_size_loop.simps) simp
    then show ?thesis using e r(2) False by simp
  qed
qed

text \<open>The result: a returning loop has read four bytes or met an error.\<close>

lemma read_result_returns:
  assumes "read_result_loop conn mem t = Some r"
  shows "unat t < 4 \<longrightarrow> 4 - unat t \<le> length (src_bytes conn) \<or> src_error conn"
proof (rule read_result_loop.raw_induct
    [where P = "\<lambda>conn mem t r. unat t < 4 \<longrightarrow> 4 - unat t \<le> length (src_bytes conn) \<or> src_error conn",
      OF _ assms])
  fix f conn mem r and t :: u8
  assume IH: "\<And>conn mem t r. f conn mem t = Some r \<Longrightarrow>
      unat t < 4 \<longrightarrow> 4 - unat t \<le> length (src_bytes conn) \<or> src_error conn"
    and eq: "(case sys_read conn (4 - unat t) of
        (bytes_read, bs, conn') \<Rightarrow>
          if bytes_read < 0 then Some (Inl CLIENT_FAILURE)
          else if t + of_int bytes_read < 4
          then f conn' (overlay mem (unat t) bs) (t + of_int bytes_read)
          else Some (Inr (overlay mem (unat t) bs))) = Some r"
  show "unat t < 4 \<longrightarrow> 4 - unat t \<le> length (src_bytes conn) \<or> src_error conn"
  proof
    assume t: "unat t < 4"
    then have pos: "0 < 4 - unat t" by simp
    show "4 - unat t \<le> length (src_bytes conn) \<or> src_error conn"
    proof (cases rule: rs.rd_cases [OF pos, of conn])
      case 1
      then show ?thesis using eq IH [of conn "overlay mem (unat t) []" t r] t
        by (auto simp: src_end_def word_less_nat_alt split: if_splits)
    next
      case (2 k d)
      have tk: "unat (t + of_nat k) = unat t + k"
        using t 2(2) by (simp add: unat_word_ariths unsigned_of_nat take_bit_nat_eq_self)
      show ?thesis
      proof (cases "unat t + k < 4")
        case True
        then have "f d (overlay mem (unat t) (take k (src_bytes conn))) (t + of_nat k) = Some r"
          using eq 2(4) tk by (simp add: word_less_nat_alt)
        from IH [OF this] True tk 2(3,5,6) show ?thesis
          by (auto simp: src_end_def split: if_splits)
      next
        case False
        then have "4 - unat t \<le> length (src_bytes conn)" using 2(2,3) t by linarith
        then show ?thesis ..
      qed
    qed
  qed
qed

lemma read_result_data:
  assumes "length mem = 4" "unat t < 4" "4 - unat t \<le> length (src_bytes conn)"
  shows "read_result_loop conn mem t =
    Some (Inr (take (unat t) mem @ take (4 - unat t) (src_bytes conn)))"
  using assms
proof (induction "length (src_bytes conn)" arbitrary: conn mem t rule: less_induct)
  case less
  have pos: "0 < 4 - unat t" using less.prems by simp
  show ?case
  proof (cases rule: rs.rd_cases [OF pos, of conn])
    case 1
    then show ?thesis using less.prems by simp
  next
    case (2 k d)
    let ?bs = "take k (src_bytes conn)"
    let ?mem = "overlay mem (unat t) ?bs"
    have len: "length ?bs = k" using 2(3) by simp
    have tk: "unat (t + of_nat k) = unat t + k"
      using less.prems(2) 2(2) by (simp add: unat_word_ariths unsigned_of_nat take_bit_nat_eq_self)
    have mem: "length ?mem = 4"
      by (rule overlay_same) (use less.prems len 2(2) in auto)
    have pre: "take (unat t + k) ?mem = take (unat t) mem @ ?bs"
      using take_overlay [of "unat t" ?bs mem] less.prems len 2(2) by simp
    show ?thesis
    proof (cases "unat t + k < 4")
      case True
      have shorter: "length (src_bytes d) < length (src_bytes conn)" using 2 by simp
      have "read_result_loop conn mem t = read_result_loop d ?mem (t + of_nat k)"
        using 2(1,4) True tk by (subst read_result_loop.simps) (simp add: word_less_nat_alt)
      also have "\<dots> = Some (Inr (take (unat t + k) ?mem @ take (4 - (unat t + k)) (src_bytes d)))"
        using less.hyps [OF shorter mem, of "t + of_nat k"] tk True less.prems(3) 2(3,5) by simp
      also have "take (unat t + k) ?mem @ take (4 - (unat t + k)) (src_bytes d) =
          take (unat t) mem @ take (4 - unat t) (src_bytes conn)"
        using True by (simp add: pre 2(5) flip: take_add)
      finally show ?thesis .
    next
      case False
      then have k: "unat t + k = 4" using 2(2) less.prems(2) by simp
      have "read_result_loop conn mem t = Some (Inr ?mem)"
        using 2(1,4) False tk by (subst read_result_loop.simps) (simp add: word_less_nat_alt)
      moreover have "?mem = take (unat t) mem @ ?bs" using pre mem k by simp
      ultimately show ?thesis using k by (metis add_diff_cancel_left')
    qed
  qed
qed

end
