(* ===== verification/Pcc_Thms.thy ===== *)
theory Pcc_Thms
  imports Pcc_Machine Pcc_Client
begin

text \<open>
  The properties of the client and server of \<^verbatim>\<open>src/hw5_os\<close>, alone and together, with their
  witnesses on small concrete streams.
\<close>

section \<open>The server: one client\<close>

lemma serve_exact:
  assumes "server_ok s" "src_bytes (con_in c) = be_bytes n @ payload" "length payload = unat n"
    "\<forall>r \<in> set (snk_results (con_out c)). \<exists>k > 0. r = Some k"
  shows "\<exists>c' u. run_stmts 6 (Accepted c, s) = (Close_ok c', u) \<and>
    snk_sent (con_out c') = snk_sent (con_out c) @ be_bytes (of_nat (printables payload)) \<and>
    pcc_total u = add_counts (pcc_total s) (hist payload)"
proof -
  have "min (length payload) (unat n + 1023) < 2 ^ 32"
    using assms(3) unat_lt_32 [of n] by simp
  from serve_stream [OF assms(1,2) _ this] assms(3) obtain k d u where
    run: "run_stmts 4 (Accepted c, s) =
      (Send_counter (c\<lparr>con_in := d\<rparr>) (htonl (of_nat (printables (take k payload)))), u)"
    and k: "unat n \<le> k" "k \<le> length payload" and u: "receive_frame (s\<lparr>g_server_is_processing := True\<rparr>) u"
      "pcc_client u = map of_nat (hist (take k payload))"
    by auto
  have all: "take k payload = payload" using k assms(3) by simp
  obtain o' where o': "server_stmt (Send_counter (c\<lparr>con_in := d\<rparr>) (htonl (of_nat (printables payload)))) u =
      Some (Update_total (c\<lparr>con_in := d, con_out := o'\<rparr>), u)"
    "snk_sent o' = snk_sent (con_out c) @ be_bytes (of_nat (printables payload))"
    using send_reply_ok [of "c\<lparr>con_in := d\<rparr>" "of_nat (printables payload)" u] assms(4)
    by (auto simp del: server_stmt.simps)
  have six: "run_stmts 6 (Accepted c, s) = run_stmts 2 (run_stmts 4 (Accepted c, s))"
    by (simp add: numeral_eq_Suc split: option.split)
  have "run_stmts 6 (Accepted c, s) = (Close_ok (c\<lparr>con_in := d, con_out := o'\<rparr>), update_pcc_total u)"
    unfolding six run all using o'(1) by (simp add: numeral_2_eq_2 del: server_stmt.simps(7))
  moreover have "pcc_total (update_pcc_total u) = add_counts (pcc_total s) (hist payload)"
    using u add_total [OF receive_ok [OF u(1)]] by (simp add: all receive_frame_def)
  ultimately show ?thesis using o'(2) by auto
qed

text \<open>Claim C16. A client that announces \<open>n\<close> bytes and sends them is served correctly, however the
  network splits its bytes and the reply: the reply is the number of printable characters
  among them in network byte order, and the totals grow by exactly the number of occurrences
  of each printable character.\<close>

theorem server_serves_request:
  assumes "server_ok s" "src_bytes (con_in c) = be_bytes n @ payload" "length payload = unat n"
    "\<forall>r \<in> set (snk_results (con_out c)). \<exists>k > 0. r = Some k"
  shows "\<exists>c' u. run_stmts 6 (Accepted c, s) = (Close_ok c', u) \<and>
    snk_sent (con_out c') = snk_sent (con_out c) @ be_bytes (of_nat (printables payload)) \<and>
    (\<forall>i < 95. pcc_total u ! i = pcc_total s ! i + of_nat (count_list payload (32 + of_nat i)))"
  using serve_exact [OF assms] assms(1) by (auto simp: server_ok_def)

definition client_ab :: connection where
  "client_ab = \<lparr>con_in = \<lparr>src_bytes = [0, 0, 0, 3, 97, 10, 98], src_chunks = [1, 2, 1, 2], src_error = False\<rparr>,
     con_out = \<lparr>snk_sent = [], snk_results = [Some 1, Some 1], snk_epipe = False, snk_sigpipe = False\<rparr>\<rparr>"

lemma be_bytes_small: "be_bytes 3 = [0, 0, 0, 3]" "be_bytes 2 = [0, 0, 0, 2]" "be_bytes 0 = [0, 0, 0, 0]"
  "be_bytes 1 = [0, 0, 0, 1]"
  by (simp_all add: be_bytes_def le_store_def byte_of_def)

theorem server_serves_request_witness:
  "\<exists>c' u. run_stmts 6 (Accepted client_ab, server_start) = (Close_ok c', u) \<and>
     snk_sent (con_out c') = [0, 0, 0, 2]"
proof -
  have p: "printables [97, 10, 98] = 2" by (simp add: is_printable_unat)
  have "src_bytes (con_in client_ab) = be_bytes 3 @ [97, 10, 98]"
    by (simp add: client_ab_def be_bytes_small)
  from server_serves_request [OF server_start_ok this] show ?thesis
    unfolding p by (auto simp: client_ab_def be_bytes_small)
qed

text \<open>Claim C28. A client that sends more than it announced has surplus bytes counted too, but never
  more than one buffer of them: the bytes counted are a prefix of what arrived, at least the
  announced number and at most 1023 more.\<close>

theorem server_counts_bounds:
  assumes "server_ok s" "src_bytes (con_in c) = be_bytes n @ rest" "unat n \<le> length rest"
    "min (length rest) (unat n + 1023) < 2 ^ 32"
  shows "\<exists>k d u. run_stmts 4 (Accepted c, s) =
      (Send_counter (c\<lparr>con_in := d\<rparr>) (htonl (of_nat (printables (take k rest)))), u) \<and>
    unat n \<le> k \<and> k \<le> length rest \<and> k \<le> unat n + 1023 \<and>
    pcc_client u = map of_nat (hist (take k rest)) \<and> pcc_total u = pcc_total s"
  using serve_stream [OF assms] by (auto simp: receive_frame_def)

theorem server_counts_bounds_witness:
  "\<exists>k d u. run_stmts 4 (Accepted client_ab, server_start) =
      (Send_counter (client_ab\<lparr>con_in := d\<rparr>) (htonl (of_nat (printables (take k [97, 10, 98])))), u) \<and> k = 3"
proof -
  have "src_bytes (con_in client_ab) = be_bytes 3 @ [97, 10, 98]"
    by (simp add: client_ab_def be_bytes_small)
  from server_counts_bounds [OF server_start_ok this] show ?thesis by auto
qed

text \<open>Claim C27. A client whose connection breaks before its announced bytes arrived changes no
  total; but the server returns to the head of its loop with the processing flag still up.\<close>

theorem failed_client_keeps_totals:
  assumes "server_ok s" "broken_request (con_in c)"
  shows "\<exists>k u. run_stmts k (Accepted c, s) = (Loop_head, u) \<and> pcc_total u = pcc_total s \<and>
    g_server_is_running u = g_server_is_running s \<and> g_server_is_processing u"
  using failed_client_run [OF assms] by blast

definition client_gone :: connection where
  "client_gone = \<lparr>con_in = \<lparr>src_bytes = [0, 0], src_chunks = [], src_error = False\<rparr>,
     con_out = \<lparr>snk_sent = [], snk_results = [], snk_epipe = True, snk_sigpipe = False\<rparr>\<rparr>"

theorem failed_client_keeps_totals_witness:
  "\<exists>k u. run_stmts k (Accepted client_gone, server_start) = (Loop_head, u) \<and>
     pcc_total u = pcc_total server_start \<and> g_server_is_processing u"
  using failed_client_keeps_totals [OF server_start_ok, of client_gone]
  by (auto simp: broken_request_def client_gone_def)

section \<open>The server: all clients and signals\<close>

text \<open>Claim C3. In every state the server can reach, with \<^verbatim>\<open>SIGINT\<close> arriving at any moments and
  interrupting \<^verbatim>\<open>accept\<close> and \<^verbatim>\<open>read\<close>, the totals count exactly the streams of the clients that were
  served completely, and when the server has exited normally these are the counts it printed.\<close>

theorem totals_count_served_clients:
  assumes "srv_reach pc s cur served"
  shows "pcc_total s = map of_nat (hist (concat served)) \<and>
    (\<forall>code out. pc = Exited code out \<longrightarrow>
       (code = EXIT_SUCCESS \<and> out = Some (map of_nat (hist (concat served)))) \<or>
       (code = EXIT_FAILURE \<and> out = None))"
  using srv_reach_inv [OF assms] by (auto simp: srv_inv_def)

lemma reach_Tau:
  "srv_reach pc s cur served \<Longrightarrow> server_stmt pc s = Some (pc', s') \<Longrightarrow>
   srv_reach pc' s' (consumed pc pc' cur) (completed pc Tau cur served)"
  by (rule srv_reach.step, assumption, rule srv_step.stmt)

lemma reach_accept: "srv_reach In_accept server_start [] []"
  using reach_Tau [OF srv_reach.start, of In_accept server_start]
  by (simp add: server_start_def)

lemma reach_exit: "srv_reach (Exited EXIT_SUCCESS (Some (pcc_total server_start))) (server_start\<lparr>sigint_caught := False\<rparr>) [] []"
  using srv_reach.step [OF reach_accept srv_step.sigint, of "Exited EXIT_SUCCESS (Some (pcc_total server_start))"
      "server_start\<lparr>sigint_caught := False\<rparr>"]
  by (simp add: deliver_sigint_def sig_int_handler_def server_start_def server_init_def)

theorem totals_count_served_clients_witness:
  "pcc_total server_start = map of_nat (hist (concat []))"
  using totals_count_served_clients [OF reach_exit] by (simp add: server_start_def)

lemma sigint_serving:
  assumes "srv_reach pc s cur served" "in_body pc" "g_server_is_running s"
  shows "deliver_sigint pc s = (pc, s\<lparr>sigint_caught := False, g_server_is_running := False\<rparr>)"
proof -
  have "\<not> is_exited pc" using assms(2) by (cases pc) simp_all
  then show ?thesis
    using srv_reach_inv [OF assms(1)] assms(2,3) by (simp add: srv_inv_def deliver_sigint_def sig_int_handler_def)
qed

text \<open>The end of the server when the flag went down while a client was served.\<close>

lemma exit_after_client:
  assumes "run_stmts k (pc, s) = (Loop_head, s1)" "\<forall>j < k. in_body (fst (run_stmts j (pc, s)))"
    "is_exited (fst (run_stmts 10 (pc, halted s)))"
  shows "fst (run_stmts 10 (pc, halted s)) = Exited EXIT_SUCCESS (Some (pcc_total s1))"
proof -
  have "run_stmts (k + 2) (pc, halted s) = run_stmts 2 (Loop_head, halted s1)"
    unfolding run_stmts_add run_halted [OF assms(1,2)] ..
  also have "\<dots> = (Exited EXIT_SUCCESS (Some (pcc_total s1)), halted s1)"
    by (simp add: numeral_2_eq_2 halted_def)
  finally have two: "run_stmts (k + 2) (pc, halted s) = (Exited EXIT_SUCCESS (Some (pcc_total s1)), halted s1)" .
  then have "is_exited (fst (run_stmts (k + 2) (pc, halted s)))" by (simp only: fst_conv is_exited.simps)
  then have "run_stmts 10 (pc, halted s) = run_stmts (k + 2) (pc, halted s)"
    using run_stmts_stop [OF assms(3), of "k + 2"] run_stmts_stop [of "k + 2" "(pc, halted s)" 10]
    by (metis nat_le_linear)
  then show ?thesis by (simp only: two fst_conv)
qed

text \<open>The request of a client that is being read, from the size on, and the end of the server after it.\<close>

lemma serve_and_exit:
  assumes "server_ok s" "src_bytes (con_in c) = be_bytes n @ payload" "length payload = unat n"
    "\<forall>r \<in> set (snk_results (con_out c)). \<exists>k > 0. r = Some k" "g_server_is_processing s"
    "\<not> g_server_is_running s"
  shows "fst (run_stmts 10 (Read_size c, s)) = Exited EXIT_SUCCESS (Some (add_counts (pcc_total s) (hist payload)))"
proof -
  obtain c' u where run: "run_stmts 6 (Accepted c, s) = (Close_ok c', u)"
      "pcc_total u = add_counts (pcc_total s) (hist payload)"
    using serve_exact [OF assms(1-4)] by blast
  have "s\<lparr>g_server_is_processing := True\<rparr> = s" using assms(5) by simp
  then have five: "run_stmts 5 (Read_size c, s) = (Close_ok c', u)"
    using run(1) by (simp add: numeral_eq_Suc del: server_stmt.simps(4))
  have u: "\<not> g_server_is_running u" using run_stmts_running [OF five] assms(6) by simp
  have "run_stmts 10 (Read_size c, s) = run_stmts 5 (run_stmts 5 (Read_size c, s))"
    using run_stmts_add [of 5 5] by simp
  then show ?thesis unfolding five using u run(2) by (simp add: numeral_eq_Suc)
qed

text \<open>Claim C26. \<^verbatim>\<open>SIGINT\<close> while a client is being served, the first one.  When it arrives between two
  system calls the server exits within ten statements, without accepting another client and with
  the totals printed, unless it is killed because the client is gone when it replies.  It first
  goes on with its client as it would have done without the signal: the totals printed are those
  after this client, and a complete request that is about to be read is counted in them.  When
  the signal interrupts a blocked \<^verbatim>\<open>read\<close> the client is dropped: the server prints the totals of
  the clients served before and exits.\<close>

theorem sigint_while_serving:
  assumes "srv_reach pc s cur served" "in_body pc" "g_server_is_running s"
    "s' = s\<lparr>sigint_caught := False, g_server_is_running := False\<rparr>"
  shows "(\<forall>x. srv_step (pc, s) Sigint x \<longleftrightarrow> x = (pc, s')) \<and>
    (\<exists>u. run_stmts 10 (pc, s') = (Exited EXIT_SUCCESS (Some (pcc_total u)), u) \<or>
       run_stmts 10 (pc, s') = (Killed SIGPIPE, u)) \<and>
    (\<forall>k s1. run_stmts k (pc, s) = (Loop_head, s1) \<and> (\<forall>j < k. in_body (fst (run_stmts j (pc, s)))) \<longrightarrow>
       fst (run_stmts 10 (pc, s')) = Exited EXIT_SUCCESS (Some (pcc_total s1))) \<and>
    (\<forall>c n payload. pc = Read_size c \<and> src_bytes (con_in c) = be_bytes n @ payload \<and> length payload = unat n \<and>
       (\<forall>r \<in> set (snk_results (con_out c)). \<exists>k > 0. r = Some k) \<longrightarrow>
       fst (run_stmts 10 (pc, s')) = Exited EXIT_SUCCESS (Some (map of_nat (hist (concat served @ payload))))) \<and>
    (\<forall>k x. srv_step (pc, s) (Sigint_in_call k) x \<longrightarrow>
       fst (run_stmts 10 x) = Exited EXIT_SUCCESS (Some (map of_nat (hist (concat served)))))"
proof (intro conjI allI impI)
  note inv = srv_reach_inv [OF assms(1)]
  have ex: "\<not> is_exited pc" and pc: "pc \<noteq> In_accept" "rank pc \<le> 10" using assms(2) by (cases pc; simp)+
  have dl: "deliver_sigint pc s = (pc, s')"
    using sigint_serving [OF assms(1-3)] assms(4) by simp
  show "srv_step (pc, s) Sigint x \<longleftrightarrow> x = (pc, s')" for x using ex dl by (auto simp: srv_step_simps)
  show ends: "\<exists>u. run_stmts 10 (pc, s') = (Exited EXIT_SUCCESS (Some (pcc_total u)), u) \<or>
       run_stmts 10 (pc, s') = (Killed SIGPIPE, u)"
    using run_to_exit [of s' pc 10] pc ex assms(4) by simp
  show "fst (run_stmts 10 (pc, s')) = Exited EXIT_SUCCESS (Some (pcc_total s1))"
    if "run_stmts k (pc, s) = (Loop_head, s1) \<and> (\<forall>j < k. in_body (fst (run_stmts j (pc, s))))" for k s1
    using exit_after_client [of k pc s s1] that ends assms(4) by (auto simp: halted_def)
  show "fst (run_stmts 10 (pc, s')) = Exited EXIT_SUCCESS (Some (map of_nat (hist (concat served @ payload))))"
    if "pc = Read_size c \<and> src_bytes (con_in c) = be_bytes n @ payload \<and> length payload = unat n \<and>
       (\<forall>r \<in> set (snk_results (con_out c)). \<exists>k > 0. r = Some k)" for c n payload
    using serve_and_exit [of s' c n payload] that inv assms(2,4) by (simp add: srv_inv_def add_counts_map)
  show "fst (run_stmts 10 x) = Exited EXIT_SUCCESS (Some (map of_nat (hist (concat served))))"
    if "srv_step (pc, s) (Sigint_in_call k) x" for k x
  proof -
    obtain pc1 s1 where st: "interrupted_call k pc s = Some (pc1, s1)" "deliver_sigint pc1 s1 = x"
      using \<open>srv_step (pc, s) (Sigint_in_call k) x\<close> by (auto simp: srv_step_simps)
    obtain c where c: "pc1 = Close_err c" "g_server_is_running s1 = g_server_is_running s"
      using interrupted_running [OF st(1) pc(1)] by blast
    have inv1: "srv_inv pc1 s1 cur served" by (rule interrupted_inv [OF st(1) inv])
    then have "x = (Close_err c, s1\<lparr>sigint_caught := False, g_server_is_running := False\<rparr>)"
      using st(2) c assms(3) by (simp add: srv_inv_def deliver_sigint_def sig_int_handler_def)
    then show ?thesis using run_after_failure inv1 by (simp add: srv_inv_def)
  qed
qed

lemma reach_serving:
  "srv_reach (Read_size client_ab) (server_start\<lparr>g_server_is_processing := True\<rparr>) [] []"
proof -
  have "srv_reach (Accepted client_ab) server_start [] []"
    using srv_reach.step [OF reach_accept srv_step.accept [of server_start client_ab]] by simp
  from reach_Tau [OF this] show ?thesis by simp
qed

text \<open>The signal before the first \<^verbatim>\<open>read\<close>, and in a \<^verbatim>\<open>read\<close> after two bytes of the header.\<close>

theorem sigint_while_serving_witness:
  "fst (run_stmts 10 (Read_size client_ab,
       server_start\<lparr>g_server_is_processing := True, sigint_caught := False, g_server_is_running := False\<rparr>)) =
     Exited EXIT_SUCCESS (Some (map of_nat (hist [97, 10, 98]))) \<and>
   (\<exists>x. srv_step (Read_size client_ab, server_start\<lparr>g_server_is_processing := True\<rparr>) (Sigint_in_call 2) x \<and>
     fst (run_stmts 10 x) = Exited EXIT_SUCCESS (Some (map of_nat (hist []))))"
proof
  let ?s = "server_start\<lparr>g_server_is_processing := True\<rparr>"
  let ?s' = "?s\<lparr>sigint_caught := False, g_server_is_running := False\<rparr>"
  have run: "g_server_is_running ?s" by (simp add: server_start_def)
  have body: "in_body (Read_size client_ab)" by simp
  note serving = sigint_while_serving [OF reach_serving body run refl]
  have "src_bytes (con_in client_ab) = be_bytes 3 @ [97, 10, 98]" "length [97, 10, 98 :: u8] = unat (3 :: u32)"
    "\<forall>r \<in> set (snk_results (con_out client_ab)). \<exists>k > 0. r = Some k"
    by (simp_all add: client_ab_def be_bytes_small)
  then have "fst (run_stmts 10 (Read_size client_ab, ?s')) =
      Exited EXIT_SUCCESS (Some (map of_nat (hist (concat [] @ [97, 10, 98]))))"
    using serving by blast
  then show "fst (run_stmts 10 (Read_size client_ab,
       server_start\<lparr>g_server_is_processing := True, sigint_caught := False, g_server_is_running := False\<rparr>)) =
     Exited EXIT_SUCCESS (Some (map of_nat (hist [97, 10, 98])))"
    by simp
  obtain d where "read_stream_size_from_client (con_in (interrupt 2 client_ab)) = (None, d)"
    using read_header_short [of "con_in (interrupt 2 client_ab)"] by (auto simp: interrupt_def client_ab_def)
  then have "interrupted_call 2 (Read_size client_ab) ?s =
      Some (Close_err ((interrupt 2 client_ab)\<lparr>con_in := d\<rparr>), ?s)"
    by simp
  then obtain x where x: "srv_step (Read_size client_ab, ?s) (Sigint_in_call 2) x"
    using srv_step.sigint_in_call by (metis surj_pair)
  have "fst (run_stmts 10 x) = Exited EXIT_SUCCESS (Some (map of_nat (hist (concat []))))"
    using serving x by blast
  then show "\<exists>x. srv_step (Read_size client_ab, ?s) (Sigint_in_call 2) x \<and>
     fst (run_stmts 10 x) = Exited EXIT_SUCCESS (Some (map of_nat (hist [])))"
    using x by (intro exI [of _ x]) simp
qed

text \<open>\<^verbatim>\<open>SIGINT\<close> while the server waits for a client with the processing flag down prints
  the totals of all completed clients and exits at once.\<close>

theorem sigint_idle_exits:
  assumes "srv_reach In_accept s cur served" "\<not> g_server_is_processing s" "g_server_is_running s"
  shows "srv_step (In_accept, s) (Sigint_in_call k)
    (Exited EXIT_SUCCESS (Some (map of_nat (hist (concat served)))), s\<lparr>sigint_caught := False\<rparr>)"
  using srv_reach_inv [OF assms(1)] assms(2,3)
  by (simp add: srv_step_simps deliver_sigint_def sig_int_handler_def srv_inv_def)

text \<open>Claim C30. Broken connections lose the totals of all clients.  After a client whose connection
  broke before its request was complete, the server waits for the next one still marked as
  processing: a \<^verbatim>\<open>SIGINT\<close> that interrupts \<^verbatim>\<open>accept\<close> makes the server exit with a failure and
  without printing, and one just before \<^verbatim>\<open>accept\<close> leaves it blocked there, where the next
  \<^verbatim>\<open>SIGINT\<close> kills it.  A client whose connection is gone when its counter is sent kills the
  server at once.\<close>

theorem broken_connections_lose_totals:
  assumes "srv_reach (Accepted c) s cur served" "g_server_is_running s"
  shows "(broken_request (con_in c) \<longrightarrow>
      (\<exists>k u v. run_stmts k (Accepted c, s) = (In_accept, u) \<and> pcc_total u = map of_nat (hist (concat served)) \<and>
         (\<forall>j x. srv_step (In_accept, u) (Sigint_in_call j) x \<longleftrightarrow> x = (Exited EXIT_FAILURE None, v)) \<and>
         (\<forall>x. srv_step (In_accept, u) Sigint x \<longleftrightarrow> x = (In_accept, v)) \<and>
         server_stmt In_accept v = None \<and>
         (\<forall>x. srv_step (In_accept, v) Sigint x \<longleftrightarrow> x = (Killed SIGINT, v)) \<and>
         (\<forall>j x. srv_step (In_accept, v) (Sigint_in_call j) x \<longleftrightarrow> x = (Killed SIGINT, v)))) \<and>
    (\<forall>n payload rs. src_bytes (con_in c) = be_bytes n @ payload \<and> length payload = unat n \<and>
       snk_results (con_out c) = None # rs \<and> snk_epipe (con_out c) \<longrightarrow>
       fst (run_stmts 5 (Accepted c, s)) = Killed SIGPIPE)"
proof (intro conjI allI impI)
  note inv = srv_reach_inv [OF assms(1)]
  have ok: "server_ok s" "sigint_caught s" "pcc_total s = map of_nat (hist (concat served))"
    using inv assms(2) by (simp_all add: srv_inv_def)
  show "\<exists>k u v. run_stmts k (Accepted c, s) = (In_accept, u) \<and> pcc_total u = map of_nat (hist (concat served)) \<and>
         (\<forall>j x. srv_step (In_accept, u) (Sigint_in_call j) x \<longleftrightarrow> x = (Exited EXIT_FAILURE None, v)) \<and>
         (\<forall>x. srv_step (In_accept, u) Sigint x \<longleftrightarrow> x = (In_accept, v)) \<and>
         server_stmt In_accept v = None \<and>
         (\<forall>x. srv_step (In_accept, v) Sigint x \<longleftrightarrow> x = (Killed SIGINT, v)) \<and>
         (\<forall>j x. srv_step (In_accept, v) (Sigint_in_call j) x \<longleftrightarrow> x = (Killed SIGINT, v))"
    if br: "broken_request (con_in c)"
  proof -
    obtain k u where u: "run_stmts k (Accepted c, s) = (Loop_head, u)" "pcc_total u = pcc_total s"
      "g_server_is_running u" "g_server_is_processing u" "sigint_caught u"
      using failed_client_run [OF ok(1) br] ok(2) assms(2) by auto
    have "run_stmts (k + 1) (Accepted c, s) = (In_accept, u)"
      unfolding run_stmts_add u(1) using u(3) by simp
    then show ?thesis
      using u ok(3) by (intro exI [of _ "k + 1"] exI [of _ u]
          exI [of _ "u\<lparr>sigint_caught := False, g_server_is_running := False\<rparr>"])
        (auto simp: srv_step_simps deliver_sigint_def sig_int_handler_def)
  qed
  show "fst (run_stmts 5 (Accepted c, s)) = Killed SIGPIPE"
    if a: "src_bytes (con_in c) = be_bytes n @ payload \<and> length payload = unat n \<and>
       snk_results (con_out c) = None # rs \<and> snk_epipe (con_out c)" for n payload rs
  proof -
    have "min (length payload) (unat n + 1023) < 2 ^ 32" using a unat_lt_32 [of n] by simp
    from serve_stream [OF ok(1) _ _ this] a obtain d u p where
      run: "run_stmts 4 (Accepted c, s) = (Send_counter (c\<lparr>con_in := d\<rparr>) (htonl p), u)"
      by (metis le_refl)
    have "server_stmt (Send_counter (c\<lparr>con_in := d\<rparr>) (htonl p)) u = Some (Killed SIGPIPE, u)"
      using a by (simp add: send_printable_counter_to_client_def send_loop.simps sys_write_def)
    then show ?thesis using run_stmts_add [of 4 1 "(Accepted c, s)"] run by simp
  qed
qed

lemma reach_accepted: "srv_reach (Accepted c) server_start [] []"
  using srv_reach.step [OF reach_accept srv_step.accept [of server_start c]] by simp

definition client_late :: connection where
  "client_late = client_ab\<lparr>con_out := \<lparr>snk_sent = [], snk_results = [None], snk_epipe = True, snk_sigpipe = False\<rparr>\<rparr>"

theorem broken_connections_lose_totals_witness:
  "(\<exists>k u x. run_stmts k (Accepted client_gone, server_start) = (In_accept, u) \<and>
     srv_step (In_accept, u) (Sigint_in_call 0) x \<and> fst x = Exited EXIT_FAILURE None) \<and>
   fst (run_stmts 5 (Accepted client_late, server_start)) = Killed SIGPIPE"
proof
  have r: "g_server_is_running server_start" by (simp add: server_start_def)
  have "broken_request (con_in client_gone)" by (simp add: broken_request_def client_gone_def)
  then show "\<exists>k u x. run_stmts k (Accepted client_gone, server_start) = (In_accept, u) \<and>
     srv_step (In_accept, u) (Sigint_in_call 0) x \<and> fst x = Exited EXIT_FAILURE None"
    using broken_connections_lose_totals [OF reach_accepted r, of client_gone] by (metis fst_conv)
  have "src_bytes (con_in client_late) = be_bytes 3 @ [97, 10, 98]"
    "snk_results (con_out client_late) = [None]" "snk_epipe (con_out client_late)"
    by (simp_all add: client_late_def client_ab_def be_bytes_small)
  moreover have "length [97, 10, 98 :: u8] = unat (3 :: u32)" by simp
  ultimately show "fst (run_stmts 5 (Accepted client_late, server_start)) = Killed SIGPIPE"
    using broken_connections_lose_totals [OF reach_accepted r, of client_late] by blast
qed

section \<open>The client\<close>

definition client_ready :: "client_env \<Rightarrow> source \<Rightarrow> bool" where
  "client_ready e f \<longleftrightarrow>
     ce_argc e = 4 \<and> ce_file e = Some f \<and> ce_st_size e = Some (int (length (src_bytes f))) \<and>
     \<not> src_error f \<and> ce_socket_fd e \<ge> 0 \<and> ce_inet_pton e \<noteq> 0 \<and> ce_connect e \<ge> 0 \<and>
     None \<notin> set (snk_results (ce_out e))"

lemma sint_small: "n < 2 ^ 31 \<Longrightarrow> sint (of_nat n :: u32) = int n"
  by (simp add: signed_of_nat signed_take_bit_int_eq_self)

lemma sint_big:
  assumes "(w :: u32) \<ge> 2 ^ 31"
  shows "sint w < 0"
proof -
  have lo: "2 ^ 31 \<le> uint w" using assms by (simp add: word_le_def)
  have hi: "uint w < 2 ^ 32" using uint_lt2p [of w] by simp
  have "(uint w + 2 ^ 31) mod 2 ^ 32 = uint w + 2 ^ 31 - 2 ^ 32"
    using lo hi by (subst mod_pos_geq) simp_all
  then show ?thesis
    using hi by (simp add: sint_uint signed_take_bit_eq_take_bit_shift take_bit_eq_mod)
qed

lemma client_header_sent:
  assumes "client_ready e f"
  shows "\<exists>d. write_stream_size_to_server (ce_out e) (htonl (of_nat (length (src_bytes f)))) = (True, d) \<and>
    snk_sent d = snk_sent (ce_out e) @ be_bytes (of_nat (length (src_bytes f))) \<and> None \<notin> set (snk_results d)"
  using write_size_all [of "ce_out e" 0 "htonl (of_nat (length (src_bytes f)))"] assms
  by (simp add: client_ready_def write_stream_size_to_server_def)

lemma client_sends_all:
  assumes "client_ready e f" "length (src_bytes f) < 2 ^ 32"
  shows "snk_sent (fst (pcc_client_main e)) =
      snk_sent (ce_out e) @ be_bytes (of_nat (length (src_bytes f))) @
        (if length (src_bytes f) < 2 ^ 31 then src_bytes f else []) \<and>
    snd (pcc_client_main e) = map_option (map_sum id ntohl) (read_result_from_server (ce_in e))"
proof -
  let ?n = "of_nat (length (src_bytes f)) :: u32"
  let ?file = "if length (src_bytes f) < 2 ^ 31 then src_bytes f else []"
  obtain d where d: "write_stream_size_to_server (ce_out e) (htonl ?n) = (True, d)"
    "snk_sent d = snk_sent (ce_out e) @ be_bytes ?n" "None \<notin> set (snk_results d)"
    using client_header_sent [OF assms(1)] by blast
  have "\<exists>d'. write_file_to_socket d f ?n = (True, d') \<and> snk_sent d' = snk_sent d @ ?file"
  proof (cases "length (src_bytes f) < 2 ^ 31")
    case True
    then show ?thesis
      using write_file_all [OF d(3), of f 0 ?n] sint_small [OF True] assms(1)
      by (auto simp: write_file_to_socket_def client_ready_def)
  next
    case False
    then have "?n \<ge> 2 ^ 31" using assms(2) by (simp add: word_le_nat_alt unsigned_of_nat take_bit_nat_eq_self)
    then show ?thesis
      using write_file_nothing [of ?n 0] sint_big [of ?n] False by (simp add: write_file_to_socket_def)
  qed
  then obtain d' where d': "write_file_to_socket d f ?n = (True, d')" "snk_sent d' = snk_sent d @ ?file" by blast
  show ?thesis
    using assms(1) d d' by (simp add: pcc_client_main_def client_ready_def input_file_length_def)
qed

lemma client_sends:
  assumes "client_ready e f" "length (src_bytes f) < 2 ^ 31"
  shows "snk_sent (fst (pcc_client_main e)) =
      snk_sent (ce_out e) @ be_bytes (of_nat (length (src_bytes f))) @ src_bytes f \<and>
    snd (pcc_client_main e) = map_option (map_sum id ntohl) (read_result_from_server (ce_in e))"
  using client_sends_all [OF assms(1)] assms(2) by simp

text \<open>Claim C29. A client whose calls succeed announces the size of its file in network byte order,
  for every size of 32 bits.  If the file has less than \<open>2^31\<close> bytes it then sends exactly the
  bytes of the file, however its reads and writes are split.  Of a larger file it sends nothing: as
  an \<^verbatim>\<open>int\<close> its size is negative, and the loop that sends the file is not entered.  In both cases
  it then waits for the result.\<close>

theorem client_sends_file:
  assumes "client_ready e f" "length (src_bytes f) < 2 ^ 32"
  shows "snk_sent (fst (pcc_client_main e)) =
      snk_sent (ce_out e) @ be_bytes (of_nat (length (src_bytes f))) @
        (if length (src_bytes f) < 2 ^ 31 then src_bytes f else []) \<and>
    snd (pcc_client_main e) = map_option (map_sum id ntohl) (read_result_from_server (ce_in e))"
  by (rule client_sends_all [OF assms])

definition file_ab :: source where
  "file_ab = \<lparr>src_bytes = [97, 10, 98], src_chunks = [2], src_error = False\<rparr>"

definition env_ab :: client_env where
  "env_ab = \<lparr>ce_argc = 4, ce_file = Some file_ab, ce_st_size = Some 3, ce_socket_fd = 4,
     ce_inet_pton = 1, ce_connect = 0,
     ce_in = \<lparr>src_bytes = [0, 0], src_chunks = [1], src_error = False\<rparr>,
     ce_out = \<lparr>snk_sent = [], snk_results = [Some 3, Some 0, Some 1], snk_epipe = False, snk_sigpipe = False\<rparr>\<rparr>"

lemma env_ab_ready: "client_ready env_ab file_ab"
  by (simp add: client_ready_def env_ab_def file_ab_def)

definition file_big :: source where
  "file_big = \<lparr>src_bytes = replicate (2 ^ 31) 65, src_chunks = [], src_error = False\<rparr>"

lemma be_bytes_2_31: "be_bytes (2 ^ 31) = [128, 0, 0, 0]"
  by (simp add: be_bytes_def le_store_def byte_of_def)

text \<open>A small file, and one of two gigabytes.\<close>

theorem client_sends_file_witness:
  "snk_sent (fst (pcc_client_main env_ab)) = [0, 0, 0, 3, 97, 10, 98] \<and>
   snk_sent (fst (pcc_client_main (env_ab\<lparr>ce_file := Some file_big, ce_st_size := Some (2 ^ 31)\<rparr>))) =
     [128, 0, 0, 0]"
proof
  show "snk_sent (fst (pcc_client_main env_ab)) = [0, 0, 0, 3, 97, 10, 98]"
    using client_sends_file [OF env_ab_ready] by (simp add: file_ab_def env_ab_def be_bytes_small)
  have len: "length (src_bytes file_big) = 2 ^ 31" by (simp add: file_big_def)
  have "client_ready (env_ab\<lparr>ce_file := Some file_big, ce_st_size := Some (2 ^ 31)\<rparr>) file_big"
    using len by (simp add: client_ready_def env_ab_def) (simp add: file_big_def)
  from client_sends_file [OF this] show
    "snk_sent (fst (pcc_client_main (env_ab\<lparr>ce_file := Some file_big, ce_st_size := Some (2 ^ 31)\<rparr>))) = [128, 0, 0, 0]"
    unfolding len using be_bytes_2_31 by (simp add: env_ab_def)
qed

lemma read_result_be:
  assumes "src_bytes conn = be_bytes w @ rest"
  shows "read_result_from_server conn = Some (Inr (le_load (be_bytes w)))"
proof -
  have "read_result_loop conn (replicate 4 0) 0 = Some (Inr (take 4 (src_bytes conn)))"
    using read_result_data [of "replicate 4 0" 0 conn] assms by simp
  then show ?thesis using assms by (simp add: read_result_from_server_def)
qed

text \<open>Claim C7. Client and server together, for a file of less than \<open>2^31\<close> bytes and calls that
  succeed: when the server serves a connection whose request is what the client wrote, and the
  client reads what the server replied, the client prints the number of printable characters of
  its file.  For larger files see \<open>client_sends_file\<close>.\<close>

theorem client_prints_count:
  assumes "client_ready e f" "length (src_bytes f) < 2 ^ 31" "snk_sent (ce_out e) = []"
    "server_ok s" "src_bytes (con_in c) = snk_sent (fst (pcc_client_main e))" "snk_sent (con_out c) = []"
    "\<forall>r \<in> set (snk_results (con_out c)). \<exists>k > 0. r = Some k"
  shows "\<exists>c' u. run_stmts 6 (Accepted c, s) = (Close_ok c', u) \<and>
    (\<forall>conn. src_bytes conn = snk_sent (con_out c') \<longrightarrow>
       snd (pcc_client_main (e\<lparr>ce_in := conn\<rparr>)) = Some (Inr (of_nat (printables (src_bytes f)))))"
proof -
  let ?n = "of_nat (length (src_bytes f)) :: u32"
  have bytes: "src_bytes (con_in c) = be_bytes ?n @ src_bytes f"
    using client_sends [OF assms(1,2)] assms(3,5) by simp
  have "length (src_bytes f) = unat ?n"
    using assms(2) by (simp add: unsigned_of_nat take_bit_nat_eq_self)
  from serve_exact [OF assms(4) bytes this assms(7)] obtain c' u where
    run: "run_stmts 6 (Accepted c, s) = (Close_ok c', u)"
    and reply: "snk_sent (con_out c') = be_bytes (of_nat (printables (src_bytes f)))"
    using assms(6) by auto
  have "snd (pcc_client_main (e\<lparr>ce_in := conn\<rparr>)) = Some (Inr (of_nat (printables (src_bytes f))))"
    if "src_bytes conn = snk_sent (con_out c')" for conn
  proof -
    have "client_ready (e\<lparr>ce_in := conn\<rparr>) f" using assms(1) by (simp add: client_ready_def)
    then show ?thesis
      using client_sends [of "e\<lparr>ce_in := conn\<rparr>" f] assms(2) that reply
        read_result_be [of conn "of_nat (printables (src_bytes f))" "[]"] by simp
  qed
  with run show ?thesis by blast
qed

theorem client_prints_count_witness:
  "\<exists>c' u. run_stmts 6 (Accepted client_ab, server_start) = (Close_ok c', u) \<and>
     (\<forall>conn. src_bytes conn = snk_sent (con_out c') \<longrightarrow>
        snd (pcc_client_main (env_ab\<lparr>ce_in := conn\<rparr>)) = Some (Inr 2))"
proof -
  have p: "printables (src_bytes file_ab) = 2" by (simp add: file_ab_def is_printable_unat)
  have "src_bytes (con_in client_ab) = snk_sent (fst (pcc_client_main env_ab))"
    using client_sends [OF env_ab_ready] by (simp add: client_ab_def file_ab_def env_ab_def be_bytes_small)
  from client_prints_count [OF env_ab_ready _ _ server_start_ok this] show ?thesis
    unfolding p by (auto simp: client_ab_def env_ab_def file_ab_def)
qed

text \<open>Claim C31. A client whose server closes the connection before all four bytes of the reply came
  never returns: the loop takes the end of the connection for a read of no bytes and calls
  \<^verbatim>\<open>read\<close> again for ever.\<close>

theorem client_spins_on_closed_connection:
  assumes "client_ready e f" "length (src_bytes f) < 2 ^ 31"
    "length (src_bytes (ce_in e)) < 4" "\<not> src_error (ce_in e)"
  shows "snd (pcc_client_main e) = None"
proof -
  have "read_result_loop (ce_in e) (replicate 4 0) 0 = None"
    using read_result_returns [of "ce_in e" "replicate 4 0" 0] assms(3,4)
    by (cases "read_result_loop (ce_in e) (replicate 4 0) 0") auto
  then show ?thesis using client_sends [OF assms(1,2)] by (simp add: read_result_from_server_def)
qed

theorem client_spins_on_closed_connection_witness: "snd (pcc_client_main env_ab) = None"
  by (rule client_spins_on_closed_connection [OF env_ab_ready]) (simp_all add: env_ab_def file_ab_def)

end
