(* ===== verification/Pcc_Setup.thy ===== *)
theory Pcc_Setup
  imports Pcc_Machine "HOL-Library.Sublist"
begin

text \<open>
  The ends of \<^verbatim>\<open>main\<close> in \<^verbatim>\<open>src/hw5_os/pcc_server.c\<close>: the checks and the listening socket before the
  server loop, and the text that \<^verbatim>\<open>print_pcc_total\<close> writes after it, with the decimal numbers of
  \<^verbatim>\<open>printf\<close> and \<^verbatim>\<open>atoi\<close>, which are inverse to each other.
\<close>

section \<open>Decimal numbers\<close>

definition is_space :: "char \<Rightarrow> bool" where
  "is_space c \<longleftrightarrow> c = CHR '' '' \<or> 9 \<le> (of_char c :: nat) \<and> (of_char c :: nat) \<le> 13"

definition is_digit :: "char \<Rightarrow> bool" where
  "is_digit c \<longleftrightarrow> 48 \<le> (of_char c :: nat) \<and> (of_char c :: nat) \<le> 57"

definition digits_value :: "string \<Rightarrow> nat" where
  "digits_value ds = fold (\<lambda>c v. 10 * v + (of_char c - 48)) ds 0"

text \<open>Without the overflow, which C leaves undefined.\<close>

definition atoi :: "string \<Rightarrow> int" where
  "atoi str =
     (let s1 = dropWhile is_space str;
          s2 = (case s1 of [] \<Rightarrow> [] | c # cs \<Rightarrow> if c = CHR ''-'' \<or> c = CHR ''+'' then cs else s1);
          v = int (digits_value (takeWhile is_digit s2))
      in if prefix ''-'' s1 then - v else v)"

fun decimal :: "nat \<Rightarrow> string" where
  "decimal n = (if n < 10 then [char_of (48 + n)] else decimal (n div 10) @ [char_of (48 + n mod 10)])"

declare decimal.simps [simp del]

lemma of_digit: "d < 10 \<Longrightarrow> of_char (char_of (48 + d) :: char) = (48 + d :: nat)"
  by simp

lemma decimal_digits: "\<forall>c \<in> set (decimal n). is_digit c"
proof (induction n rule: decimal.induct)
  case (1 n)
  then show ?case by (subst decimal.simps) (auto simp: is_digit_def)
qed

lemma decimal_value: "digits_value (decimal n) = n"
proof (induction n rule: decimal.induct)
  case (1 n)
  show ?case
  proof (cases "n < 10")
    case True
    then show ?thesis by (subst decimal.simps) (simp add: digits_value_def)
  next
    case False
    then show ?thesis using 1 by (subst decimal.simps) (simp add: digits_value_def)
  qed
qed

lemma decimal_not_empty: "decimal n \<noteq> []"
  by (subst decimal.simps) simp

lemma digit_plain: "is_digit c \<Longrightarrow> \<not> is_space c \<and> c \<noteq> CHR ''-'' \<and> c \<noteq> CHR ''+''"
  by (auto simp: is_digit_def is_space_def)

lemma atoi_decimal: "atoi (decimal n) = int n"
proof -
  obtain c cs where d: "decimal n = c # cs" using decimal_not_empty by (cases "decimal n") auto
  have c: "\<not> is_space c" "c \<noteq> CHR ''-''" "c \<noteq> CHR ''+''"
    using digit_plain decimal_digits [of n] d by auto
  have "dropWhile is_space (decimal n) = decimal n" using d c by simp
  moreover have "takeWhile is_digit (decimal n) = decimal n" using decimal_digits by (simp add: takeWhile_eq_all_conv)
  ultimately show ?thesis using decimal_value [of n] c by (simp add: atoi_def Let_def d)
qed

section \<open>Printing the totals\<close>

definition total_line :: "nat \<Rightarrow> u32 \<Rightarrow> string" where
  "total_line i count =
     ''char '' @ [CHR 0x27, char_of (i + unat MIN_PRINTABLE_CHAR), CHR 0x27] @ '' : '' @ decimal (unat count) @
     '' times'' @ [CHR 0x0A]"

definition print_pcc_total :: "server \<Rightarrow> string" where
  "print_pcc_total s = concat (map (\<lambda>i. total_line i (pcc_total s ! i)) [0..<PRINABLE_CHARS_AMOUNT])"

text \<open>The count on a line can be read back.\<close>

lemma total_line_count:
  "atoi (takeWhile is_digit (drop 11 (total_line i count))) = int (unat count)"
proof -
  have "drop 11 (total_line i count) = decimal (unat count) @ '' times'' @ [CHR 0x0A]"
    by (simp add: total_line_def)
  moreover have "takeWhile is_digit (decimal (unat count) @ '' times'' @ [CHR 0x0A]) = decimal (unat count)"
    using decimal_digits by (simp add: takeWhile_append is_digit_def)
  ultimately show ?thesis by (simp only: atoi_decimal)
qed

section \<open>The listening socket\<close>

text \<open>The answers of the system.\<close>

record net =
  socket_ok :: bool
  setsockopt_ok :: bool
  bind_ok :: "u16 \<Rightarrow> bool"
  listen_ok :: bool

definition htons :: "u16 \<Rightarrow> u16" where
  "htons x = push_bit 8 x OR drop_bit 8 x"

text \<open>\<^verbatim>\<open>main\<close> up to its loop: it returns \<open>FAILURE\<close>, or starts the loop with the port, in network
  order, that the socket is bound to.\<close>

definition server_setup :: "net \<Rightarrow> string list \<Rightarrow> int + u16 \<times> pc \<times> server" where
  "server_setup n argv =
     (if length argv \<noteq> 2 then Inl EXIT_FAILURE
      else
        let server_port = word_of_int (atoi (argv ! 1)) :: u16
        in if \<not> socket_ok n then Inl EXIT_FAILURE
           else if \<not> setsockopt_ok n then Inl EXIT_FAILURE
           else if \<not> bind_ok n (htons server_port) then Inl EXIT_FAILURE
           else if \<not> listen_ok n then Inl EXIT_FAILURE
           else Inr (htons server_port, Loop_head, server_start))"

lemma htons_involution: "htons (htons x) = x"
  by (rule bit_word_eqI) (auto simp: htons_def bit_simps)

lemma server_setup_port:
  assumes "length argv = 2" "argv ! 1 = decimal p" "p < 65536" "socket_ok n" "setsockopt_ok n" "listen_ok n"
    "bind_ok n (htons (word_of_nat p))"
  shows "server_setup n argv = Inr (htons (word_of_nat p), Loop_head, server_start)"
  using assms by (simp add: server_setup_def atoi_decimal)

end
