(* ===== verification/Slot_Heap.thy ===== *)
theory Slot_Heap
  imports Prelude
begin

text \<open>
  The kernel memory that the driver of \<^verbatim>\<open>src/hw3_os/message_slot.c\<close> works on: message slots,
  channels and message buffers in three typed heaps, the allocator of the kernel as a
  parameter, and copying from and to user space.
\<close>

section \<open>Data\<close>

record msg_slot_channel_t =
  msg_buffer :: ptr
  curr_msg_len :: u32
  ch_id :: u64
  active :: u32
  ch_next :: ptr

text \<open>A \<^verbatim>\<open>msg_slot_t\<close> holds only the head of its list of channels.\<close>

record kernel =
  g_msg_slots :: "ptr list"
  slot_heap :: "ptr \<rightharpoonup> ptr"
  chan_heap :: "ptr \<rightharpoonup> msg_slot_channel_t"
  buf_heap :: "ptr \<rightharpoonup> u8 list"
  n_allocs :: nat                        \<comment> \<open>how often the allocator was called\<close>

datatype kfault =
    Null_deref
  | Wild_deref       \<comment> \<open>access to, or \<open>kfree\<close> of, memory that is not allocated\<close>
  | Overrun          \<comment> \<open>access beyond the end of a buffer\<close>
  | Diverges         \<comment> \<open>a loop that does not end\<close>

definition live :: "kernel \<Rightarrow> ptr \<Rightarrow> bool" where
  "live s p \<longleftrightarrow> slot_heap s p \<noteq> None \<or> chan_heap s p \<noteq> None \<or> buf_heap s p \<noteq> None"

definition get_slot :: "kernel \<Rightarrow> ptr \<Rightarrow> kfault + ptr" where
  "get_slot s p =
     (if p = NULL then Inl Null_deref
      else case slot_heap s p of None \<Rightarrow> Inl Wild_deref | Some h \<Rightarrow> Inr h)"

definition get_chan :: "kernel \<Rightarrow> ptr \<Rightarrow> kfault + msg_slot_channel_t" where
  "get_chan s p =
     (if p = NULL then Inl Null_deref
      else case chan_heap s p of None \<Rightarrow> Inl Wild_deref | Some c \<Rightarrow> Inr c)"

definition put_chan ::
  "ptr \<Rightarrow> (msg_slot_channel_t \<Rightarrow> msg_slot_channel_t) \<Rightarrow> kernel \<Rightarrow> kfault + kernel" where
  "put_chan p f s = bindE (get_chan s p) (\<lambda>c. Inr (s\<lparr>chan_heap := (chan_heap s)(p \<mapsto> f c)\<rparr>))"

section \<open>The allocator\<close>

text \<open>
  \<^verbatim>\<open>kmalloc\<close> and \<^verbatim>\<open>krealloc\<close> are parameters: the address each call returns (\<^const>\<open>NULL\<close> when it
  fails) and the bytes found in fresh memory may depend on everything that happened before.
  Documented behaviour: a new object overlaps no live object; \<^verbatim>\<open>krealloc\<close> returns the old address
  or a new object.  On success it keeps the contents up to the smaller of both sizes and frees
  the old object; on failure the old object is left alone.
\<close>

record kenv =
  kmalloc_at :: "kernel \<Rightarrow> nat \<Rightarrow> ptr"
  krealloc_at :: "kernel \<Rightarrow> ptr \<Rightarrow> nat \<Rightarrow> ptr"
  junk_byte :: "kernel \<Rightarrow> nat \<Rightarrow> u8"
  junk_len :: "kernel \<Rightarrow> u32"

definition kmem_contract :: "kenv \<Rightarrow> bool" where
  "kmem_contract ke \<longleftrightarrow>
     (\<forall>s n. kmalloc_at ke s n = NULL \<or> \<not> live s (kmalloc_at ke s n)) \<and>
     (\<forall>s p n. krealloc_at ke s p n = NULL \<or> krealloc_at ke s p n = p \<or> \<not> live s (krealloc_at ke s p n))"

abbreviation tick :: "kernel \<Rightarrow> kernel" where
  "tick s \<equiv> s\<lparr>n_allocs := Suc (n_allocs s)\<rparr>"

definition kmalloc_buf :: "kenv \<Rightarrow> nat \<Rightarrow> kernel \<Rightarrow> ptr \<times> kernel" where
  "kmalloc_buf ke n s =
     (let p = kmalloc_at ke s n
      in (p, if p = NULL then tick s
             else (tick s)\<lparr>buf_heap := (buf_heap s)(p \<mapsto> map (junk_byte ke s) [0..<n])\<rparr>))"

definition krealloc :: "kenv \<Rightarrow> ptr \<Rightarrow> nat \<Rightarrow> kernel \<Rightarrow> kfault + ptr \<times> kernel" where
  "krealloc ke p n s =
     (if p = NULL then Inr (kmalloc_buf ke n s)
      else case buf_heap s p of
        None \<Rightarrow> Inl Wild_deref
      | Some old \<Rightarrow>
          let q = krealloc_at ke s p n
          in Inr (q, if q = NULL then tick s
                     else (tick s)\<lparr>buf_heap := (buf_heap s)
                            (p := None, q := Some (take n old @ map (junk_byte ke s) [length old..<n]))\<rparr>))"

definition kfree :: "ptr \<Rightarrow> kernel \<Rightarrow> kfault + kernel" where
  "kfree p s =
     (if p = NULL then Inr s
      else if live s p then
        Inr (s\<lparr>slot_heap := (slot_heap s)(p := None), chan_heap := (chan_heap s)(p := None),
               buf_heap := (buf_heap s)(p := None)\<rparr>)
      else Inl Wild_deref)"

section \<open>User space\<close>

text \<open>
  \<open>copy_from_user dst u_bytes n s\<close>: \<open>u_bytes\<close> are the bytes that can be fetched at the user's
  address.  What cannot be fetched is filled with zeros, and the number of bytes not copied is
  returned.
\<close>

definition copy_from_user :: "ptr \<Rightarrow> u8 list \<Rightarrow> nat \<Rightarrow> kernel \<Rightarrow> kfault + nat \<times> kernel" where
  "copy_from_user dst u_bytes n s =
     (if dst = NULL then Inl Null_deref
      else case buf_heap s dst of
        None \<Rightarrow> Inl Wild_deref
      | Some old \<Rightarrow>
          if length old < n then Inl Overrun
          else Inr (n - length u_bytes,
                    s\<lparr>buf_heap := (buf_heap s)
                        (dst \<mapsto> take n u_bytes @ replicate (n - length u_bytes) 0 @ drop n old)\<rparr>))"

text \<open>
  \<open>copy_to_user room src n s\<close>: \<open>room\<close> bytes can be stored at the user's address; the result is
  the number of bytes not copied and the bytes that were stored there.
\<close>

definition copy_to_user :: "nat \<Rightarrow> ptr \<Rightarrow> nat \<Rightarrow> kernel \<Rightarrow> kfault + nat \<times> u8 list" where
  "copy_to_user room src n s =
     (if src = NULL then Inl Null_deref
      else case buf_heap s src of
        None \<Rightarrow> Inl Wild_deref
      | Some bs \<Rightarrow>
          if length bs < n then Inl Overrun
          else Inr (n - room, take (min room n) bs))"

section \<open>Lists of channels\<close>

text \<open>The addresses on the list that starts at \<open>p\<close>; undefined for a list that does not end in \<^const>\<open>NULL\<close>.\<close>

partial_function (option) chan_list :: "(ptr \<rightharpoonup> msg_slot_channel_t) \<Rightarrow> ptr \<Rightarrow> ptr list option" where
  "chan_list h p =
     (if p = NULL then Some []
      else case h p of
        None \<Rightarrow> None
      | Some c \<Rightarrow> Option.bind (chan_list h (ch_next c)) (\<lambda>ps. Some (p # ps)))"

lemma chan_list_NULL [simp]: "chan_list h NULL = Some []"
  by (subst chan_list.simps) simp

lemma chan_list_Nil: "chan_list h p = Some [] \<longleftrightarrow> p = NULL"
  by (subst chan_list.simps) (auto split: option.splits simp: Option.bind_eq_Some_conv)

lemma chan_list_Cons:
  "chan_list h p = Some (q # qs) \<longleftrightarrow>
   p \<noteq> NULL \<and> q = p \<and> (\<exists>c. h p = Some c \<and> chan_list h (ch_next c) = Some qs)"
  by (subst chan_list.simps) (auto split: option.splits simp: Option.bind_eq_Some_conv)

lemma chan_list_step: "p \<noteq> NULL \<Longrightarrow> h p = Some c \<Longrightarrow> chan_list h (ch_next c) = Some ps \<Longrightarrow>
    chan_list h p = Some (p # ps)"
  by (simp add: chan_list_Cons)

lemma chan_list_set: "chan_list h p = Some ps \<Longrightarrow> NULL \<notin> set ps \<and> set ps \<subseteq> dom h"
  by (induction ps arbitrary: p) (auto simp: chan_list_Cons)

text \<open>Frame rules.\<close>

lemma chan_list_frame:
  assumes "chan_list h p = Some ps" "\<And>q. q \<in> set ps \<Longrightarrow> map_option ch_next (h' q) = map_option ch_next (h q)"
  shows "chan_list h' p = Some ps"
  using assms
proof (induction ps arbitrary: p)
  case Nil
  then show ?case by (simp add: chan_list_Nil)
next
  case (Cons q qs)
  then obtain c where c: "p \<noteq> NULL" "q = p" "h p = Some c" "chan_list h (ch_next c) = Some qs"
    by (auto simp: chan_list_Cons)
  then obtain c' where "h' p = Some c'" "ch_next c' = ch_next c"
    using Cons.prems(2) [of p] by auto
  then show ?case using c Cons.IH [OF c(4)] Cons.prems(2) by (simp add: chan_list_Cons)
qed

lemma chan_list_upd_other:
  "chan_list h p = Some ps \<Longrightarrow> q \<notin> set ps \<Longrightarrow> chan_list (h(q := x)) p = Some ps"
  by (erule chan_list_frame) auto

lemma chan_list_upd_same_next:
  "chan_list h p = Some ps \<Longrightarrow> h q = Some c \<Longrightarrow> ch_next c' = ch_next c \<Longrightarrow>
   chan_list (h(q \<mapsto> c')) p = Some ps"
  by (erule chan_list_frame) auto

end
