(* ===== verification/Message_Slot.thy ===== *)
theory Message_Slot
  imports Slot_Heap
begin

text \<open>
  The driver \<^verbatim>\<open>src/hw3_os/message_slot.c\<close>: its operations, the invariant of its data
  structures, the abstract state (one message per minor and channel id) and what every
  operation does to it, failures of the allocator and of the user's memory included.
\<close>

section \<open>Constants\<close>

definition SUCCESS :: int where
  "SUCCESS = 0"

definition FAILURE :: int where
  "FAILURE = -1"

definition MAX_BUF_LEN :: u64 where
  "MAX_BUF_LEN = 128"

definition MAX_MINORS_AMOUNT :: nat where
  "MAX_MINORS_AMOUNT = 256"

definition MAJOR_NUM :: u32 where
  "MAJOR_NUM = 240"

text \<open>\<^verbatim>\<open>_IOW(type, nr, unsigned long)\<close> of \<^verbatim>\<open>linux/ioctl.h\<close>: direction, size, type and number.\<close>

definition MSG_SLOT_CHANNEL :: u32 where
  "MSG_SLOT_CHANNEL = push_bit 30 1 OR push_bit 16 8 OR push_bit 8 MAJOR_NUM OR 0"

definition EAGAIN :: int where "EAGAIN = 11"
definition ENOMEM :: int where "ENOMEM = 12"
definition EFAULT :: int where "EFAULT = 14"
definition EINVAL :: int where "EINVAL = 22"
definition ENOSPC :: int where "ENOSPC = 28"
definition EMSGSIZE :: int where "EMSGSIZE = 90"

definition EWOULDBLOCK :: int where
  "EWOULDBLOCK = EAGAIN"

lemmas errnos = EAGAIN_def ENOMEM_def EFAULT_def EINVAL_def ENOSPC_def EMSGSIZE_def EWOULDBLOCK_def
  SUCCESS_def FAILURE_def

text \<open>\<^verbatim>\<open>sizeof\<close> of the two structures.\<close>

definition sizeof_channel :: nat where
  "sizeof_channel = 40"

definition sizeof_slot :: nat where
  "sizeof_slot = 8"

section \<open>Lists of channels\<close>

text \<open>The second argument of \<^verbatim>\<open>add_channel_to_msg_slot\<close> is the address of the head in a slot.\<close>

definition add_channel_to_msg_slot :: "kenv \<Rightarrow> ptr \<Rightarrow> u64 \<Rightarrow> kernel \<Rightarrow> kfault + int \<times> kernel" where
  "add_channel_to_msg_slot ke slot channel_id s =
     (let new_channel = kmalloc_at ke s sizeof_channel
      in if new_channel = NULL then Inr (- ENOMEM, tick s)
         else
           bindE (get_slot s slot) (\<lambda>head.
             Inr (SUCCESS, (tick s)\<lparr>
               chan_heap := (chan_heap s)(new_channel \<mapsto>
                 \<lparr>msg_buffer = NULL, curr_msg_len = junk_len ke s, ch_id = channel_id,
                  active = 0, ch_next = head\<rparr>),
               slot_heap := (slot_heap s)(slot \<mapsto> new_channel)\<rparr>)))"

partial_function (option) find_channel :: "kernel \<Rightarrow> ptr \<Rightarrow> u64 \<Rightarrow> (kfault + ptr) option" where
  "find_channel s tmp channel_id =
     (if tmp \<noteq> NULL then
        case chan_heap s tmp of
          None \<Rightarrow> Some (Inl Wild_deref)
        | Some c \<Rightarrow>
            if ch_id c = channel_id then Some (Inr tmp)
            else find_channel s (ch_next c) channel_id
      else Some (Inr NULL))"

partial_function (option) free_channel_lst :: "ptr \<Rightarrow> kernel \<Rightarrow> (kfault + kernel) option" where
  "free_channel_lst head s =
     (if head \<noteq> NULL then
        case chan_heap s head of
          None \<Rightarrow> Some (Inl Wild_deref)
        | Some c \<Rightarrow>
            (case bindE (if active c \<noteq> 0 then kfree (msg_buffer c) s else Inr s) (kfree head) of
               Inl e \<Rightarrow> Some (Inl e)
             | Inr s' \<Rightarrow> free_channel_lst (ch_next c) s')
      else Some (Inr s))"

definition unless_diverging :: "(kfault + 'a) option \<Rightarrow> kfault + 'a" where
  "unless_diverging r = (case r of None \<Rightarrow> Inl Diverges | Some x \<Rightarrow> x)"

section \<open>Device functions\<close>

text \<open>What the driver uses of a \<^verbatim>\<open>struct file\<close>.\<close>

record kfile =
  private_data :: u64
  f_minor :: nat

definition init_msg_slot :: "kenv \<Rightarrow> nat \<Rightarrow> kernel \<Rightarrow> int \<times> kernel" where
  "init_msg_slot ke minor s =
     (let p = kmalloc_at ke s sizeof_slot;
          s1 = (tick s)\<lparr>g_msg_slots := (g_msg_slots s)[minor := p]\<rparr>
      in if p = NULL then (- ENOMEM, s1)
         else (SUCCESS, s1\<lparr>slot_heap := (slot_heap s)(p \<mapsto> NULL)\<rparr>))"

definition device_open :: "kenv \<Rightarrow> nat \<Rightarrow> kernel \<Rightarrow> int \<times> kernel" where
  "device_open ke minor s =
     (if g_msg_slots s ! minor = NULL then init_msg_slot ke minor s else (SUCCESS, s))"

definition device_release :: "kfile \<Rightarrow> kernel \<Rightarrow> int \<times> kernel" where
  "device_release f s = (SUCCESS, s)"

text \<open>The result of \<^verbatim>\<open>device_read\<close> and the bytes stored in the user's buffer; \<open>room\<close> as in
  \<^const>\<open>copy_to_user\<close>.\<close>

definition device_read :: "kfile \<Rightarrow> nat \<Rightarrow> u64 \<Rightarrow> kernel \<Rightarrow> kfault + int \<times> u8 list" where
  "device_read f room len s =
     (if private_data f = NULL then Inr (- EINVAL, [])
      else
        bindE (get_slot s (g_msg_slots s ! f_minor f)) (\<lambda>head.
        bindE (unless_diverging (find_channel s head (private_data f))) (\<lambda>curr_channel.
          if curr_channel = NULL then Inr (- EWOULDBLOCK, [])
          else
            bindE (get_chan s curr_channel) (\<lambda>c.
              if active c = 0 then Inr (- EWOULDBLOCK, [])
              else if len < ucast (curr_msg_len c) then Inr (- ENOSPC, [])
              else
                bindE (copy_to_user room (msg_buffer c) (unat (curr_msg_len c)) s) (\<lambda>(not_copied, out).
                  if not_copied \<noteq> 0 then Inr (- EFAULT, out)
                  else Inr (int (unat (curr_msg_len c)), out))))))"

text \<open>
  \<^verbatim>\<open>device_write\<close> in three parts: the channel (found, or added to the list), its buffer
  (\<open>Some e\<close>: return \<open>e\<close>), and the message.
\<close>

definition write_channel :: "kenv \<Rightarrow> ptr \<Rightarrow> u64 \<Rightarrow> kernel \<Rightarrow> kfault + int option \<times> ptr \<times> kernel" where
  "write_channel ke msg_slot channel_id s =
     bindE (get_slot s msg_slot) (\<lambda>head.
     bindE (unless_diverging (find_channel s head channel_id)) (\<lambda>curr_channel.
       if curr_channel = NULL then
         bindE (add_channel_to_msg_slot ke msg_slot channel_id s) (\<lambda>(rc, s1).
           if rc = FAILURE then Inr (Some FAILURE, NULL, s1)
           else bindE (get_slot s1 msg_slot) (\<lambda>head1. Inr (None, head1, s1)))
       else Inr (None, curr_channel, s)))"

definition write_buffer :: "kenv \<Rightarrow> ptr \<Rightarrow> nat \<Rightarrow> kernel \<Rightarrow> kfault + int option \<times> kernel" where
  "write_buffer ke curr_channel len s =
     bindE (get_chan s curr_channel) (\<lambda>c.
       if active c = 1 then
         bindE (krealloc ke (msg_buffer c) len s) (\<lambda>(b, s1).
         bindE (put_chan curr_channel (msg_buffer_update (\<lambda>_. b)) s1) (\<lambda>s2.
           if b = NULL then Inr (Some (- ENOMEM), s2) else Inr (None, s2)))
       else
         (let (b, s1) = kmalloc_buf ke len s
          in bindE (put_chan curr_channel (msg_buffer_update (\<lambda>_. b)) s1) (\<lambda>s2.
             if b = NULL then Inr (Some (- ENOMEM), s2)
             else bindE (put_chan curr_channel (active_update (\<lambda>_. 1)) s2) (\<lambda>s3. Inr (None, s3)))))"

definition write_message :: "ptr \<Rightarrow> u8 list \<Rightarrow> u64 \<Rightarrow> kernel \<Rightarrow> kfault + int \<times> kernel" where
  "write_message curr_channel u_bytes len s =
     bindE (get_chan s curr_channel) (\<lambda>c.
     bindE (copy_from_user (msg_buffer c) u_bytes (unat len) s) (\<lambda>(not_copied, s1).
       if not_copied \<noteq> 0 then Inr (- EFAULT, s1)
       else bindE (put_chan curr_channel (curr_msg_len_update (\<lambda>_. ucast len)) s1) (\<lambda>s2.
         Inr (int (unat len), s2))))"

definition device_write :: "kenv \<Rightarrow> kfile \<Rightarrow> u8 list \<Rightarrow> u64 \<Rightarrow> kernel \<Rightarrow> kfault + int \<times> kernel" where
  "device_write ke f u_bytes len s =
     (if private_data f = NULL then Inr (- EINVAL, s)
      else if len = 0 \<or> len > MAX_BUF_LEN then Inr (- EMSGSIZE, s)
      else
        bindE (write_channel ke (g_msg_slots s ! f_minor f) (private_data f) s) (\<lambda>(err, curr_channel, s1).
          case err of Some e \<Rightarrow> Inr (e, s1) | None \<Rightarrow>
        bindE (write_buffer ke curr_channel (unat len) s1) (\<lambda>(err, s2).
          case err of Some e \<Rightarrow> Inr (e, s2) | None \<Rightarrow>
            write_message curr_channel u_bytes len s2)))"

definition device_ioctl :: "kfile \<Rightarrow> u32 \<Rightarrow> u64 \<Rightarrow> int \<times> kfile" where
  "device_ioctl f ioctl_command_id ioctl_param =
     (if ioctl_command_id \<noteq> MSG_SLOT_CHANNEL then (- EINVAL, f)
      else if ioctl_param = 0 then (- EINVAL, f)
      else (SUCCESS, f\<lparr>private_data := ioctl_param\<rparr>))"

section \<open>Set-up\<close>

text \<open>The module is loaded with all slots unused; \<open>rc\<close> is what \<^verbatim>\<open>register_chrdev\<close> returned.\<close>

definition kernel_init :: kernel where
  "kernel_init =
     \<lparr>g_msg_slots = replicate MAX_MINORS_AMOUNT NULL, slot_heap = Map.empty, chan_heap = Map.empty,
      buf_heap = Map.empty, n_allocs = 0\<rparr>"

definition msg_slot_init :: "int \<Rightarrow> int" where
  "msg_slot_init rc = 0"

definition free_slot :: "nat \<Rightarrow> kernel \<Rightarrow> kfault + kernel" where
  "free_slot i s =
     (if g_msg_slots s ! i \<noteq> NULL then
        bindE (get_slot s (g_msg_slots s ! i)) (\<lambda>head.
        bindE (unless_diverging (free_channel_lst head s)) (\<lambda>s1. kfree (g_msg_slots s1 ! i) s1))
      else Inr s)"

definition msg_slot_cleanup :: "kernel \<Rightarrow> kfault + kernel" where
  "msg_slot_cleanup s = foldl (\<lambda>r i. bindE r (free_slot i)) (Inr s) [0..<MAX_MINORS_AMOUNT]"

end
