(* ===== verification/Slot_Invariant.thy ===== *)
theory Slot_Invariant
  imports Message_Slot
begin

text \<open>
  The invariant of the driver's memory and the abstract state: what message each channel of
  each minor holds.  The invariant holds whatever the allocator and the user's memory do; only
  that a particular channel is intact can be lost by a write that fails half way.
\<close>

section \<open>Channels and messages\<close>

definition slot_chans :: "kernel \<Rightarrow> nat \<Rightarrow> ptr list option" where
  "slot_chans s m =
     (if m < MAX_MINORS_AMOUNT \<and> g_msg_slots s ! m \<noteq> NULL then
        case slot_heap s (g_msg_slots s ! m) of None \<Rightarrow> None | Some head \<Rightarrow> chan_list (chan_heap s) head
      else Some [])"

abbreviation chans :: "kernel \<Rightarrow> nat \<Rightarrow> ptr list" where
  "chans s m \<equiv> the (slot_chans s m)"

definition id_of :: "kernel \<Rightarrow> ptr \<Rightarrow> u64" where
  "id_of s p = ch_id (the (chan_heap s p))"

definition channel_of :: "kernel \<Rightarrow> nat \<Rightarrow> u64 \<Rightarrow> ptr option" where
  "channel_of s m i = List.find (\<lambda>p. id_of s p = i) (chans s m)"

definition contents :: "kernel \<Rightarrow> ptr \<Rightarrow> u8 list option" where
  "contents s p =
     (let c = the (chan_heap s p)
      in if active c = 0 then None
         else map_option (take (unat (curr_msg_len c))) (buf_heap s (msg_buffer c)))"

text \<open>The abstract state: the message that channel \<open>i\<close> of minor \<open>m\<close> holds, if any.\<close>

definition message :: "kernel \<Rightarrow> nat \<Rightarrow> u64 \<Rightarrow> u8 list option" where
  "message s m i = Option.bind (channel_of s m i) (contents s)"

text \<open>A channel is intact when its buffer holds exactly a message of legal length, or none was written.\<close>

definition chan_intact :: "kernel \<Rightarrow> ptr \<Rightarrow> bool" where
  "chan_intact s p =
     (let c = the (chan_heap s p)
      in active c \<noteq> 0 \<longrightarrow>
           (case buf_heap s (msg_buffer c) of None \<Rightarrow> False
            | Some bs \<Rightarrow> length bs = unat (curr_msg_len c) \<and> bs \<noteq> [] \<and> length bs \<le> 128))"

definition intact :: "kernel \<Rightarrow> nat \<Rightarrow> u64 \<Rightarrow> bool" where
  "intact s m i = (case channel_of s m i of None \<Rightarrow> True | Some p \<Rightarrow> chan_intact s p)"

section \<open>Invariant\<close>

definition heaps_ok :: "kernel \<Rightarrow> bool" where
  "heaps_ok s \<longleftrightarrow> \<not> live s NULL \<and> length (g_msg_slots s) = MAX_MINORS_AMOUNT \<and>
     (\<forall>p. slot_heap s p \<noteq> None \<longrightarrow> chan_heap s p = None \<and> buf_heap s p = None) \<and>
     (\<forall>p. chan_heap s p \<noteq> None \<longrightarrow> buf_heap s p = None)"

definition slots_ok :: "kernel \<Rightarrow> bool" where
  "slots_ok s \<longleftrightarrow>
     (\<forall>m < MAX_MINORS_AMOUNT. g_msg_slots s ! m \<noteq> NULL \<longrightarrow> slot_heap s (g_msg_slots s ! m) \<noteq> None) \<and>
     (\<forall>m < MAX_MINORS_AMOUNT. \<forall>n < MAX_MINORS_AMOUNT. m \<noteq> n \<longrightarrow> g_msg_slots s ! m \<noteq> NULL \<longrightarrow>
        g_msg_slots s ! m \<noteq> g_msg_slots s ! n) \<and>
     (\<forall>p. slot_heap s p \<noteq> None \<longrightarrow> (\<exists>m < MAX_MINORS_AMOUNT. g_msg_slots s ! m = p))"

definition lists_ok :: "kernel \<Rightarrow> bool" where
  "lists_ok s \<longleftrightarrow>
     (\<forall>m. slot_chans s m \<noteq> None \<and> distinct (map (id_of s) (chans s m))) \<and>
     (\<forall>m n p. m \<noteq> n \<longrightarrow> p \<in> set (chans s m) \<longrightarrow> p \<notin> set (chans s n)) \<and>
     (\<forall>p. chan_heap s p \<noteq> None \<longrightarrow> (\<exists>m. p \<in> set (chans s m)))"

definition bufs_ok :: "kernel \<Rightarrow> bool" where
  "bufs_ok s \<longleftrightarrow>
     (\<forall>p c. chan_heap s p = Some c \<longrightarrow> (active c = 0 \<or> active c = 1) \<and>
        (active c = 1 \<longrightarrow> msg_buffer c \<noteq> NULL \<longrightarrow> buf_heap s (msg_buffer c) \<noteq> None)) \<and>
     (\<forall>p q c d. p \<noteq> q \<longrightarrow> chan_heap s p = Some c \<longrightarrow> chan_heap s q = Some d \<longrightarrow>
        active c = 1 \<longrightarrow> active d = 1 \<longrightarrow> msg_buffer c \<noteq> NULL \<longrightarrow> msg_buffer c \<noteq> msg_buffer d)"

definition kinv :: "kernel \<Rightarrow> bool" where
  "kinv s \<longleftrightarrow> heaps_ok s \<and> slots_ok s \<and> lists_ok s \<and> bufs_ok s"

definition no_leak :: "kernel \<Rightarrow> bool" where
  "no_leak s \<longleftrightarrow>
     (\<forall>b. buf_heap s b \<noteq> None \<longrightarrow>
        (\<exists>p c. chan_heap s p = Some c \<and> active c = 1 \<and> msg_buffer c = b))"

lemma kinvD:
  assumes "kinv s"
  shows "slot_heap s NULL = None" "chan_heap s NULL = None" "buf_heap s NULL = None"
    "length (g_msg_slots s) = 256"
    "slot_chans s m = Some (chans s m)"
    "distinct (map (id_of s) (chans s m))" "distinct (chans s m)"
    "m \<noteq> n \<Longrightarrow> p \<in> set (chans s m) \<Longrightarrow> p \<notin> set (chans s n)"
    "chan_heap s p \<noteq> None \<Longrightarrow> \<exists>m. p \<in> set (chans s m)"
    "chan_heap s p = Some c \<Longrightarrow> active c = 0 \<or> active c = 1"
    "chan_heap s p = Some c \<Longrightarrow> active c = 1 \<Longrightarrow> msg_buffer c \<noteq> NULL \<Longrightarrow> buf_heap s (msg_buffer c) \<noteq> None"
    "m < 256 \<Longrightarrow> g_msg_slots s ! m \<noteq> NULL \<Longrightarrow> \<exists>h. slot_heap s (g_msg_slots s ! m) = Some h"
  using assms
  by (auto simp: kinv_def heaps_ok_def slots_ok_def lists_ok_def bufs_ok_def live_def
      MAX_MINORS_AMOUNT_def distinct_map)

lemma chans_list:
  assumes "kinv s" "m < 256" "slot_heap s (g_msg_slots s ! m) = Some head" "g_msg_slots s ! m \<noteq> NULL"
  shows "chan_list (chan_heap s) head = Some (chans s m)"
  using kinvD(5) [OF assms(1), of m] assms(2-) by (simp add: slot_chans_def MAX_MINORS_AMOUNT_def)

lemma chans_chan:
  assumes "kinv s" "p \<in> set (chans s m)"
  shows "p \<noteq> NULL" "\<exists>c. chan_heap s p = Some c"
proof -
  have "slot_chans s m = Some (chans s m)" by (rule kinvD(5) [OF assms(1)])
  then obtain q where "chan_list (chan_heap s) q = Some (chans s m)"
    using assms(2) by (auto simp: slot_chans_def split: if_splits option.splits)
  from chan_list_set [OF this] assms(2) show "p \<noteq> NULL" "\<exists>c. chan_heap s p = Some c" by auto
qed

lemma init_kinv: "kinv kernel_init"
  by (auto simp: kinv_def heaps_ok_def slots_ok_def lists_ok_def bufs_ok_def live_def kernel_init_def
      slot_chans_def)

lemma init_channel_of: "channel_of kernel_init m i = None"
  by (cases "m < 256")
    (simp_all add: channel_of_def slot_chans_def kernel_init_def MAX_MINORS_AMOUNT_def)

lemma init_message: "message kernel_init m i = None" "intact kernel_init m i" "no_leak kernel_init"
  by (simp_all add: message_def intact_def init_channel_of) (simp add: no_leak_def kernel_init_def)

section \<open>Searching\<close>

lemma find_channel_spec:
  "chan_list (chan_heap s) p = Some ps \<Longrightarrow>
   find_channel s p i =
     Some (Inr (case List.find (\<lambda>q. id_of s q = i) ps of None \<Rightarrow> NULL | Some q \<Rightarrow> q))"
proof (induction ps arbitrary: p)
  case Nil
  then show ?case by (subst find_channel.simps) (simp add: chan_list_Nil)
next
  case (Cons q qs)
  then obtain c where c: "p \<noteq> NULL" "q = p" "chan_heap s p = Some c"
    "chan_list (chan_heap s) (ch_next c) = Some qs" by (auto simp: chan_list_Cons)
  then show ?case using Cons.IH [OF c(4)] by (subst find_channel.simps) (simp add: id_of_def)
qed

lemma find_channel_of:
  assumes "kinv s" "m < 256" "slot_heap s (g_msg_slots s ! m) = Some head" "g_msg_slots s ! m \<noteq> NULL"
  shows "find_channel s head i = Some (Inr (case channel_of s m i of None \<Rightarrow> NULL | Some q \<Rightarrow> q))"
  using find_channel_spec [OF chans_list [OF assms]] by (simp add: channel_of_def)

lemma channel_of_Some:
  assumes "kinv s" "channel_of s m i = Some p"
  shows "p \<in> set (chans s m)" "p \<noteq> NULL" "\<exists>c. chan_heap s p = Some c \<and> ch_id c = i"
proof -
  show p: "p \<in> set (chans s m)" using assms(2) by (auto simp: channel_of_def find_Some_iff)
  from chans_chan [OF assms(1) p] show "p \<noteq> NULL" "\<exists>c. chan_heap s p = Some c \<and> ch_id c = i"
    using assms(2) by (auto simp: channel_of_def find_Some_iff id_of_def)
qed

lemma channel_of_iff:
  assumes "kinv s"
  shows "channel_of s m i = Some p \<longleftrightarrow> p \<in> set (chans s m) \<and> id_of s p = i"
proof
  assume "channel_of s m i = Some p"
  then show "p \<in> set (chans s m) \<and> id_of s p = i" by (auto simp: channel_of_def find_Some_iff)
next
  assume p: "p \<in> set (chans s m) \<and> id_of s p = i"
  then obtain q where q: "channel_of s m i = Some q"
    by (cases "channel_of s m i") (auto simp: channel_of_def find_None_iff)
  then have "q \<in> set (chans s m) \<and> id_of s q = i" by (auto simp: channel_of_def find_Some_iff)
  with p kinvD(6) [OF assms, of m] have "p = q" by (auto simp: distinct_map inj_on_def)
  with q show "channel_of s m i = Some p" by simp
qed

lemma channel_of_unique:
  assumes "kinv s" "channel_of s m i = Some p" "channel_of s n j = Some p"
  shows "m = n \<and> i = j"
proof (cases "m = n")
  case True
  then show ?thesis using assms by (auto simp: channel_of_iff)
next
  case False
  with kinvD(8) [OF assms(1) False] assms show ?thesis by (auto simp: channel_of_iff [OF assms(1)])
qed

section \<open>Replacing one channel and the buffers\<close>

lemma slot_chans_frame:
  assumes "kinv s" "g_msg_slots s' = g_msg_slots s" "slot_heap s' = slot_heap s"
    "\<And>q. map_option ch_next (chan_heap s' q) = map_option ch_next (chan_heap s q)"
  shows "slot_chans s' m = slot_chans s m"
proof -
  have "slot_chans s m = Some (chans s m)" by (rule kinvD(5) [OF assms(1)])
  then show ?thesis
    using assms(2-4) chan_list_frame [of "chan_heap s" _ "chans s m" "chan_heap s'"]
    by (auto simp: slot_chans_def split: if_splits option.splits)
qed

text \<open>
  \<open>s'\<close> is \<open>s\<close> with the record \<open>c\<close> at \<open>p\<close> replaced by \<open>c'\<close>, which has the same id and successor, and
  with buffers changed that no other channel uses.
\<close>

definition channel_update ::
  "kernel \<Rightarrow> kernel \<Rightarrow> ptr \<Rightarrow> msg_slot_channel_t \<Rightarrow> msg_slot_channel_t \<Rightarrow> bool" where
  "channel_update s s' p c c' \<longleftrightarrow>
     kinv s \<and> chan_heap s p = Some c \<and> ch_id c' = ch_id c \<and> ch_next c' = ch_next c \<and>
     (active c' = 0 \<or> active c' = 1) \<and>
     g_msg_slots s' = g_msg_slots s \<and> slot_heap s' = slot_heap s \<and>
     chan_heap s' = (chan_heap s)(p \<mapsto> c') \<and>
     (\<forall>q d. q \<noteq> p \<longrightarrow> chan_heap s q = Some d \<longrightarrow> active d = 1 \<longrightarrow>
        buf_heap s' (msg_buffer d) = buf_heap s (msg_buffer d)) \<and>
     (active c' = 1 \<longrightarrow> msg_buffer c' \<noteq> NULL \<longrightarrow>
        buf_heap s' (msg_buffer c') \<noteq> None \<and>
        (\<forall>q d. q \<noteq> p \<longrightarrow> chan_heap s q = Some d \<longrightarrow> active d = 1 \<longrightarrow> msg_buffer d \<noteq> msg_buffer c')) \<and>
     (\<forall>b. buf_heap s' b \<noteq> None \<longrightarrow> buf_heap s b \<noteq> None \<or> b \<noteq> NULL \<and> \<not> live s b)"

lemma channel_update_same:
  assumes "channel_update s s' p c c'"
  shows "slot_chans s' m = slot_chans s m" "id_of s' q = id_of s q"
    "channel_of s' m i = channel_of s m i"
proof -
  show ch: "slot_chans s' m = slot_chans s m" for m
    using assms by (intro slot_chans_frame) (auto simp: channel_update_def)
  show id: "id_of s' q = id_of s q" for q
    using assms by (simp add: channel_update_def id_of_def)
  show "channel_of s' m i = channel_of s m i" by (simp add: channel_of_def ch id)
qed

lemma channel_update_heaps:
  assumes "channel_update s s' p c c'"
  shows "heaps_ok s'"
proof -
  have ok: "heaps_ok s" and p: "p \<noteq> NULL" "slot_heap s p = None" "buf_heap s p = None"
    using assms by (auto simp: channel_update_def kinv_def heaps_ok_def live_def)
  have eq: "slot_heap s' = slot_heap s" "chan_heap s' = (chan_heap s)(p \<mapsto> c')"
    using assms by (simp_all add: channel_update_def)
  have b: "buf_heap s' q = None" if "q = NULL \<or> q = p \<or> slot_heap s q \<noteq> None \<or> chan_heap s q \<noteq> None" for q
    using assms ok p that unfolding channel_update_def heaps_ok_def live_def by (metis option.distinct(1))
  have "\<not> live s' NULL" using ok p(1) b [of NULL] eq by (simp add: heaps_ok_def live_def)
  moreover have "slot_heap s' q \<noteq> None \<Longrightarrow> chan_heap s' q = None \<and> buf_heap s' q = None" for q
    using ok p(2) b [of q] by (auto simp: eq heaps_ok_def)
  moreover have "chan_heap s' q \<noteq> None \<Longrightarrow> buf_heap s' q = None" for q
    using b [of q] by (cases "q = p") (simp_all add: eq)
  ultimately show ?thesis
    using assms ok by (simp add: channel_update_def heaps_ok_def)
qed

lemma channel_update_bufs:
  assumes "channel_update s s' p c c'"
  shows "bufs_ok s'"
proof -
  have ok: "bufs_ok s" and ch: "chan_heap s' = (chan_heap s)(p \<mapsto> c')"
    and c': "active c' = 0 \<or> active c' = 1"
    and others: "\<And>q d. q \<noteq> p \<Longrightarrow> chan_heap s q = Some d \<Longrightarrow> active d = 1 \<Longrightarrow>
        buf_heap s' (msg_buffer d) = buf_heap s (msg_buffer d)"
    and own: "active c' = 1 \<Longrightarrow> msg_buffer c' \<noteq> NULL \<Longrightarrow> buf_heap s' (msg_buffer c') \<noteq> None"
      "\<And>q d. active c' = 1 \<Longrightarrow> msg_buffer c' \<noteq> NULL \<Longrightarrow> q \<noteq> p \<Longrightarrow> chan_heap s q = Some d \<Longrightarrow>
        active d = 1 \<Longrightarrow> msg_buffer d \<noteq> msg_buffer c'"
    using assms by (auto simp: channel_update_def kinv_def)
  have "(active d = 0 \<or> active d = 1) \<and>
      (active d = 1 \<longrightarrow> msg_buffer d \<noteq> NULL \<longrightarrow> buf_heap s' (msg_buffer d) \<noteq> None)"
    if "chan_heap s' q = Some d" for q d
  proof (cases "q = p")
    case True
    then show ?thesis using that ch c' own(1) by simp
  next
    case False
    then have d: "chan_heap s q = Some d" using that ch by simp
    with ok others [OF False d] show ?thesis by (simp add: bufs_ok_def)
  qed
  moreover have "msg_buffer d \<noteq> msg_buffer e"
    if "q \<noteq> r" "chan_heap s' q = Some d" "chan_heap s' r = Some e" "active d = 1" "active e = 1"
      "msg_buffer d \<noteq> NULL" for q r d e
  proof -
    consider "q = p" | "r = p" | "q \<noteq> p" "r \<noteq> p" by blast
    then show ?thesis
    proof cases
      case 1
      then show ?thesis using that ch own(2) [of r e] by auto
    next
      case 2
      then show ?thesis using that ch own(2) [of q d] by auto
    next
      case 3
      then show ?thesis using that ch ok unfolding bufs_ok_def by (metis fun_upd_other)
    qed
  qed
  ultimately show ?thesis unfolding bufs_ok_def by blast
qed

lemma channel_update_inv:
  assumes "channel_update s s' p c c'"
  shows "kinv s'"
proof -
  have "slots_ok s'" using assms by (simp add: channel_update_def kinv_def slots_ok_def)
  moreover have "id_of s' = id_of s" using channel_update_same(2) [OF assms] by blast
  then have "lists_ok s'"
    using assms by (auto simp: channel_update_def kinv_def lists_ok_def channel_update_same(1) [OF assms])
  ultimately show ?thesis
    using channel_update_heaps [OF assms] channel_update_bufs [OF assms] by (simp add: kinv_def)
qed

lemma channel_update_others:
  assumes "channel_update s s' p c c'" "q \<noteq> p" "chan_heap s q = Some d"
  shows "contents s' q = contents s q" "chan_intact s' q = chan_intact s q"
proof -
  have "active d \<noteq> 0 \<Longrightarrow> active d = 1" "chan_heap s' q = Some d"
    using assms kinvD(10) [of s q d] by (auto simp: channel_update_def)
  then show "contents s' q = contents s q" "chan_intact s' q = chan_intact s q"
    using assms by (auto simp: channel_update_def contents_def chan_intact_def Let_def)
qed

lemma channel_update_message:
  assumes "channel_update s s' p c c'" "channel_of s m i \<noteq> Some p"
  shows "message s' m i = message s m i" "intact s' m i = intact s m i"
proof -
  have "message s' m i = message s m i \<and> intact s' m i = intact s m i"
  proof (cases "channel_of s m i")
    case None
    then show ?thesis by (simp add: message_def intact_def channel_update_same [OF assms(1)])
  next
    case (Some q)
    moreover obtain d where "chan_heap s q = Some d"
      using channel_of_Some(3) [OF _ Some] assms(1) by (auto simp: channel_update_def)
    ultimately show ?thesis
      using assms channel_update_others [OF assms(1), of q d]
      by (simp add: message_def intact_def channel_update_same [OF assms(1)])
  qed
  then show "message s' m i = message s m i" "intact s' m i = intact s m i" by simp_all
qed

end
