(* ===== verification/Slot_Ops.thy ===== *)
theory Slot_Ops
  imports Slot_Invariant
begin

text \<open>
  What the operations of the driver do to the invariant and to the abstract state, on every
  branch: opening, adding a channel, the buffer and message part of a write, the whole write,
  reading, and unloading.
\<close>

section \<open>Storing a message\<close>

text \<open>The request for a buffer of \<open>n\<close> bytes for the channel \<open>p\<close> fails.\<close>

definition no_buffer :: "kenv \<Rightarrow> kernel \<Rightarrow> ptr \<Rightarrow> nat \<Rightarrow> bool" where
  "no_buffer ke s p n \<longleftrightarrow>
     (case chan_heap s p of
        None \<Rightarrow> True
      | Some c \<Rightarrow>
          if active c = 1 \<and> msg_buffer c \<noteq> NULL then krealloc_at ke s (msg_buffer c) n = NULL
          else kmalloc_at ke s n = NULL)"

lemma write_buffer_cases:
  assumes "kinv s" "kmem_contract ke" "chan_heap s p = Some c"
  obtains "no_buffer ke s p len" "write_buffer ke p len s =
      Inr (Some (- ENOMEM), (tick s)\<lparr>chan_heap := (chan_heap s)(p \<mapsto> c\<lparr>msg_buffer := NULL\<rparr>)\<rparr>)"
  | b bs where "b \<noteq> NULL" "length bs = len" "\<not> no_buffer ke s p len"
      "\<not> live s b \<or> active c = 1 \<and> b = msg_buffer c"
      "write_buffer ke p len s =
        Inr (None, (tick s)\<lparr>chan_heap := (chan_heap s)(p \<mapsto> c\<lparr>msg_buffer := b, active := 1\<rparr>), 
          buf_heap := (buf_heap s)(msg_buffer c := if active c = 1 then None else buf_heap s (msg_buffer c), b \<mapsto> bs)\<rparr>)"
proof -
  have pn: "p \<noteq> NULL" using kinvD(2) [OF assms(1)] assms(3) by auto
  have act: "active c = 0 \<or> active c = 1" by (rule kinvD(10) [OF assms(1,3)])
  note defs = no_buffer_def write_buffer_def get_chan_def put_chan_def krealloc_def kmalloc_buf_def Let_def
  consider (fail) "no_buffer ke s p len" "write_buffer ke p len s =
      Inr (Some (- ENOMEM), (tick s)\<lparr>chan_heap := (chan_heap s)(p \<mapsto> c\<lparr>msg_buffer := NULL\<rparr>)\<rparr>)"
    | (ok) b bs where "b \<noteq> NULL" "length bs = len" "\<not> no_buffer ke s p len"
      "\<not> live s b \<or> active c = 1 \<and> b = msg_buffer c"
      "write_buffer ke p len s =
        Inr (None, (tick s)\<lparr>chan_heap := (chan_heap s)(p \<mapsto> c\<lparr>msg_buffer := b, active := 1\<rparr>), 
          buf_heap := (buf_heap s)(msg_buffer c := if active c = 1 then None else buf_heap s (msg_buffer c), b \<mapsto> bs)\<rparr>)"
  proof (cases "active c = 1 \<and> msg_buffer c \<noteq> NULL")
    case True
    then obtain old where old: "buf_heap s (msg_buffer c) = Some old"
      using kinvD(11) [OF assms(1,3)] by auto
    let ?q = "krealloc_at ke s (msg_buffer c) len"
    show ?thesis
    proof (cases "?q = NULL")
      case q: True
      then show ?thesis using True old pn assms(3) by (intro fail) (simp_all add: defs)
    next
      case False
      have "\<not> live s ?q \<or> ?q = msg_buffer c"
        using assms(2) False unfolding kmem_contract_def by blast
      then show ?thesis
        using True old pn assms(3) False
        by (intro ok [of ?q "take len old @ map (junk_byte ke s) [length old..<len]"])
          (auto simp: defs min_def fun_eq_iff intro!: kernel.equality msg_slot_channel_t.equality)
    qed
  next
    case False
    let ?q = "kmalloc_at ke s len"
    have nb: "active c = 1 \<Longrightarrow> (buf_heap s)(msg_buffer c := None) = buf_heap s"
      using False kinvD(3) [OF assms(1)] by auto
    show ?thesis
    proof (cases "?q = NULL")
      case q: True
      then show ?thesis using False act pn assms(3) by (intro fail) (auto simp: defs)
    next
      case q: False
      have "\<not> live s ?q" using assms(2) q unfolding kmem_contract_def by blast
      then show ?thesis
        using False act pn assms(3) q nb
        by (intro ok [of ?q "map (junk_byte ke s) [0..<len]"])
          (auto simp: defs fun_eq_iff intro!: kernel.equality msg_slot_channel_t.equality)
    qed
  qed
  then show ?thesis by cases (use that in blast)+
qed

text \<open>
  \<open>store_message\<close> is what \<^verbatim>\<open>device_write\<close> does once it has its channel.
\<close>

definition store_message :: "kenv \<Rightarrow> ptr \<Rightarrow> u8 list \<Rightarrow> u64 \<Rightarrow> kernel \<Rightarrow> kfault + int \<times> kernel" where
  "store_message ke p u_bytes len s =
     bindE (write_buffer ke p (unat len) s) (\<lambda>(err, s2).
       case err of Some e \<Rightarrow> Inr (e, s2) | None \<Rightarrow> write_message p u_bytes len s2)"

text \<open>Everything but the channel \<open>p\<close> is as before.\<close>

definition only_channel :: "ptr \<Rightarrow> kernel \<Rightarrow> kernel \<Rightarrow> bool" where
  "only_channel p s s' \<longleftrightarrow>
     kinv s' \<and> g_msg_slots s' = g_msg_slots s \<and> slot_heap s' = slot_heap s \<and>
     (\<forall>m i. channel_of s' m i = channel_of s m i) \<and>
     (\<forall>m i. channel_of s m i \<noteq> Some p \<longrightarrow> message s' m i = message s m i \<and> intact s' m i = intact s m i)"

lemma only_channelI: "channel_update s s' p c c' \<Longrightarrow> only_channel p s s'"
  by (simp add: only_channel_def channel_update_inv channel_update_same channel_update_message)
    (simp add: channel_update_def)

lemma word_len:
  assumes "1 \<le> len" "len \<le> (128 :: u64)"
  shows "0 < unat len" "unat len \<le> 128" "unat (ucast len :: u32) = unat len"
proof -
  show "0 < unat len" "unat len \<le> 128" using assms by (simp_all add: word_le_nat_alt)
  then show "unat (ucast len :: u32) = unat len"
    by (simp add: unsigned_ucast_eq take_bit_nat_eq_self)
qed

lemma other_buffers:
  assumes "kinv s" "chan_heap s p = Some c" "q \<noteq> p" "chan_heap s q = Some d" "active d = 1"
    "active c = 1" "msg_buffer c \<noteq> NULL"
  shows "msg_buffer d \<noteq> msg_buffer c"
  using assms unfolding kinv_def bufs_ok_def by metis

lemma live_buffer: "buf_heap s b \<noteq> None \<Longrightarrow> live s b"
  by (simp add: live_def)

text \<open>The shape of the state after the buffer was replaced: \<open>b\<close> is the buffer, \<open>c'\<close> the channel.\<close>

lemma new_buffer_update:
  assumes "kinv s" "chan_heap s p = Some c" "b \<noteq> NULL" "\<not> live s b \<or> active c = 1 \<and> b = msg_buffer c"
    "ch_id c' = ch_id c" "ch_next c' = ch_next c" "active c' = 1" "msg_buffer c' = b"
    "g_msg_slots s' = g_msg_slots s" "slot_heap s' = slot_heap s" "chan_heap s' = (chan_heap s)(p \<mapsto> c')"
    "buf_heap s' = (buf_heap s)(msg_buffer c := if active c = 1 then None else buf_heap s (msg_buffer c), b \<mapsto> bs)"
  shows "channel_update s s' p c c'"
proof -
  have other: "msg_buffer d \<noteq> b" "buf_heap s' (msg_buffer d) = buf_heap s (msg_buffer d)"
    if d: "q \<noteq> p" "chan_heap s q = Some d" "active d = 1" for q d
  proof -
    have nn: "msg_buffer d = NULL \<or> buf_heap s (msg_buffer d) \<noteq> None"
      using kinvD(11) [OF assms(1) d(2,3)] by blast
    have old: "active c = 1 \<Longrightarrow> msg_buffer c \<noteq> NULL \<Longrightarrow> msg_buffer d \<noteq> msg_buffer c"
      using other_buffers [OF assms(1,2) d] by blast
    show b: "msg_buffer d \<noteq> b" using assms(3,4) nn old live_buffer [of s b] by metis
    have "active c = 1 \<Longrightarrow> msg_buffer d = msg_buffer c \<Longrightarrow> buf_heap s (msg_buffer d) = None"
      using old kinvD(3) [OF assms(1)] by metis
    then show "buf_heap s' (msg_buffer d) = buf_heap s (msg_buffer d)"
      using b by (simp add: assms(12))
  qed
  have "buf_heap s b' \<noteq> None \<or> b' \<noteq> NULL \<and> \<not> live s b'" if "buf_heap s' b' \<noteq> None" for b'
  proof (cases "b' = b")
    case True
    then show ?thesis
      using assms(3,4) kinvD(11) [OF assms(1,2)] by auto
  next
    case False
    then show ?thesis using that by (auto simp: assms(12) split: if_splits)
  qed
  then show ?thesis
    using assms other by (auto simp: channel_update_def)
qed

lemma new_buffer_no_leak:
  assumes "no_leak s" "chan_heap s p = Some c" "chan_heap t = (chan_heap s)(p \<mapsto> c')" "active c' = 1"
    "msg_buffer c' = b"
    "buf_heap t = (buf_heap s)(msg_buffer c := if active c = 1 then None else buf_heap s (msg_buffer c), b \<mapsto> bs)"
  shows "no_leak t"
  unfolding no_leak_def
proof (intro allI impI)
  fix b' assume b': "buf_heap t b' \<noteq> None"
  show "\<exists>q d. chan_heap t q = Some d \<and> active d = 1 \<and> msg_buffer d = b'"
  proof (cases "b' = b")
    case True
    then show ?thesis using assms(3-5) by (intro exI [of _ p] exI [of _ c']) simp
  next
    case False
    then have "buf_heap s b' \<noteq> None" "active c = 1 \<longrightarrow> b' \<noteq> msg_buffer c"
      using b' by (auto simp: assms(6) split: if_splits)
    then obtain q d where q: "chan_heap s q = Some d" "active d = 1" "msg_buffer d = b'"
      using assms(1) unfolding no_leak_def by blast
    then have "q \<noteq> p" using assms(2) \<open>active c = 1 \<longrightarrow> b' \<noteq> msg_buffer c\<close> by auto
    then show ?thesis using q assms(3) by (intro exI [of _ q] exI [of _ d]) simp
  qed
qed

lemma write_message_spec:
  assumes "p \<noteq> NULL" "chan_heap s p = Some c" "msg_buffer c \<noteq> NULL" "buf_heap s (msg_buffer c) = Some bs"
    "length bs = unat len"
  shows "write_message p u len s =
    (let B = (buf_heap s)(msg_buffer c \<mapsto> take (unat len) u @ replicate (unat len - length u) 0)
     in if unat len - length u \<noteq> 0 then Inr (- EFAULT, s\<lparr>buf_heap := B\<rparr>)
        else Inr (int (unat len), s\<lparr>buf_heap := B,
               chan_heap := (chan_heap s)(p \<mapsto> c\<lparr>curr_msg_len := ucast len\<rparr>)\<rparr>))"
  using assms by (simp add: write_message_def copy_from_user_def get_chan_def put_chan_def Let_def)

text \<open>The result of storing \<open>len\<close> bytes of \<open>u\<close> in the channel \<open>p\<close>.\<close>

definition write_outcome :: "kenv \<Rightarrow> kernel \<Rightarrow> ptr \<Rightarrow> u8 list \<Rightarrow> u64 \<Rightarrow> int \<Rightarrow> kernel \<Rightarrow> bool" where
  "write_outcome ke s p u len r s' \<longleftrightarrow>
     (if no_buffer ke s p (unat len) then r = - ENOMEM
      else if length u < unat len then r = - EFAULT
      else r = int (unat len) \<and> contents s' p = Some (take (unat len) u) \<and> chan_intact s' p)"

lemma store_message_exact:
  assumes "kinv s" "kmem_contract ke" "chan_heap s p = Some c" "1 \<le> len" "len \<le> 128"
  shows "\<exists>r s'. store_message ke p u len s = Inr (r, s') \<and> only_channel p s s' \<and>
    write_outcome ke s p u len r s' \<and>
    (no_leak s \<and> r \<noteq> - ENOMEM \<longrightarrow> no_leak s')"
proof -
  have pn: "p \<noteq> NULL" using kinvD(2) [OF assms(1)] assms(3) by auto
  note len = word_len [OF assms(4,5)]
  show ?thesis
  proof (cases rule: write_buffer_cases [OF assms(1-3), of "unat len"])
    case 1
    let ?c' = "c\<lparr>msg_buffer := NULL\<rparr>"
    let ?s' = "(tick s)\<lparr>chan_heap := (chan_heap s)(p \<mapsto> ?c')\<rparr>"
    have "channel_update s ?s' p c ?c'"
      using assms(1,3) kinvD(10) [OF assms(1,3)] by (auto simp: channel_update_def)
    then show ?thesis using 1 only_channelI by (auto simp: write_outcome_def store_message_def)
  next
    case (2 b bs)
    let ?c1 = "c\<lparr>msg_buffer := b, active := 1\<rparr>"
    let ?B = "(buf_heap s)(msg_buffer c := if active c = 1 then None else buf_heap s (msg_buffer c), b \<mapsto> bs)"
    let ?s1 = "(tick s)\<lparr>chan_heap := (chan_heap s)(p \<mapsto> ?c1), buf_heap := ?B\<rparr>"
    let ?bs = "take (unat len) u @ replicate (unat len - length u) 0"
    have wm: "write_message p u len ?s1 =
      (let B = ?B(b \<mapsto> ?bs)
       in if unat len - length u \<noteq> 0 then Inr (- EFAULT, ?s1\<lparr>buf_heap := B\<rparr>)
          else Inr (int (unat len), ?s1\<lparr>buf_heap := B,
                 chan_heap := (chan_heap ?s1)(p \<mapsto> ?c1\<lparr>curr_msg_len := ucast len\<rparr>)\<rparr>))"
      by (subst write_message_spec [of p ?s1 ?c1 bs]) (use pn 2(1,2) in simp_all)
    have leak: "no_leak s \<Longrightarrow> chan_heap t = (chan_heap s)(p \<mapsto> c') \<Longrightarrow> active c' = 1 \<Longrightarrow> msg_buffer c' = b \<Longrightarrow>
        buf_heap t = ?B(b \<mapsto> ?bs) \<Longrightarrow> no_leak t" for t c'
      by (rule new_buffer_no_leak [OF _ assms(3)]) simp_all
    show ?thesis
    proof (cases "unat len - length u = 0")
      case False
      let ?s' = "?s1\<lparr>buf_heap := ?B(b \<mapsto> ?bs)\<rparr>"
      have "channel_update s ?s' p c ?c1"
        by (rule new_buffer_update [OF assms(1,3) 2(1,4)]) simp_all
      then show ?thesis
        using False wm 2(3,5) only_channelI leak [of ?s' ?c1] by (auto simp: write_outcome_def store_message_def Let_def)
    next
      case True
      let ?c' = "?c1\<lparr>curr_msg_len := ucast len\<rparr>"
      let ?s' = "?s1\<lparr>buf_heap := ?B(b \<mapsto> ?bs), chan_heap := (chan_heap ?s1)(p \<mapsto> ?c')\<rparr>"
      have "channel_update s ?s' p c ?c'"
        by (rule new_buffer_update [OF assms(1,3) 2(1,4)]) simp_all
      moreover have "contents ?s' p = Some (take (unat len) u)" "chan_intact ?s' p"
        using True len by (auto simp: contents_def chan_intact_def)
      ultimately show ?thesis
        using True wm 2(3,5) only_channelI leak [of ?s' ?c'] by (auto simp: write_outcome_def store_message_def Let_def)
    qed
  qed
qed

lemma store_message_spec:
  assumes "kinv s" "kmem_contract ke" "chan_heap s p = Some c" "1 \<le> len" "len \<le> 128"
  shows "\<exists>r s'. store_message ke p u len s = Inr (r, s') \<and> only_channel p s s' \<and>
    (r = - ENOMEM \<or>
     r = - EFAULT \<and> length u < unat len \<or>
     r = int (unat len) \<and> unat len \<le> length u \<and> contents s' p = Some (take (unat len) u) \<and> chan_intact s' p) \<and>
    (no_leak s \<and> r \<noteq> - ENOMEM \<longrightarrow> no_leak s')"
proof -
  obtain r s' where "store_message ke p u len s = Inr (r, s')" "only_channel p s s'"
    "write_outcome ke s p u len r s'"
    "no_leak s \<and> r \<noteq> - ENOMEM \<longrightarrow> no_leak s'"
    using store_message_exact [OF assms, of u] by blast
  then show ?thesis by (intro exI [of _ r] exI [of _ s']) (auto simp: write_outcome_def split: if_splits)
qed

section \<open>Finding or adding the channel\<close>

definition with_channel :: "kernel \<Rightarrow> ptr \<Rightarrow> ptr \<Rightarrow> msg_slot_channel_t \<Rightarrow> kernel" where
  "with_channel s sp q c =
     (tick s)\<lparr>chan_heap := (chan_heap s)(q \<mapsto> c), slot_heap := (slot_heap s)(sp \<mapsto> q)\<rparr>"

lemma with_channel_chans:
  assumes "kinv s" "m < 256" "g_msg_slots s ! m \<noteq> NULL" "slot_heap s (g_msg_slots s ! m) = Some head"
    "q \<noteq> NULL" "\<not> live s q" "ch_next c = head"
  shows "slot_chans (with_channel s (g_msg_slots s ! m) q c) n =
    Some (if n = m then q # chans s m else chans s n)"
proof -
  have q: "q \<notin> set (chans s n)" for n using assms(6) chans_chan [OF assms(1), of q n] by (auto simp: live_def)
  show ?thesis
  proof (cases "n = m")
    case True
    have "chan_list ((chan_heap s)(q \<mapsto> c)) head = Some (chans s m)"
      by (rule chan_list_upd_other [OF chans_list [OF assms(1,2,4,3)] q])
    then have "chan_list ((chan_heap s)(q \<mapsto> c)) q = Some (q # chans s m)"
      using assms(5,7) by (simp add: chan_list_Cons)
    then show ?thesis using True assms(2,3) by (simp add: slot_chans_def with_channel_def MAX_MINORS_AMOUNT_def)
  next
    case False
    have sc: "slot_chans s n = Some (chans s n)" by (rule kinvD(5) [OF assms(1)])
    show ?thesis
    proof (cases "n < 256 \<and> g_msg_slots s ! n \<noteq> NULL")
      case True
      then have ne: "g_msg_slots s ! n \<noteq> g_msg_slots s ! m"
        using assms(1,2,3) False by (auto simp: kinv_def slots_ok_def MAX_MINORS_AMOUNT_def)
      obtain h where h: "slot_heap s (g_msg_slots s ! n) = Some h" using kinvD(12) [OF assms(1)] True by blast
      have "chan_list ((chan_heap s)(q \<mapsto> c)) h = Some (chans s n)"
        by (rule chan_list_upd_other [OF chans_list [OF assms(1) _ h] q]) (use True in auto)
      then show ?thesis
        using True ne h False by (simp add: slot_chans_def with_channel_def MAX_MINORS_AMOUNT_def)
    next
      case no: False
      then show ?thesis
        using sc False by (auto simp: slot_chans_def with_channel_def MAX_MINORS_AMOUNT_def)
    qed
  qed
qed

lemma with_channel_spec:
  assumes "kinv s" "m < 256" "g_msg_slots s ! m \<noteq> NULL" "slot_heap s (g_msg_slots s ! m) = Some head"
    "q \<noteq> NULL" "\<not> live s q" "ch_next c = head" "active c = 0" "channel_of s m (ch_id c) = None"
    "t = with_channel s (g_msg_slots s ! m) q c"
  shows "kinv t" "channel_of t n i = (if n = m \<and> i = ch_id c then Some q else channel_of s n i)"
    "message t n i = message s n i" "intact t n i = intact s n i" "no_leak s \<Longrightarrow> no_leak t"
proof -
  let ?sp = "g_msg_slots s ! m"
  have ch: "slot_chans t n = Some (if n = m then q # chans s m else chans s n)" for n
    using with_channel_chans [OF assms(1-7)] assms(10) by simp
  have eq: "chan_heap t = (chan_heap s)(q \<mapsto> c)" "slot_heap t = (slot_heap s)(?sp \<mapsto> q)"
    "buf_heap t = buf_heap s" "g_msg_slots t = g_msg_slots s"
    using assms(10) by (simp_all add: with_channel_def)
  have qs: "q \<notin> set (chans s n)" for n using assms(6) chans_chan [OF assms(1), of q n] by (auto simp: live_def)
  have fresh: "slot_heap s q = None" "chan_heap s q = None" "buf_heap s q = None"
    using assms(6) by (auto simp: live_def)
  have id: "id_of t p = (if p = q then ch_id c else id_of s p)" for p by (simp add: id_of_def eq)
  have ids: "map (id_of t) (chans s n) = map (id_of s) (chans s n)" for n
    using qs by (auto simp: id)
  have new: "ch_id c \<notin> id_of s ` set (chans s m)"
    using assms(9) by (auto simp: channel_of_def find_None_iff)
  have new2: "id_of s p \<noteq> ch_id c" if "p \<in> set (chans s m)" for p
    using new that by (metis imageI)
  have "heaps_ok t"
    using assms(1,4,5) fresh by (auto simp: kinv_def heaps_ok_def live_def eq)
  moreover have "slots_ok t" using assms(1-3) by (auto simp: kinv_def slots_ok_def eq MAX_MINORS_AMOUNT_def)
  moreover have "lists_ok t"
    unfolding lists_ok_def
  proof (intro conjI allI impI)
    fix n show "slot_chans t n \<noteq> None" by (simp add: ch)
    show "distinct (map (id_of t) (chans t n))"
    proof -
      have d: "distinct (map (id_of t) (chans s k))" for k
        unfolding ids by (rule kinvD(6) [OF assms(1)])
      have "id_of t q \<notin> set (map (id_of t) (chans s m))"
        unfolding ids using new by (simp add: id)
      then show ?thesis using d by (simp add: ch)
    qed
  next
    fix n n' p assume "n \<noteq> n'" "p \<in> set (chans t n)"
    then show "p \<notin> set (chans t n')"
      using qs kinvD(8) [OF assms(1), of n n' p] by (auto simp: ch split: if_splits)
  next
    fix p assume "chan_heap t p \<noteq> None"
    then have "p = q \<or> (\<exists>n. p \<in> set (chans s n))" using kinvD(9) [OF assms(1), of p] by (auto simp: eq split: if_splits)
    then show "\<exists>n. p \<in> set (chans t n)" by (auto simp: ch)
  qed
  moreover have "bufs_ok t"
    using assms(1,8) unfolding kinv_def bufs_ok_def eq by (auto split: if_splits)
  ultimately show inv: "kinv t" by (simp add: kinv_def)
  show co: "channel_of t n i = (if n = m \<and> i = ch_id c then Some q else channel_of s n i)" for n i
  proof -
    have "channel_of t n i = Some p \<longleftrightarrow>
        (if n = m \<and> i = ch_id c then Some q else channel_of s n i) = Some p" for p
      using qs [of n] new2 by (auto simp: channel_of_iff [OF inv] channel_of_iff [OF assms(1)] ch id)
    then show ?thesis by (metis not_Some_eq)
  qed
  have old: "contents t p = contents s p" "chan_intact t p = chan_intact s p" if "channel_of s n i = Some p" for n i p
  proof -
    have "p \<noteq> q" using channel_of_Some(1) [OF assms(1) that] qs by auto
    then show "contents t p = contents s p" "chan_intact t p = chan_intact s p"
      by (simp_all add: contents_def chan_intact_def eq Let_def)
  qed
  have nq: "contents t q = None" "chan_intact t q"
    using assms(8) by (simp_all add: contents_def chan_intact_def eq)
  show "message t n i = message s n i" "intact t n i = intact s n i"
    using old assms(9) nq by (cases "channel_of s n i"; auto simp: message_def intact_def co)+
  show "no_leak s \<Longrightarrow> no_leak t"
    unfolding no_leak_def eq using fresh(2) by (metis fun_upd_other option.distinct(1))
qed

text \<open>
  Where a write to channel \<open>i\<close> of minor \<open>m\<close> stores its message, and the state in which it asks for
  the buffer: in that channel, in a new one, or, when no memory is left for it, in the first
  channel of the list.
\<close>

definition write_place :: "kenv \<Rightarrow> kernel \<Rightarrow> nat \<Rightarrow> u64 \<Rightarrow> (ptr \<times> kernel) option" where
  "write_place ke s m i =
     (let sp = g_msg_slots s ! m; q = kmalloc_at ke s sizeof_channel
      in case channel_of s m i of
           Some p \<Rightarrow> Some (p, s)
         | None \<Rightarrow>
             if q \<noteq> NULL then
               Some (q, with_channel s sp q
                 \<lparr>msg_buffer = NULL, curr_msg_len = junk_len ke s, ch_id = i, active = 0,
                  ch_next = the (slot_heap s sp)\<rparr>)
             else (case chans s m of [] \<Rightarrow> None | p # ps \<Rightarrow> Some (p, tick s)))"

lemma write_channel_spec:
  assumes "kinv s" "kmem_contract ke" "m < 256" "g_msg_slots s ! m \<noteq> NULL"
    "channel_of s m i \<noteq> None \<or> kmalloc_at ke s sizeof_channel \<noteq> NULL"
  shows "\<exists>p t. write_channel ke (g_msg_slots s ! m) i s = Inr (None, p, t) \<and> kinv t \<and>
    g_msg_slots t = g_msg_slots s \<and> channel_of t m i = Some p \<and>
    (\<forall>n j. channel_of s n j = None \<longrightarrow> (n, j) \<noteq> (m, i) \<longrightarrow> channel_of t n j = None) \<and>
    (\<forall>n j. message t n j = message s n j \<and> intact t n j = intact s n j) \<and> (no_leak s \<longrightarrow> no_leak t) \<and>
    write_place ke s m i = Some (p, t)"
proof -
  obtain h where h: "slot_heap s (g_msg_slots s ! m) = Some h" using kinvD(12) [OF assms(1,3,4)] by blast
  have gs: "get_slot s (g_msg_slots s ! m) = Inr h" using assms(4) h by (simp add: get_slot_def)
  have f: "find_channel s h i = Some (Inr (case channel_of s m i of None \<Rightarrow> NULL | Some q \<Rightarrow> q))"
    by (rule find_channel_of [OF assms(1,3) h assms(4)])
  show ?thesis
  proof (cases "channel_of s m i")
    case (Some p)
    then have "write_channel ke (g_msg_slots s ! m) i s = Inr (None, p, s)"
      using gs f channel_of_Some(2) [OF assms(1) Some] by (simp add: write_channel_def unless_diverging_def)
    then show ?thesis using Some assms(1) by (auto simp: write_place_def)
  next
    case None
    let ?q = "kmalloc_at ke s sizeof_channel"
    let ?c = "\<lparr>msg_buffer = NULL, curr_msg_len = junk_len ke s, ch_id = i, active = 0, ch_next = h\<rparr>"
    let ?t = "with_channel s (g_msg_slots s ! m) ?q ?c"
    have q: "?q \<noteq> NULL" "\<not> live s ?q" using assms(2,5) None unfolding kmem_contract_def by auto
    have w: "write_channel ke (g_msg_slots s ! m) i s = Inr (None, ?q, ?t)"
      using gs f None q assms(4)
      by (simp add: write_channel_def unless_diverging_def add_channel_to_msg_slot_def Let_def errnos
          with_channel_def get_slot_def)
    note sp = with_channel_spec [OF assms(1,3,4) h q, of ?c ?t]
    have "kinv ?t" "channel_of ?t n j = (if n = m \<and> j = i then Some ?q else channel_of s n j)"
      "message ?t n j = message s n j" "intact ?t n j = intact s n j" "no_leak s \<Longrightarrow> no_leak ?t" for n j
      using sp None by simp_all
    moreover have "write_place ke s m i = Some (?q, ?t)" using None q(1) h by (simp add: write_place_def Let_def)
    ultimately show ?thesis using w by (intro exI [of _ ?q] exI [of _ ?t]) (simp add: with_channel_def)
  qed
qed

section \<open>The whole operations\<close>

lemma device_write_store:
  "private_data f \<noteq> NULL \<Longrightarrow> len \<noteq> 0 \<Longrightarrow> len \<le> MAX_BUF_LEN \<Longrightarrow>
   write_channel ke (g_msg_slots s ! f_minor f) (private_data f) s = Inr (None, p, t) \<Longrightarrow>
   device_write ke f u len s = store_message ke p u len t"
  by (simp add: device_write_def store_message_def flip: not_less)

lemma device_write_spec:
  assumes "kinv s" "kmem_contract ke" "f_minor f < 256" "g_msg_slots s ! f_minor f \<noteq> NULL"
    "private_data f \<noteq> 0"
    "channel_of s (f_minor f) (private_data f) \<noteq> None \<or> kmalloc_at ke s sizeof_channel \<noteq> NULL"
    "len \<noteq> 0" "len \<le> MAX_BUF_LEN"
  shows "\<exists>r s'. device_write ke f u len s = Inr (r, s') \<and> kinv s' \<and> g_msg_slots s' = g_msg_slots s \<and>
    (\<forall>n j. (n, j) \<noteq> (f_minor f, private_data f) \<longrightarrow>
       message s' n j = message s n j \<and> intact s' n j = intact s n j) \<and>
    (r = - ENOMEM \<or>
     r = - EFAULT \<and> length u < unat len \<or>
     r = int (unat len) \<and> unat len \<le> length u \<and>
       message s' (f_minor f) (private_data f) = Some (take (unat len) u) \<and>
       intact s' (f_minor f) (private_data f)) \<and>
    (no_leak s \<and> r \<noteq> - ENOMEM \<longrightarrow> no_leak s')"
proof -
  let ?m = "f_minor f" and ?i = "private_data f"
  obtain p t where t: "write_channel ke (g_msg_slots s ! ?m) ?i s = Inr (None, p, t)" "kinv t"
      "g_msg_slots t = g_msg_slots s" "channel_of t ?m ?i = Some p"
      "\<And>n j. message t n j = message s n j" "\<And>n j. intact t n j = intact s n j" "no_leak s \<Longrightarrow> no_leak t"
    using write_channel_spec [OF assms(1-4,6)] by auto
  obtain c where c: "chan_heap t p = Some c" using channel_of_Some(3) [OF t(2,4)] by auto
  have len: "1 \<le> len" "len \<le> 128"
    using assms(7,8) unat_gt_0 [of len] by (simp_all add: MAX_BUF_LEN_def word_le_nat_alt del: unat_gt_0)
  obtain r s' where s': "store_message ke p u len t = Inr (r, s')" "only_channel p t s'"
      "r = - ENOMEM \<or> r = - EFAULT \<and> length u < unat len \<or>
       r = int (unat len) \<and> unat len \<le> length u \<and> contents s' p = Some (take (unat len) u) \<and> chan_intact s' p"
      "no_leak t \<and> r \<noteq> - ENOMEM \<longrightarrow> no_leak s'"
    using store_message_spec [OF t(2) assms(2) c len, of u] by blast
  have here: "channel_of s' ?m ?i = Some p" using s'(2) t(4) by (simp add: only_channel_def)
  have "message s' ?m ?i = contents s' p" "intact s' ?m ?i = chan_intact s' p"
    using here by (simp_all add: message_def intact_def)
  moreover have "message s' n j = message s n j \<and> intact s' n j = intact s n j" if "(n, j) \<noteq> (?m, ?i)" for n j
  proof -
    have "channel_of t n j \<noteq> Some p" using channel_of_unique [OF t(2) t(4), of n j] that by auto
    then show ?thesis using s'(2) t(5,6) by (simp add: only_channel_def)
  qed
  moreover have "kinv s'" "g_msg_slots s' = g_msg_slots s" using s'(2) t(3) by (simp_all add: only_channel_def)
  ultimately show ?thesis
    using device_write_store [OF _ assms(7,8) t(1)] assms(5) s'(1,3,4) t(7) by auto
qed

lemma device_read_spec:
  assumes "kinv s" "f_minor f < 256" "g_msg_slots s ! f_minor f \<noteq> NULL" "private_data f \<noteq> 0"
    "intact s (f_minor f) (private_data f)"
  shows "device_read f room len s =
    Inr (case message s (f_minor f) (private_data f) of
           None \<Rightarrow> (- EWOULDBLOCK, [])
         | Some bs \<Rightarrow>
             if unat len < length bs then (- ENOSPC, [])
             else if room < length bs then (- EFAULT, take room bs)
             else (int (length bs), bs))"
proof -
  let ?m = "f_minor f" and ?i = "private_data f"
  obtain h where h: "slot_heap s (g_msg_slots s ! ?m) = Some h" using kinvD(12) [OF assms(1-3)] by blast
  have gs: "get_slot s (g_msg_slots s ! ?m) = Inr h" using assms(3) h by (simp add: get_slot_def)
  have fc: "find_channel s h ?i = Some (Inr (case channel_of s ?m ?i of None \<Rightarrow> NULL | Some q \<Rightarrow> q))"
    by (rule find_channel_of [OF assms(1,2) h assms(3)])
  show ?thesis
  proof (cases "channel_of s ?m ?i")
    case None
    then show ?thesis
      using assms(4) gs fc by (simp add: device_read_def unless_diverging_def message_def)
  next
    case (Some p)
    obtain c where c: "chan_heap s p = Some c" "p \<noteq> NULL" using channel_of_Some [OF assms(1) Some] by auto
    have msg: "message s ?m ?i = contents s p" "intact s ?m ?i = chan_intact s p"
      using Some by (simp_all add: message_def intact_def)
    have gc: "get_chan s p = Inr c" using c by (simp add: get_chan_def)
    show ?thesis
    proof (cases "active c = 0")
      case True
      then show ?thesis
        using assms(4) gs fc Some c gc msg
        by (simp add: device_read_def unless_diverging_def contents_def)
    next
      case False
      then obtain bs where bs: "buf_heap s (msg_buffer c) = Some bs" "length bs = unat (curr_msg_len c)"
        using assms(5) msg(2) c by (auto simp: chan_intact_def split: option.splits)
      have nn: "msg_buffer c \<noteq> NULL" using kinvD(3) [OF assms(1)] bs by auto
      have lt: "len < ucast (curr_msg_len c) \<longleftrightarrow> unat len < length bs"
        using unat_lt_32 [of "curr_msg_len c"]
        by (simp add: bs(2) word_less_nat_alt unsigned_ucast_eq take_bit_nat_eq_self)
      have "contents s p = Some bs" using False c bs by (simp add: contents_def)
      then show ?thesis
        using assms(4) gs fc Some c gc msg(1) False nn bs lt
        by (auto simp: device_read_def unless_diverging_def copy_to_user_def min_def)
    qed
  qed
qed

lemma same_channels:
  assumes "\<And>n. slot_chans t n = slot_chans s n" "chan_heap t = chan_heap s" "buf_heap t = buf_heap s"
  shows "lists_ok t = lists_ok s" "bufs_ok t = bufs_ok s" "message t n i = message s n i"
    "intact t n i = intact s n i" "no_leak t = no_leak s"
proof -
  have "id_of t = id_of s" "contents t = contents s" "chan_intact t = chan_intact s"
    by (simp_all add: fun_eq_iff id_of_def contents_def chan_intact_def assms Let_def)
  then show "lists_ok t = lists_ok s" "bufs_ok t = bufs_ok s" "message t n i = message s n i"
    "intact t n i = intact s n i" "no_leak t = no_leak s"
    by (simp_all add: lists_ok_def bufs_ok_def message_def intact_def channel_of_def no_leak_def assms
        split: option.split)
qed

lemma slot_chans_tick [simp]: "slot_chans (tick s) n = slot_chans s n"
  by (simp add: slot_chans_def split: option.split)

lemma tick_kinv: "kinv (tick s) = kinv s"
  using same_channels [of "tick s" s]
  by (simp add: kinv_def heaps_ok_def slots_ok_def live_def)

text \<open>A fresh slot for minor \<open>m\<close>.\<close>

lemma new_slot:
  assumes "kinv s" "m < 256" "g_msg_slots s ! m = NULL" "p \<noteq> NULL" "\<not> live s p"
    "t = (tick s)\<lparr>g_msg_slots := (g_msg_slots s)[m := p], slot_heap := (slot_heap s)(p \<mapsto> NULL)\<rparr>"
  shows "slot_chans t n = slot_chans s n" "kinv t"
proof -
  have len: "length (g_msg_slots s) = 256" by (rule kinvD(4) [OF assms(1)])
  have eq: "chan_heap t = chan_heap s" "buf_heap t = buf_heap s" "slot_heap t = (slot_heap s)(p \<mapsto> NULL)"
    "g_msg_slots t = (g_msg_slots s)[m := p]" using assms(6) by simp_all
  have other: "n < 256 \<Longrightarrow> g_msg_slots s ! n \<noteq> p" for n
    using kinvD(12) [OF assms(1), of n] assms(4,5) by (auto simp: live_def)
  have inj: "n < 256 \<Longrightarrow> k < 256 \<Longrightarrow> n \<noteq> k \<Longrightarrow> g_msg_slots s ! n \<noteq> NULL \<Longrightarrow>
      g_msg_slots s ! n \<noteq> g_msg_slots s ! k" for n k
    using assms(1) unfolding kinv_def slots_ok_def MAX_MINORS_AMOUNT_def by blast
  show sc: "slot_chans t n = slot_chans s n" for n
    using other [of n] assms(2,3,4) len
    by (cases "n = m")
      (auto simp: slot_chans_def eq MAX_MINORS_AMOUNT_def nth_list_update split: option.split)
  have "slots_ok t"
    unfolding slots_ok_def
  proof (intro conjI allI impI)
    fix n assume "n < MAX_MINORS_AMOUNT" "g_msg_slots t ! n \<noteq> NULL"
    then show "slot_heap t (g_msg_slots t ! n) \<noteq> None"
      using kinvD(12) [OF assms(1), of n] len assms(2)
      by (cases "n = m") (auto simp: eq MAX_MINORS_AMOUNT_def nth_list_update)
  next
    fix n k assume "n < MAX_MINORS_AMOUNT" "k < MAX_MINORS_AMOUNT" "n \<noteq> k" "g_msg_slots t ! n \<noteq> NULL"
    then show "g_msg_slots t ! n \<noteq> g_msg_slots t ! k"
      using inj [of n k] assms(2,4) len other [of n] other [of k]
      by (auto simp: eq MAX_MINORS_AMOUNT_def nth_list_update)
  next
    fix q assume "slot_heap t q \<noteq> None"
    then consider "q = p" | "q \<noteq> p" "slot_heap s q \<noteq> None" by (auto simp: eq split: if_splits)
    then show "\<exists>n < MAX_MINORS_AMOUNT. g_msg_slots t ! n = q"
    proof cases
      case 1
      then show ?thesis using assms(2) len by (intro exI [of _ m]) (simp add: eq MAX_MINORS_AMOUNT_def)
    next
      case 2
      then obtain n where n: "n < 256" "g_msg_slots s ! n = q"
        using assms(1) by (auto simp: kinv_def slots_ok_def MAX_MINORS_AMOUNT_def)
      have "n \<noteq> m" using n 2 assms(3) kinvD(1) [OF assms(1)] by auto
      then show ?thesis using n by (intro exI [of _ n]) (simp add: eq MAX_MINORS_AMOUNT_def)
    qed
  qed
  moreover have "heaps_ok t"
    using assms(1,4,5) by (auto simp: kinv_def heaps_ok_def live_def eq)
  ultimately show "kinv t"
    using assms(1) same_channels(1,2) [OF sc eq(1,2)] by (simp add: kinv_def)
qed

lemma device_open_cases:
  assumes "kinv s" "kmem_contract ke" "m < 256" "device_open ke m s = (r, t)"
  obtains "g_msg_slots s ! m \<noteq> NULL" "r = SUCCESS" "t = s"
    | "g_msg_slots s ! m = NULL" "r = - ENOMEM" "t = tick s"
    | p where "g_msg_slots s ! m = NULL" "p \<noteq> NULL" "\<not> live s p" "r = SUCCESS"
        "t = (tick s)\<lparr>g_msg_slots := (g_msg_slots s)[m := p], slot_heap := (slot_heap s)(p \<mapsto> NULL)\<rparr>"
proof (cases "g_msg_slots s ! m = NULL")
  case False
  then show ?thesis using that(1) assms(4) by (simp add: device_open_def)
next
  case True
  let ?p = "kmalloc_at ke s sizeof_slot"
  show ?thesis
  proof (cases "?p = NULL")
    case p: True
    have "(g_msg_slots s)[m := NULL] = g_msg_slots s" using True list_update_id [of "g_msg_slots s" m] by simp
    then show ?thesis using p True that(2) assms(4) by (simp add: device_open_def init_msg_slot_def Let_def)
  next
    case p: False
    moreover have "\<not> live s ?p" using assms(2) p unfolding kmem_contract_def by blast
    ultimately show ?thesis
      using True that(3) [of ?p] assms(4) by (simp add: device_open_def init_msg_slot_def Let_def)
  qed
qed

lemma device_open_spec:
  assumes "kinv s" "kmem_contract ke" "m < 256" "device_open ke m s = (r, t)"
  shows "kinv t \<and> (r = SUCCESS \<and> g_msg_slots t ! m \<noteq> NULL \<or> r = - ENOMEM) \<and>
    (\<forall>n i. message t n i = message s n i \<and> intact t n i = intact s n i) \<and> (no_leak s \<longrightarrow> no_leak t) \<and>
    (\<forall>n. g_msg_slots s ! n \<noteq> NULL \<longrightarrow> g_msg_slots t ! n = g_msg_slots s ! n)"
proof (cases rule: device_open_cases [OF assms])
  case 1
  then show ?thesis using assms(1) by simp
next
  case 2
  then show ?thesis using assms(1) same_channels [of t s] by (simp add: tick_kinv)
next
  case (3 p)
  note ns = new_slot [OF assms(1,3) 3(1-3,5)]
  have "g_msg_slots s ! n \<noteq> NULL \<Longrightarrow> g_msg_slots t ! n = g_msg_slots s ! n" for n
    using 3(1,5) by (cases "n = m") simp_all
  moreover have "g_msg_slots t ! m \<noteq> NULL" using 3 assms(3) kinvD(4) [OF assms(1)] by simp
  ultimately show ?thesis
    using ns same_channels [of t s] 3(4,5) by simp
qed

end
