(* ===== verification/Slot_Cleanup.thy ===== *)
theory Slot_Cleanup
  imports Slot_Ops
begin

text \<open>
  Unloading the driver: \<^verbatim>\<open>free_channel_lst\<close> and \<^verbatim>\<open>msg_slot_cleanup\<close> free every channel, every
  slot and the buffer of every channel exactly once.  What is left are the buffers that no channel
  owns, which a failed write leaked.
\<close>

definition mem_ok :: "kernel \<Rightarrow> bool" where
  "mem_ok s \<longleftrightarrow> heaps_ok s \<and> bufs_ok s"

text \<open>The buffers that no active channel owns.\<close>

definition leaks :: "kernel \<Rightarrow> ptr \<rightharpoonup> u8 list" where
  "leaks s = buf_heap s |` {b. \<forall>p c. chan_heap s p = Some c \<longrightarrow> active c = 1 \<longrightarrow> msg_buffer c \<noteq> b}"

lemma leaks_alt: "leaks s b =
    (if \<exists>p c. chan_heap s p = Some c \<and> active c = 1 \<and> msg_buffer c = b then None else buf_heap s b)"
  by (auto simp: leaks_def restrict_map_def)

lemma no_leak_leaks: "no_leak s \<longleftrightarrow> leaks s = Map.empty"
proof -
  have "(if Q then None else x) = None \<longleftrightarrow> (x \<noteq> None \<longrightarrow> Q)" for Q and x :: "u8 list option" by simp
  then show ?thesis by (simp only: no_leak_def fun_eq_iff leaks_alt)
qed

lemma leaks_same: "chan_heap t = chan_heap s \<Longrightarrow> buf_heap t = buf_heap s \<Longrightarrow> leaks t = leaks s"
  by (simp add: leaks_def)

lemma kfree_live: "p \<noteq> NULL \<Longrightarrow> live s p \<Longrightarrow> kfree p s =
    Inr (s\<lparr>slot_heap := (slot_heap s)(p := None), chan_heap := (chan_heap s)(p := None),
           buf_heap := (buf_heap s)(p := None)\<rparr>)"
  by (simp add: kfree_def)

lemma fun_upd_None: "m p = None \<Longrightarrow> m(p := None) = m"
  by auto

lemma free_buffer:
  assumes "mem_ok s" "chan_heap s p = Some c" "active c = 1"
  shows "kfree (msg_buffer c) s = Inr (s\<lparr>buf_heap := (buf_heap s)(msg_buffer c := None)\<rparr>)"
proof (cases "msg_buffer c = NULL")
  case True
  then show ?thesis
    using assms(1) by (simp add: kfree_def mem_ok_def heaps_ok_def live_def fun_upd_None)
next
  case False
  then have b: "buf_heap s (msg_buffer c) \<noteq> None"
    using assms by (auto simp: mem_ok_def bufs_ok_def)
  then have "slot_heap s (msg_buffer c) = None" "chan_heap s (msg_buffer c) = None"
    using assms(1) unfolding mem_ok_def heaps_ok_def by metis+
  then show ?thesis
    using b False by (subst kfree_live) (auto simp: live_def fun_upd_None)
qed

lemma free_channel:
  assumes "mem_ok s" "chan_heap s p = Some c"
    "B = (if active c \<noteq> 0 then (buf_heap s)(msg_buffer c := None) else buf_heap s)"
    "t = s\<lparr>chan_heap := (chan_heap s)(p := None), buf_heap := B\<rparr>"
  shows "bindE (if active c \<noteq> 0 then kfree (msg_buffer c) s else Inr s) (kfree p) = Inr t"
    "mem_ok t" "leaks t = leaks s"
proof -
  have act: "active c = 0 \<or> active c = 1" using assms(1,2) by (auto simp: mem_ok_def bufs_ok_def)
  have p: "p \<noteq> NULL" "slot_heap s p = None" "buf_heap s p = None"
    using assms(1,2) by (auto simp: mem_ok_def heaps_ok_def live_def)
  have B: "buf_heap s b = None \<Longrightarrow> B b = None" for b using assms(3) by simp
  have Bp: "B p = None" using p(3) assms(3) by simp
  have "kfree p (s\<lparr>buf_heap := B\<rparr>) = Inr t"
    using p Bp assms(2,4) by (subst kfree_live) (auto simp: live_def fun_upd_None intro!: kernel.equality)
  then show "bindE (if active c \<noteq> 0 then kfree (msg_buffer c) s else Inr s) (kfree p) = Inr t"
    using act free_buffer [OF assms(1,2)] assms(3) by auto
  have other: "msg_buffer d = NULL \<or> B (msg_buffer d) = buf_heap s (msg_buffer d)"
    if "q \<noteq> p" "chan_heap s q = Some d" "active d = 1" for q d
  proof -
    have "active c = 1 \<Longrightarrow> msg_buffer d \<noteq> NULL \<Longrightarrow> msg_buffer d \<noteq> msg_buffer c"
      using assms(1,2) that unfolding mem_ok_def bufs_ok_def by blast
    then show ?thesis using assms(3) act by (cases "msg_buffer d = NULL") auto
  qed
  have "heaps_ok t"
    using assms(1,4) B unfolding mem_ok_def heaps_ok_def live_def by simp
  moreover have "bufs_ok t"
    unfolding bufs_ok_def
  proof (intro conjI allI impI)
    fix q d assume "chan_heap t q = Some d"
    then have q: "q \<noteq> p" "chan_heap s q = Some d" using assms(4) by (auto split: if_splits)
    then show "active d = 0 \<or> active d = 1" using assms(1) by (auto simp: mem_ok_def bufs_ok_def)
    assume d: "active d = 1" "msg_buffer d \<noteq> NULL"
    then show "buf_heap t (msg_buffer d) \<noteq> None"
      using other [OF q d(1)] q assms(1,4) by (auto simp: mem_ok_def bufs_ok_def)
  next
    fix q r d e assume "q \<noteq> r" "chan_heap t q = Some d" "chan_heap t r = Some e" "active d = 1" "active e = 1"
      "msg_buffer d \<noteq> NULL"
    moreover from this have "chan_heap s q = Some d" "chan_heap s r = Some e"
      using assms(4) by (auto split: if_splits)
    ultimately show "msg_buffer d \<noteq> msg_buffer e"
      using assms(1) unfolding mem_ok_def bufs_ok_def by blast
  qed
  ultimately show "mem_ok t" by (simp add: mem_ok_def)
  have ct: "chan_heap t q = Some d \<longleftrightarrow> q \<noteq> p \<and> chan_heap s q = Some d" for q d using assms(4) by simp
  have cs: "chan_heap s q = Some d \<longleftrightarrow> chan_heap t q = Some d \<or> q = p \<and> d = c" for q d
    unfolding ct using assms(2) by (cases "q = p") auto
  have owner: "(\<exists>q d. chan_heap s q = Some d \<and> active d = 1 \<and> msg_buffer d = b) \<longleftrightarrow>
      (\<exists>q d. chan_heap t q = Some d \<and> active d = 1 \<and> msg_buffer d = b) \<or> active c = 1 \<and> msg_buffer c = b" for b
    unfolding cs by blast
  show "leaks t = leaks s"
  proof (rule ext)
    fix b show "leaks t b = leaks s b"
    proof (cases "active c = 1 \<and> msg_buffer c = b")
      case True
      then have "leaks s b = None" using assms(2) unfolding leaks_alt by auto
      moreover have "buf_heap t b = None" using True assms(3,4) by simp
      ultimately show ?thesis by (simp add: leaks_alt)
    next
      case False
      then have "buf_heap t b = buf_heap s b" using act assms(3,4) by auto
      then show ?thesis using False by (simp only: leaks_alt owner simp_thms)
    qed
  qed
qed

text \<open>A whole list.\<close>

lemma restrict_UNIV [simp]: "m |` UNIV = m"
  by (simp add: restrict_map_def)

lemma restrict_minus_insert: "m |` (- insert p A) = (m(p := None)) |` (- A)"
  by (auto simp: restrict_map_def fun_eq_iff)

lemma free_channel_lst_spec:
  assumes "mem_ok s" "chan_list (chan_heap s) p = Some ps" "distinct ps"
  shows "\<exists>t. free_channel_lst p s = Some (Inr t) \<and> mem_ok t \<and> leaks t = leaks s \<and>
    chan_heap t = chan_heap s |` (- set ps) \<and> slot_heap t = slot_heap s \<and> g_msg_slots t = g_msg_slots s"
  using assms
proof (induction ps arbitrary: p s)
  case Nil
  then show ?case by (subst free_channel_lst.simps) (simp add: chan_list_Nil)
next
  case (Cons q qs)
  then obtain c where c: "p \<noteq> NULL" "q = p" "chan_heap s p = Some c" "chan_list (chan_heap s) (ch_next c) = Some qs"
    by (auto simp: chan_list_Cons)
  obtain t where t: "bindE (if active c \<noteq> 0 then kfree (msg_buffer c) s else Inr s) (kfree p) = Inr t"
      "mem_ok t" "leaks t = leaks s" "chan_heap t = (chan_heap s)(p := None)"
      "slot_heap t = slot_heap s" "g_msg_slots t = g_msg_slots s"
    using free_channel [OF Cons.prems(1) c(3) refl refl] by auto
  have "chan_list (chan_heap t) (ch_next c) = Some qs"
    unfolding t(4) by (rule chan_list_upd_other [OF c(4)]) (use Cons.prems(3) c(2) in simp)
  from Cons.IH [OF t(2) this] Cons.prems(3) obtain u where
    u: "free_channel_lst (ch_next c) t = Some (Inr u)" "mem_ok u" "leaks u = leaks t"
      "chan_heap u = chan_heap t |` (- set qs)" "slot_heap u = slot_heap t" "g_msg_slots u = g_msg_slots t"
    by auto
  have "free_channel_lst p s = Some (Inr u)"
    by (subst free_channel_lst.simps) (use c(1,3) t(1) u(1) in simp)
  moreover have "chan_heap u = chan_heap s |` (- set (q # qs))"
    using u(4) t(4) c(2) by (simp add: restrict_minus_insert)
  ultimately show ?case using u t by simp
qed

text \<open>The loop over the minors: what is left before turn \<open>i\<close>.\<close>

definition freed_upto :: "kernel \<Rightarrow> nat \<Rightarrow> kernel \<Rightarrow> bool" where
  "freed_upto s i t \<longleftrightarrow>
     mem_ok t \<and> leaks t = leaks s \<and> g_msg_slots t = g_msg_slots s \<and>
     slot_heap t = slot_heap s |` (- (\<lambda>m. g_msg_slots s ! m) ` {..<i}) \<and>
     chan_heap t = chan_heap s |` (- (\<Union>m<i. set (chans s m)))"

lemma freed_step_image: "- f ` {..<Suc i} = - insert (f i) (f ` {..<i})"
  by (simp add: lessThan_Suc)

lemma kfree_slot:
  assumes "mem_ok s" "slot_heap s p = Some h" "p \<noteq> NULL"
  shows "kfree p s = Inr (s\<lparr>slot_heap := (slot_heap s)(p := None)\<rparr>)"
    "mem_ok (s\<lparr>slot_heap := (slot_heap s)(p := None)\<rparr>)"
proof -
  have n: "chan_heap s p = None" "buf_heap s p = None"
    using assms(1,2) by (auto simp: mem_ok_def heaps_ok_def)
  then show "kfree p s = Inr (s\<lparr>slot_heap := (slot_heap s)(p := None)\<rparr>)"
    using assms(2,3) by (subst kfree_live) (auto simp: live_def fun_upd_None)
  show "mem_ok (s\<lparr>slot_heap := (slot_heap s)(p := None)\<rparr>)"
    using assms(1) by (auto simp: mem_ok_def heaps_ok_def bufs_ok_def live_def)
qed

lemma free_slot_step:
  assumes "kinv s" "freed_upto s i t" "i < 256"
  shows "\<exists>u. free_slot i t = Inr u \<and> freed_upto s (Suc i) u"
proof (cases "g_msg_slots s ! i = NULL")
  case True
  then have "slot_chans s i = Some []" by (simp add: slot_chans_def)
  moreover have "slot_heap s NULL = None" by (rule kinvD(1) [OF assms(1)])
  then have "slot_heap t NULL = None" using assms(2) by (simp add: freed_upto_def restrict_map_def)
  then have "slot_heap t = (slot_heap t)(NULL := None)" by (simp add: fun_upd_None)
  ultimately have "freed_upto s (Suc i) t"
    using assms(2) True unfolding freed_upto_def freed_step_image restrict_minus_insert
    by (auto simp: lessThan_Suc restrict_map_def fun_eq_iff)
  then show ?thesis using assms(2) True by (simp add: free_slot_def freed_upto_def)
next
  case False
  let ?p = "g_msg_slots s ! i"
  obtain h where h: "slot_heap s ?p = Some h" using kinvD(12) [OF assms(1,3) False] by blast
  have "?p \<noteq> g_msg_slots s ! m" if "m < i" for m
    using assms(1,3) False that unfolding kinv_def slots_ok_def MAX_MINORS_AMOUNT_def
    by (metis less_irrefl less_trans)
  then have "?p \<notin> (\<lambda>m. g_msg_slots s ! m) ` {..<i}" by auto
  then have ht: "slot_heap t ?p = Some h" using h assms(2) by (simp add: freed_upto_def restrict_map_def)
  have ct: "chan_list (chan_heap t) h = Some (chans s i)"
  proof (rule chan_list_frame [OF chans_list [OF assms(1,3) h False]])
    fix q assume q: "q \<in> set (chans s i)"
    have "q \<notin> set (chans s m)" if "m < i" for m
    proof -
      have "i \<noteq> m" using that by simp
      then show ?thesis using kinvD(8) [OF assms(1) _ q] by blast
    qed
    then have "q \<notin> (\<Union>m<i. set (chans s m))" by auto
    then show "map_option ch_next (chan_heap t q) = map_option ch_next (chan_heap s q)"
      using assms(2) by (simp add: freed_upto_def restrict_map_def)
  qed
  have mt: "mem_ok t" "g_msg_slots t = g_msg_slots s" using assms(2) by (simp_all add: freed_upto_def)
  obtain u where u: "free_channel_lst h t = Some (Inr u)" "mem_ok u" "leaks u = leaks t"
      "chan_heap u = chan_heap t |` (- set (chans s i))" "slot_heap u = slot_heap t" "g_msg_slots u = g_msg_slots t"
    using free_channel_lst_spec [OF mt(1) ct kinvD(7) [OF assms(1)]] by blast
  let ?v = "u\<lparr>slot_heap := (slot_heap u)(?p := None)\<rparr>"
  have "kfree ?p u = Inr ?v" "mem_ok ?v" using kfree_slot [OF u(2), of ?p h] ht u(5) False by simp_all
  then have "free_slot i t = Inr ?v"
    using ht u(1,6) mt False by (simp add: free_slot_def get_slot_def unless_diverging_def)
  moreover have "slot_heap ?v = slot_heap s |` (- (\<lambda>m. g_msg_slots s ! m) ` {..<Suc i})"
    using assms(2) u(5) unfolding freed_step_image
    by (auto simp: freed_upto_def restrict_map_def fun_eq_iff)
  moreover have "chan_heap ?v = chan_heap s |` (- (\<Union>m<Suc i. set (chans s m)))"
    using assms(2) u(4) by (auto simp: freed_upto_def lessThan_Suc restrict_map_def fun_eq_iff)
  moreover have "leaks ?v = leaks u" by (rule leaks_same) simp_all
  then have "leaks ?v = leaks s" using assms(2) u(3) by (simp add: freed_upto_def)
  ultimately show ?thesis
    using \<open>mem_ok ?v\<close> mt u(6) by (auto simp: freed_upto_def)
qed

lemma cleanup_upto:
  assumes "kinv s" "n \<le> 256"
  shows "\<exists>t. foldl (\<lambda>r i. bindE r (free_slot i)) (Inr s) [0..<n] = Inr t \<and> freed_upto s n t"
  using assms(2)
proof (induction n)
  case 0
  then show ?case using assms(1) by (simp add: freed_upto_def mem_ok_def kinv_def)
next
  case (Suc n)
  then obtain t where "foldl (\<lambda>r i. bindE r (free_slot i)) (Inr s) [0..<n] = Inr t" "freed_upto s n t" by auto
  then show ?case using free_slot_step [OF assms(1), of n t] Suc.prems by simp
qed

lemma cleanup_spec:
  assumes "kinv s"
  shows "\<exists>t. msg_slot_cleanup s = Inr t \<and> slot_heap t = Map.empty \<and> chan_heap t = Map.empty \<and>
    buf_heap t = leaks s"
proof -
  obtain t where t: "msg_slot_cleanup s = Inr t" "freed_upto s 256 t"
    using cleanup_upto [OF assms, of 256] by (auto simp: msg_slot_cleanup_def MAX_MINORS_AMOUNT_def)
  have "slot_heap t p = None" for p
    using t(2) assms by (cases "slot_heap s p = None")
      (auto simp: freed_upto_def restrict_map_def kinv_def slots_ok_def MAX_MINORS_AMOUNT_def)
  moreover have "chan_heap t p = None" for p
  proof (cases "chan_heap s p = None")
    case False
    then obtain m where m: "p \<in> set (chans s m)" using kinvD(9) [OF assms] by blast
    then have "m < 256" by (auto simp: slot_chans_def MAX_MINORS_AMOUNT_def split: if_splits)
    then show ?thesis using t(2) m by (auto simp: freed_upto_def restrict_map_def)
  qed (use t(2) in \<open>simp add: freed_upto_def restrict_map_def\<close>)
  ultimately have "slot_heap t = Map.empty" "chan_heap t = Map.empty" by (simp_all add: fun_eq_iff)
  moreover have "leaks t = buf_heap t" using \<open>chan_heap t = Map.empty\<close> by (simp add: fun_eq_iff leaks_alt)
  then have "buf_heap t = leaks s" using t(2) by (simp add: freed_upto_def)
  ultimately show ?thesis using t(1) by blast
qed

end
