(* ===== verification/Slot_System.thy ===== *)
theory Slot_System
  imports Slot_Cleanup
begin

text \<open>
  The driver as processes use it: the open file descriptors of all processes together with the
  driver's memory, and one step per system call.  A write may fail half way, when memory is
  short or when the user's buffer cannot be read, and the calls may come in any order.
\<close>

section \<open>Writes that go wrong\<close>

lemma head_channel:
  assumes "kinv s" "m < 256" "g_msg_slots s ! m \<noteq> NULL" "slot_heap s (g_msg_slots s ! m) = Some h"
  shows "h = (case chans s m of [] \<Rightarrow> NULL | p # _ \<Rightarrow> p)"
  using chans_list [OF assms(1,2,4,3)] by (cases "chans s m") (auto simp: chan_list_Nil chan_list_Cons)

lemma write_channel_failed:
  assumes "kinv s" "m < 256" "g_msg_slots s ! m \<noteq> NULL" "channel_of s m i = None"
    "kmalloc_at ke s sizeof_channel = NULL"
  shows "write_channel ke (g_msg_slots s ! m) i s =
    Inr (None, case chans s m of [] \<Rightarrow> NULL | p # _ \<Rightarrow> p, tick s)"
proof -
  obtain h where h: "slot_heap s (g_msg_slots s ! m) = Some h" using kinvD(12) [OF assms(1-3)] by blast
  have "find_channel s h i = Some (Inr NULL)"
    using find_channel_of [OF assms(1,2) h assms(3)] assms(4) by simp
  then show ?thesis
    using head_channel [OF assms(1-3) h] h assms(3,5)
    by (simp add: write_channel_def get_slot_def unless_diverging_def add_channel_to_msg_slot_def errnos Let_def)
qed

lemma tick_same [simp]: "channel_of (tick s) m i = channel_of s m i" "message (tick s) m i = message s m i"
  "intact (tick s) m i = intact s m i" "no_leak (tick s) = no_leak s" "kinv (tick s) = kinv s"
  using same_channels [of "tick s" s]
  by (simp_all add: channel_of_def id_of_def [abs_def] tick_kinv)

text \<open>When the list is not empty, the message goes to whatever channel is first.\<close>

lemma write_to_head:
  assumes "kinv s" "kmem_contract ke" "f_minor f < 256" "g_msg_slots s ! f_minor f \<noteq> NULL"
    "private_data f \<noteq> 0" "channel_of s (f_minor f) (private_data f) = None"
    "kmalloc_at ke s sizeof_channel = NULL" "len \<noteq> 0" "len \<le> MAX_BUF_LEN"
  shows "case chans s (f_minor f) of
      [] \<Rightarrow> device_write ke f u len s = Inl Null_deref
    | p # _ \<Rightarrow> \<exists>r s'. device_write ke f u len s = Inr (r, s') \<and> only_channel p (tick s) s' \<and>
        (r = - ENOMEM \<or> r = - EFAULT \<and> length u < unat len \<or>
         r = int (unat len) \<and> unat len \<le> length u \<and> contents s' p = Some (take (unat len) u) \<and> chan_intact s' p)"
proof (cases "chans s (f_minor f)")
  case Nil
  then have "device_write ke f u len s = store_message ke NULL u len (tick s)"
    using write_channel_failed [OF assms(1,3,4,6,7)] assms(5,8,9) by (intro device_write_store) simp_all
  then show ?thesis using Nil by (simp add: store_message_def write_buffer_def get_chan_def)
next
  case (Cons p ps)
  then have dw: "device_write ke f u len s = store_message ke p u len (tick s)"
    using write_channel_failed [OF assms(1,3,4,6,7)] assms(5,8,9) by (intro device_write_store) simp_all
  obtain c where c: "chan_heap s p = Some c" using chans_chan [OF assms(1), of p "f_minor f"] Cons by auto
  have len: "1 \<le> len" "len \<le> 128"
    using assms(8,9) unat_gt_0 [of len] by (simp_all add: MAX_BUF_LEN_def word_le_nat_alt del: unat_gt_0)
  show ?thesis
    using store_message_spec [of "tick s" ke p c len u] assms(1,2) c len dw Cons by auto
qed

text \<open>A write with a channel and a legal length, whatever fails.\<close>

lemma device_write_place:
  assumes "kinv s" "kmem_contract ke" "f_minor f < 256" "g_msg_slots s ! f_minor f \<noteq> NULL"
    "private_data f \<noteq> 0" "len \<noteq> 0" "len \<le> MAX_BUF_LEN"
  shows "case write_place ke s (f_minor f) (private_data f) of
      None \<Rightarrow> device_write ke f u len s = Inl Null_deref
    | Some (p, t) \<Rightarrow> \<exists>r s'. device_write ke f u len s = Inr (r, s') \<and> kinv t \<and> only_channel p t s' \<and>
        (\<forall>n j. message t n j = message s n j) \<and>
        (channel_of s (f_minor f) (private_data f) \<noteq> None \<or> kmalloc_at ke s sizeof_channel \<noteq> NULL \<longrightarrow>
           channel_of t (f_minor f) (private_data f) = Some p) \<and>
        write_outcome ke t p u len r s'"
proof -
  let ?m = "f_minor f" and ?i = "private_data f"
  have len: "1 \<le> len" "len \<le> 128"
    using assms(6,7) unat_gt_0 [of len] by (simp_all add: MAX_BUF_LEN_def word_le_nat_alt del: unat_gt_0)
  consider (room) "channel_of s ?m ?i \<noteq> None \<or> kmalloc_at ke s sizeof_channel \<noteq> NULL"
    | (none) "channel_of s ?m ?i = None" "kmalloc_at ke s sizeof_channel = NULL" by blast
  then show ?thesis
  proof cases
    case room
    obtain p t where t: "write_channel ke (g_msg_slots s ! ?m) ?i s = Inr (None, p, t)" "kinv t"
        "channel_of t ?m ?i = Some p" "\<And>n j. message t n j = message s n j" "write_place ke s ?m ?i = Some (p, t)"
      using write_channel_spec [OF assms(1-4) room] by auto
    obtain c where c: "chan_heap t p = Some c" using channel_of_Some(3) [OF t(2,3)] by auto
    obtain r s' where "store_message ke p u len t = Inr (r, s')" "only_channel p t s'" "write_outcome ke t p u len r s'"
      using store_message_exact [OF t(2) assms(2) c len, of u] by blast
    then show ?thesis using device_write_store [OF assms(5-7) t(1), of u] t(2-5) by simp
  next
    case none
    note failed = write_channel_failed [OF assms(1,3,4) none]
    show ?thesis
    proof (cases "chans s ?m")
      case Nil
      then have "device_write ke f u len s = store_message ke NULL u len (tick s)"
        using failed assms(5-7) by (intro device_write_store) simp_all
      then show ?thesis using none Nil
        by (simp add: write_place_def store_message_def write_buffer_def get_chan_def)
    next
      case (Cons p ps)
      then have dw: "device_write ke f u len s = store_message ke p u len (tick s)"
        using failed assms(5-7) by (intro device_write_store) simp_all
      obtain c where c: "chan_heap s p = Some c" using chans_chan [OF assms(1), of p ?m] Cons by auto
      obtain r s' where "store_message ke p u len (tick s) = Inr (r, s')" "only_channel p (tick s) s'"
          "write_outcome ke (tick s) p u len r s'"
        using store_message_exact [of "tick s" ke p c len u] assms(1,2) c len by auto
      then show ?thesis using dw none Cons assms(1) by (simp add: write_place_def)
    qed
  qed
qed

lemma device_write_inv:
  assumes "kinv s" "kmem_contract ke" "f_minor f < 256" "g_msg_slots s ! f_minor f \<noteq> NULL"
    "device_write ke f u len s = Inr (r, s')"
  shows "kinv s' \<and> g_msg_slots s' = g_msg_slots s"
proof (cases "private_data f = 0 \<or> len = 0 \<or> len > MAX_BUF_LEN")
  case True
  then show ?thesis using assms(1,5) by (auto simp: device_write_def split: if_splits)
next
  case False
  show ?thesis
  proof (cases "channel_of s (f_minor f) (private_data f) \<noteq> None \<or> kmalloc_at ke s sizeof_channel \<noteq> NULL")
    case True
    then show ?thesis using device_write_spec [OF assms(1-4) _ True, of len u] False assms(5) by auto
  next
    case no: False
    have "case chans s (f_minor f) of
      [] \<Rightarrow> device_write ke f u len s = Inl Null_deref
    | p # _ \<Rightarrow> \<exists>r s'. device_write ke f u len s = Inr (r, s') \<and> only_channel p (tick s) s' \<and>
        (r = - ENOMEM \<or> r = - EFAULT \<and> length u < unat len \<or>
         r = int (unat len) \<and> unat len \<le> length u \<and> contents s' p = Some (take (unat len) u) \<and> chan_intact s' p)"
      using no False by (intro write_to_head [OF assms(1-4)]) auto
    then show ?thesis using assms(5) by (auto simp: only_channel_def split: list.splits)
  qed
qed

section \<open>System calls\<close>

record slotsys =
  ker :: kernel
  fds :: "nat \<rightharpoonup> kfile"

datatype syscall =
    Sys_open nat nat                 \<comment> \<open>minor and the new descriptor\<close>
  | Sys_ioctl nat u32 u64
  | Sys_write nat "u8 list" u64      \<comment> \<open>descriptor, readable bytes, length\<close>
  | Sys_read nat nat u64             \<comment> \<open>descriptor, room in the buffer, length\<close>
  | Sys_close nat

inductive slot_step :: "kenv \<Rightarrow> slotsys \<Rightarrow> syscall \<Rightarrow> int \<times> u8 list \<Rightarrow> slotsys \<Rightarrow> bool" for ke where
  sys_open: "m < MAX_MINORS_AMOUNT \<Longrightarrow> fds S fd = None \<Longrightarrow> device_open ke m (ker S) = (r, k) \<Longrightarrow>
    slot_step ke S (Sys_open m fd) (r, [])
      (if r = SUCCESS then S\<lparr>ker := k, fds := (fds S)(fd \<mapsto> \<lparr>private_data = NULL, f_minor = m\<rparr>)\<rparr>
       else S\<lparr>ker := k\<rparr>)"
| sys_ioctl: "fds S fd = Some f \<Longrightarrow> device_ioctl f cmd arg = (r, f') \<Longrightarrow>
    slot_step ke S (Sys_ioctl fd cmd arg) (r, []) (S\<lparr>fds := (fds S)(fd \<mapsto> f')\<rparr>)"
| sys_write: "fds S fd = Some f \<Longrightarrow> device_write ke f u len (ker S) = Inr (r, k) \<Longrightarrow>
    slot_step ke S (Sys_write fd u len) (r, []) (S\<lparr>ker := k\<rparr>)"
| sys_read: "fds S fd = Some f \<Longrightarrow> device_read f room len (ker S) = Inr (r, out) \<Longrightarrow>
    slot_step ke S (Sys_read fd room len) (r, out) S"
| sys_close: "fds S fd = Some f \<Longrightarrow> device_release f (ker S) = (r, k) \<Longrightarrow>
    slot_step ke S (Sys_close fd) (r, []) (S\<lparr>ker := k, fds := (fds S)(fd := None)\<rparr>)"

inductive_cases slot_step_cases [consumes 1, case_names sys_open sys_ioctl sys_write sys_read sys_close]:
  "slot_step ke S op res T"

inductive slot_reach :: "kenv \<Rightarrow> slotsys \<Rightarrow> bool" for ke where
  start: "slot_reach ke \<lparr>ker = kernel_init, fds = Map.empty\<rparr>"
| step: "slot_reach ke S \<Longrightarrow> slot_step ke S op res T \<Longrightarrow> slot_reach ke T"

text \<open>Every open descriptor belongs to a minor whose slot exists.\<close>

definition slotsys_inv :: "slotsys \<Rightarrow> bool" where
  "slotsys_inv S \<longleftrightarrow>
     kinv (ker S) \<and>
     (\<forall>fd f. fds S fd = Some f \<longrightarrow> f_minor f < MAX_MINORS_AMOUNT \<and> g_msg_slots (ker S) ! f_minor f \<noteq> NULL)"

lemma slot_step_inv:
  assumes "slot_step ke S op res T" "kmem_contract ke" "slotsys_inv S"
  shows "slotsys_inv T"
  using assms(1)
proof (cases rule: slot_step_cases)
  case (sys_open m fd r k)
  note o = device_open_spec [OF _ assms(2) _ sys_open(6)]
  have "kinv k" "r = SUCCESS \<longrightarrow> g_msg_slots k ! m \<noteq> NULL"
    "\<And>n. g_msg_slots (ker S) ! n \<noteq> NULL \<Longrightarrow> g_msg_slots k ! n \<noteq> NULL"
    using o sys_open(4) assms(3) by (auto simp: slotsys_inv_def MAX_MINORS_AMOUNT_def errnos)
  then show ?thesis using sys_open(3,4) assms(3) by (auto simp: slotsys_inv_def)
next
  case (sys_ioctl fd f cmd arg r f')
  then have "f_minor f' = f_minor f" by (auto simp: device_ioctl_def split: if_splits)
  then show ?thesis using sys_ioctl assms(3) by (auto simp: slotsys_inv_def)
next
  case (sys_write fd f u len r k)
  then show ?thesis
    using device_write_inv [OF _ assms(2) _ _ sys_write(5)] assms(3)
    by (auto simp: slotsys_inv_def MAX_MINORS_AMOUNT_def)
next
  case (sys_read fd f room len r out)
  then show ?thesis using assms(3) by simp
next
  case (sys_close fd f r k)
  then show ?thesis using assms(3) by (auto simp: slotsys_inv_def device_release_def)
qed

lemma slot_reach_inv: "slot_reach ke S \<Longrightarrow> kmem_contract ke \<Longrightarrow> slotsys_inv S"
proof (induction rule: slot_reach.induct)
  case start
  then show ?case by (simp add: slotsys_inv_def init_kinv)
next
  case (step S op res T)
  then show ?case using slot_step_inv by blast
qed

end
