(* ===== verification/Slot_Tools.thy ===== *)
theory Slot_Tools
  imports Slot_System
begin

text \<open>
  The command-line programs \<^verbatim>\<open>src/hw3_os/message_sender.c\<close> and \<^verbatim>\<open>message_reader.c\<close>.  They are
  written over the device operations they call, and verified against the interface those
  operations have to satisfy; the driver is then shown to satisfy it.

  Inputs of the programs: the number of arguments, the minor that the path names (\<^const>\<open>None\<close>
  when \<^verbatim>\<open>open\<close> fails before it reaches the driver), the value of \<^verbatim>\<open>atoi\<close> on the channel
  argument, and the message.  Results: the exit code and, for the reader, what it wrote to stdout.
\<close>

section \<open>The programs\<close>

definition EXIT_FAILURE :: int where
  "EXIT_FAILURE = 1"

definition message_sender_main ::
  "(nat \<Rightarrow> 'k \<Rightarrow> int \<times> 'k) \<Rightarrow> (kfile \<Rightarrow> u8 list \<Rightarrow> u64 \<Rightarrow> 'k \<Rightarrow> 'e + int \<times> 'k) \<Rightarrow>
   int \<Rightarrow> nat option \<Rightarrow> int \<Rightarrow> u8 list \<Rightarrow> 'k \<Rightarrow> 'e + int \<times> 'k" where
  "message_sender_main dopen dwrite argc msg_slot_path atoi_arg msg_to_pass s =
     (if argc \<noteq> 4 then Inr (EXIT_FAILURE, s)
      else
        let channel_id = (of_int atoi_arg :: u32)
        in case msg_slot_path of
             None \<Rightarrow> Inr (EXIT_FAILURE, s)
           | Some minor \<Rightarrow>
          (case dopen minor s of (ret, s1) \<Rightarrow>
             if ret < 0 then Inr (EXIT_FAILURE, s1)
             else
          (case device_ioctl \<lparr>private_data = NULL, f_minor = minor\<rparr> MSG_SLOT_CHANNEL (ucast channel_id) of
             (ret_val, f) \<Rightarrow>
             if ret_val < 0 then Inr (EXIT_FAILURE, s1)
             else
               bindE (dwrite f msg_to_pass (of_nat (length msg_to_pass)) s1) (\<lambda>(ret_val, s2).
                 if ret_val < 0 then Inr (EXIT_FAILURE, s2) else Inr (0, s2)))))"

text \<open>\<open>room\<close> is what \<^verbatim>\<open>malloc(MAX_BUF_LEN)\<close> gave: \<^verbatim>\<open>MAX_BUF_LEN\<close> bytes, or none when it failed;
  \<open>stdout_ok\<close>: the final \<^verbatim>\<open>write\<close> to stdout succeeds.\<close>

definition message_reader_main ::
  "(nat \<Rightarrow> 'k \<Rightarrow> int \<times> 'k) \<Rightarrow> (kfile \<Rightarrow> nat \<Rightarrow> u64 \<Rightarrow> 'k \<Rightarrow> 'e + int \<times> u8 list) \<Rightarrow>
   int \<Rightarrow> nat option \<Rightarrow> int \<Rightarrow> nat \<Rightarrow> bool \<Rightarrow> 'k \<Rightarrow> 'e + int \<times> u8 list \<times> 'k" where
  "message_reader_main dopen dread argc msg_slot_path atoi_arg room stdout_ok s =
     (if argc \<noteq> 3 then Inr (EXIT_FAILURE, [], s)
      else
        let channel_id = (of_int atoi_arg :: u32)
        in case msg_slot_path of
             None \<Rightarrow> Inr (EXIT_FAILURE, [], s)
           | Some minor \<Rightarrow>
          (case dopen minor s of (ret, s1) \<Rightarrow>
             if ret < 0 then Inr (EXIT_FAILURE, [], s1)
             else
          (case device_ioctl \<lparr>private_data = NULL, f_minor = minor\<rparr> MSG_SLOT_CHANNEL (ucast channel_id) of
             (ret_val, f) \<Rightarrow>
             if ret_val < 0 then Inr (EXIT_FAILURE, [], s1)
             else
               bindE (dread f room MAX_BUF_LEN s1) (\<lambda>(ret_val, buffer).
                 if ret_val < 0 then Inr (EXIT_FAILURE, [], s1)
                 else if \<not> stdout_ok then Inr (EXIT_FAILURE, [], s1)
                 else Inr (0, take (nat ret_val) buffer, s1)))))"

section \<open>The interface of the device\<close>

text \<open>
  What the programs need of the driver.  \<open>msg\<close> is the message of a minor's channel, \<open>sound\<close> says
  that it can be read, and \<open>room\<close> that a channel can be written without a new allocation failing.
\<close>

locale message_device =
  fixes dopen :: "nat \<Rightarrow> 'k \<Rightarrow> int \<times> 'k"
    and dwrite :: "kfile \<Rightarrow> u8 list \<Rightarrow> u64 \<Rightarrow> 'k \<Rightarrow> 'e + int \<times> 'k"
    and dread :: "kfile \<Rightarrow> nat \<Rightarrow> u64 \<Rightarrow> 'k \<Rightarrow> 'e + int \<times> u8 list"
    and good :: "'k \<Rightarrow> bool"
    and opened :: "'k \<Rightarrow> nat \<Rightarrow> bool"
    and room_for :: "'k \<Rightarrow> nat \<Rightarrow> u64 \<Rightarrow> bool"
    and msg :: "'k \<Rightarrow> nat \<Rightarrow> u64 \<Rightarrow> u8 list option"
    and sound :: "'k \<Rightarrow> nat \<Rightarrow> u64 \<Rightarrow> bool"
  assumes open_law: "good s \<Longrightarrow> m < 256 \<Longrightarrow> dopen m s = (r, t) \<Longrightarrow>
      good t \<and> (r < 0 \<or> opened t m) \<and> (\<forall>n i. msg t n i = msg s n i \<and> (sound t n i \<longleftrightarrow> sound s n i))"
    and open_again: "opened s m \<Longrightarrow> dopen m s = (0, s)"
    and write_law: "good s \<Longrightarrow> opened s m \<Longrightarrow> m < 256 \<Longrightarrow> i \<noteq> 0 \<Longrightarrow> room_for s m i \<Longrightarrow>
      0 < length bs \<Longrightarrow> length bs \<le> 128 \<Longrightarrow>
      \<exists>r t. dwrite \<lparr>private_data = i, f_minor = m\<rparr> bs (of_nat (length bs)) s = Inr (r, t) \<and> good t \<and>
        (\<forall>n. opened t n \<longleftrightarrow> opened s n) \<and>
        (\<forall>n j. (n, j) \<noteq> (m, i) \<longrightarrow> msg t n j = msg s n j \<and> (sound t n j \<longleftrightarrow> sound s n j)) \<and>
        (r < 0 \<or> msg t m i = Some bs \<and> sound t m i)"
    and read_law: "good s \<Longrightarrow> opened s m \<Longrightarrow> m < 256 \<Longrightarrow> i \<noteq> 0 \<Longrightarrow> sound s m i \<Longrightarrow>
      msg s m i = Some bs \<Longrightarrow> length bs \<le> 128 \<and> dread \<lparr>private_data = i, f_minor = m\<rparr> 128 128 s = Inr (int (length bs), bs)"
begin

lemma sender_spec:
  fixes ch :: int
  defines "i \<equiv> (ucast (of_int ch :: u32) :: u64)"
  assumes "good s" "m < 256" "i \<noteq> 0" "0 < length bs" "length bs \<le> 128"
    "room_for (snd (dopen m s)) m i"
  shows "\<exists>code t. message_sender_main dopen dwrite 4 (Some m) ch bs s = Inr (code, t) \<and> good t \<and>
    (\<forall>n j. (n, j) \<noteq> (m, i) \<longrightarrow> msg t n j = msg s n j \<and> (sound t n j \<longleftrightarrow> sound s n j)) \<and>
    (code = 0 \<and> opened t m \<and> msg t m i = Some bs \<and> sound t m i \<or> code = EXIT_FAILURE)"
proof -
  obtain r s1 where o: "dopen m s = (r, s1)" by force
  note o' = open_law [OF assms(2,3) o]
  show ?thesis
  proof (cases "r < 0")
    case True
    then show ?thesis using o o' by (simp add: message_sender_main_def)
  next
    case False
    then have op: "opened s1 m" using o' by simp
    have room: "room_for s1 m i" using assms(7) o by simp
    obtain w t where w: "dwrite \<lparr>private_data = i, f_minor = m\<rparr> bs (of_nat (length bs)) s1 = Inr (w, t)"
        "good t" "\<forall>n. opened t n \<longleftrightarrow> opened s1 n"
        "\<forall>n j. (n, j) \<noteq> (m, i) \<longrightarrow> msg t n j = msg s1 n j \<and> (sound t n j \<longleftrightarrow> sound s1 n j)"
        "w < 0 \<or> msg t m i = Some bs \<and> sound t m i"
      using write_law [OF _ op assms(3,4) room assms(5,6)] o' by blast
    have io: "device_ioctl \<lparr>private_data = NULL, f_minor = m\<rparr> MSG_SLOT_CHANNEL (ucast (of_int ch :: u32)) =
        (0, \<lparr>private_data = i, f_minor = m\<rparr>)"
      using assms(4) by (simp add: device_ioctl_def i_def SUCCESS_def)
    have "message_sender_main dopen dwrite 4 (Some m) ch bs s = Inr (if w < 0 then EXIT_FAILURE else 0, t)"
      using False o io w(1) by (simp add: message_sender_main_def)
    then show ?thesis using w op o' by auto
  qed
qed

lemma reader_spec:
  fixes ch :: int
  defines "i \<equiv> (ucast (of_int ch :: u32) :: u64)"
  assumes "good s" "m < 256" "i \<noteq> 0" "opened s m" "sound s m i" "msg s m i = Some bs"
  shows "message_reader_main dopen dread 3 (Some m) ch 128 True s = Inr (0, bs, s)"
proof -
  have io: "device_ioctl \<lparr>private_data = NULL, f_minor = m\<rparr> MSG_SLOT_CHANNEL (ucast (of_int ch :: u32)) =
      (0, \<lparr>private_data = i, f_minor = m\<rparr>)"
    using assms(4) by (simp add: device_ioctl_def i_def SUCCESS_def)
  have "MAX_BUF_LEN = 128" by (simp add: MAX_BUF_LEN_def)
  then show ?thesis
    using open_again [OF assms(5)] io read_law [OF assms(2,5,3,4,6,7)]
    by (simp add: message_reader_main_def)
qed

end

section \<open>The driver as a device\<close>

lemma open_again_driver: "g_msg_slots s ! m \<noteq> NULL \<Longrightarrow> device_open ke m s = (0, s)"
  by (simp add: device_open_def SUCCESS_def)

lemma message_length:
  assumes "kinv s" "intact s m i" "message s m i = Some bs"
  shows "0 < length bs" "length bs \<le> 128"
proof -
  obtain p where p: "channel_of s m i = Some p" "contents s p = Some bs" "chan_intact s p"
    using assms(2,3) by (auto simp: message_def intact_def Option.bind_eq_Some_conv)
  then have "0 < length bs \<and> length bs \<le> 128"
    by (auto simp: contents_def chan_intact_def Let_def split: if_splits option.splits)
  then show "0 < length bs" "length bs \<le> 128" by simp_all
qed

definition room_for :: "kenv \<Rightarrow> kernel \<Rightarrow> nat \<Rightarrow> u64 \<Rightarrow> bool" where
  "room_for ke s m i \<longleftrightarrow> channel_of s m i \<noteq> None \<or> kmalloc_at ke s sizeof_channel \<noteq> NULL"

interpretation dev: message_device "device_open ke" "device_write ke" device_read
  "\<lambda>s. kinv s \<and> kmem_contract ke" "\<lambda>s m. g_msg_slots s ! m \<noteq> NULL" "room_for ke" message intact for ke
proof (unfold_locales, goal_cases)
  case (1 s m r t)
  then show ?case using device_open_spec [of s ke m r t] by (auto simp: errnos)
next
  case (2 s m)
  then show ?case by (rule open_again_driver)
next
  case (3 s m i bs)
  let ?f = "\<lparr>private_data = i, f_minor = m\<rparr>" and ?n = "of_nat (length bs) :: u64"
  have n: "unat ?n = length bs" using 3(7) by (simp add: unsigned_of_nat take_bit_nat_eq_self)
  then have "?n \<noteq> 0" "?n \<le> MAX_BUF_LEN" using 3(6,7) by (auto simp: MAX_BUF_LEN_def word_le_nat_alt)
  then show ?case
    using device_write_spec [of s ke ?f ?n bs] 3 n by (auto simp: room_for_def errnos)
next
  case (4 s m i bs)
  then show ?case
    using device_read_spec [of s "\<lparr>private_data = i, f_minor = m\<rparr>" 128 128] message_length [of s m i bs] by simp
qed

end
