(* ===== verification/Slot_Thms.thy ===== *)
theory Slot_Thms
  imports Slot_Tools
begin

text \<open>
  The properties of the message slot driver and its tools, with witnesses on small concrete
  states; the last section holds what goes wrong when memory is short or a user's buffer
  cannot be read.
\<close>

section \<open>Concrete states\<close>

text \<open>An allocator that hands out new addresses and fails at the calls whose numbers are listed.\<close>

definition test_env :: "nat list \<Rightarrow> kenv" where
  "test_env fails =
     \<lparr>kmalloc_at = (\<lambda>s n. let a = 16 * (of_nat (n_allocs s) + 1)
                         in if n_allocs s \<in> set fails \<or> live s a then NULL else a),
      krealloc_at = (\<lambda>s p n. if n_allocs s \<in> set fails then NULL else p),
      junk_byte = (\<lambda>s i. 0xAA), junk_len = (\<lambda>s. 7)\<rparr>"

lemma test_env_contract: "kmem_contract (test_env fails)"
  by (auto simp: kmem_contract_def test_env_def Let_def)

definition k1 :: kernel where
  "k1 = \<lparr>g_msg_slots = (replicate 256 NULL)[3 := 16], slot_heap = [16 \<mapsto> NULL], chan_heap = Map.empty,
     buf_heap = Map.empty, n_allocs = 1\<rparr>"

definition k2 :: kernel where
  "k2 = \<lparr>g_msg_slots = (replicate 256 NULL)[3 := 16], slot_heap = [16 \<mapsto> 32],
     chan_heap = [32 \<mapsto> \<lparr>msg_buffer = 48, curr_msg_len = 2, ch_id = 5, active = 1, ch_next = NULL\<rparr>],
     buf_heap = [48 \<mapsto> [104, 105]], n_allocs = 3\<rparr>"

abbreviation file5 :: kfile where
  "file5 \<equiv> \<lparr>private_data = 5, f_minor = 3\<rparr>"

abbreviation file6 :: kfile where
  "file6 \<equiv> \<lparr>private_data = 6, f_minor = 3\<rparr>"

lemma k1_open: "device_open (test_env []) 3 kernel_init = (0, k1)"
  by (simp add: device_open_def init_msg_slot_def kernel_init_def MAX_MINORS_AMOUNT_def test_env_def
      live_def errnos k1_def)

lemma k1_inv: "kinv k1" "no_leak k1" "message k1 m i = None" "intact k1 m i"
  using device_open_spec [OF init_kinv test_env_contract _ k1_open] by (simp_all add: init_message)

lemma k1_slot: "g_msg_slots k1 ! 3 = 16"
  by (simp add: k1_def)

lemma k1_chans: "chans k1 3 = []"
  by (simp add: slot_chans_def k1_def MAX_MINORS_AMOUNT_def)

lemma k1_channel: "channel_of k1 3 i = None"
  by (simp add: channel_of_def k1_chans)

lemma k1_alloc: "kmalloc_at (test_env []) k1 n = 32"
  by (simp add: test_env_def k1_def live_def)

lemma k2_write: "device_write (test_env []) file5 [104, 105] 2 k1 = Inr (2, k2)"
proof -
  let ?c = "\<lparr>msg_buffer = NULL, curr_msg_len = 7, ch_id = 5, active = 0, ch_next = NULL\<rparr>"
  let ?t = "(tick k1)\<lparr>chan_heap := [32 \<mapsto> ?c], slot_heap := [16 \<mapsto> 32]\<rparr>"
  have "find_channel k1 NULL 5 = Some (Inr NULL)" by (subst find_channel.simps) simp
  moreover have sl: "get_slot k1 16 = Inr NULL" by (simp add: get_slot_def k1_def)
  moreover have "add_channel_to_msg_slot (test_env []) 16 5 k1 = Inr (SUCCESS, ?t)"
    unfolding add_channel_to_msg_slot_def k1_alloc sl by (simp add: k1_def test_env_def)
  ultimately have "write_channel (test_env []) 16 5 k1 = Inr (None, 32, ?t)"
    by (simp add: write_channel_def unless_diverging_def errnos) (simp add: get_slot_def)
  then have "device_write (test_env []) file5 [104, 105] 2 k1 = store_message (test_env []) 32 [104, 105] 2 ?t"
    by (intro device_write_store) (simp_all add: k1_slot MAX_BUF_LEN_def)
  also have "\<dots> = Inr (2, k2)"
    by (simp add: store_message_def write_buffer_def write_message_def copy_from_user_def kmalloc_buf_def
        get_chan_def put_chan_def test_env_def live_def k1_def k2_def)
  finally show ?thesis .
qed

lemma k1_slot_nn: "g_msg_slots k1 ! 3 \<noteq> NULL"
  by (simp add: k1_slot)

lemma k1_room: "channel_of k1 3 5 \<noteq> None \<or> kmalloc_at (test_env []) k1 sizeof_channel \<noteq> NULL"
  by (simp add: k1_alloc)

lemma k2_facts: "kinv k2" "no_leak k2" "message k2 3 5 = Some [104, 105]" "intact k2 m i"
  "message k2 3 6 = None" "g_msg_slots k2 ! 3 = 16"
proof -
  have w: "kinv k2 \<and> message k2 3 5 = Some [104, 105] \<and> intact k2 3 5 \<and> no_leak k2 \<and>
      (\<forall>n j. (n, j) \<noteq> (3, 5) \<longrightarrow> message k2 n j = message k1 n j \<and> intact k2 n j = intact k1 n j)"
    using device_write_spec [OF k1_inv(1) test_env_contract, of file5 "[]" 2 "[104, 105]"] k1_room
    by (simp add: k1_slot MAX_BUF_LEN_def k2_write k1_inv errnos)
  then show "kinv k2" "no_leak k2" "message k2 3 5 = Some [104, 105]" "message k2 3 6 = None" "intact k2 m i"
    using k1_inv by (cases "(m, i) = (3, 5)"; simp)+
  show "g_msg_slots k2 ! 3 = 16" by (simp add: k2_def)
qed

lemma k2_chans: "chans k2 3 = [32]"
  by (simp add: slot_chans_def k2_def MAX_MINORS_AMOUNT_def, subst chan_list.simps, simp)

lemma k2_channel: "channel_of k2 3 5 = Some 32" "channel_of k2 3 6 = None"
  by (simp_all add: channel_of_def k2_chans id_of_def) (simp_all add: k2_def)

section \<open>The operations\<close>

text \<open>Claim C11. Whatever sequence of system calls the processes make, whichever allocations fail and
  however little of a user's buffer can be read, as long as the kernel runs its lists of
  channels are well formed and disjoint, channel ids are unique per minor, no buffer is shared,
  and every open descriptor belongs to a minor whose slot exists.\<close>

theorem driver_invariant:
  assumes "slot_reach ke S" "kmem_contract ke"
  shows "slotsys_inv S"
  by (rule slot_reach_inv [OF assms])

lemma reach_k1: "slot_reach (test_env []) \<lparr>ker = k1, fds = [4 \<mapsto> \<lparr>private_data = NULL, f_minor = 3\<rparr>]\<rparr>"
  using slot_reach.step [OF slot_reach.start slot_step.sys_open [of 3 _ 4 "test_env []" 0 k1]] k1_open
  by (simp add: MAX_MINORS_AMOUNT_def errnos)

theorem driver_invariant_witness:
  "slotsys_inv \<lparr>ker = k1, fds = [4 \<mapsto> \<lparr>private_data = NULL, f_minor = 3\<rparr>]\<rparr>"
  by (rule driver_invariant [OF reach_k1 test_env_contract])

text \<open>Claim C4. \<^verbatim>\<open>device_write\<close> on every branch, failing allocations included: without a channel or
  with an illegal length it returns the error and changes nothing.  Otherwise the message goes to
  the place of the write, which is the caller's own channel if this exists or can be allocated,
  and else the first channel of the list; when the list is empty the driver dereferences null.
  The result is \<^verbatim>\<open>-ENOMEM\<close> exactly when the request for the buffer fails, else \<^verbatim>\<open>-EFAULT\<close> exactly
  when the user's bytes cannot all be read, else the length, and then the message is stored.  No
  channel but the place of the write changes its message; if the caller's channel exists or can be
  allocated, this means that every other channel keeps its message.\<close>

theorem device_write_correct:
  assumes "kinv s" "kmem_contract ke" "f_minor f < 256" "g_msg_slots s ! f_minor f \<noteq> NULL"
  shows "if private_data f = 0 then device_write ke f u len s = Inr (- EINVAL, s)
    else if unat len = 0 \<or> 128 < unat len then device_write ke f u len s = Inr (- EMSGSIZE, s)
    else case write_place ke s (f_minor f) (private_data f) of
        None \<Rightarrow> device_write ke f u len s = Inl Null_deref
      | Some (p, t) \<Rightarrow> \<exists>r s'. device_write ke f u len s = Inr (r, s') \<and> kinv s' \<and>
          (if no_buffer ke t p (unat len) then r = - ENOMEM
           else if length u < unat len then r = - EFAULT
           else r = int (unat len) \<and> contents s' p = Some (take (unat len) u)) \<and>
          (\<forall>n j. channel_of s' n j \<noteq> Some p \<longrightarrow> message s' n j = message s n j) \<and>
          (room_for ke s (f_minor f) (private_data f) \<longrightarrow>
             channel_of s' (f_minor f) (private_data f) = Some p \<and>
             (\<forall>n j. (n, j) \<noteq> (f_minor f, private_data f) \<longrightarrow> message s' n j = message s n j))"
proof (cases "private_data f = 0 \<or> len = 0 \<or> len > MAX_BUF_LEN")
  case True
  moreover have "len > MAX_BUF_LEN \<longleftrightarrow> unat len > 128" by (simp add: MAX_BUF_LEN_def word_less_nat_alt)
  ultimately show ?thesis by (auto simp: device_write_def unat_eq_0)
next
  case False
  let ?m = "f_minor f" and ?i = "private_data f"
  have ok: "\<not> (unat len = 0 \<or> 128 < unat len)" "?i \<noteq> 0" "len \<noteq> 0" "len \<le> MAX_BUF_LEN"
    using False by (auto simp: unat_eq_0 MAX_BUF_LEN_def word_less_nat_alt word_le_nat_alt not_less)
  note place = device_write_place [OF assms ok(2-4), of u]
  show ?thesis
  proof (cases "write_place ke s ?m ?i")
    case None
    then show ?thesis using place ok by simp
  next
    case (Some x)
    then obtain p t where pt: "write_place ke s ?m ?i = Some (p, t)" by (cases x) auto
    obtain r s' where s': "device_write ke f u len s = Inr (r, s')" "kinv t" "only_channel p t s'"
        "\<And>n j. message t n j = message s n j" "room_for ke s ?m ?i \<Longrightarrow> channel_of t ?m ?i = Some p"
        "write_outcome ke t p u len r s'"
      using place pt by (auto simp: room_for_def)
    have same: "kinv s'" "channel_of s' n j = channel_of t n j"
      "channel_of t n j \<noteq> Some p \<Longrightarrow> message s' n j = message s n j" for n j
      using s'(3,4) by (simp_all add: only_channel_def)
    have "message s' n j = message s n j" if "room_for ke s ?m ?i" "(n, j) \<noteq> (?m, ?i)" for n j
      using channel_of_unique [OF s'(2) s'(5) [OF that(1)], of n j] that(2) same(3) [of n j] by auto
    moreover have "room_for ke s ?m ?i \<Longrightarrow> channel_of s' ?m ?i = Some p" using s'(5) same(2) by simp
    ultimately have "\<exists>r s'. device_write ke f u len s = Inr (r, s') \<and> kinv s' \<and>
          (if no_buffer ke t p (unat len) then r = - ENOMEM
           else if length u < unat len then r = - EFAULT
           else r = int (unat len) \<and> contents s' p = Some (take (unat len) u)) \<and>
          (\<forall>n j. channel_of s' n j \<noteq> Some p \<longrightarrow> message s' n j = message s n j) \<and>
          (room_for ke s ?m ?i \<longrightarrow> channel_of s' ?m ?i = Some p \<and>
             (\<forall>n j. (n, j) \<noteq> (?m, ?i) \<longrightarrow> message s' n j = message s n j))"
      using s'(1,6) same unfolding write_outcome_def by (intro exI [of _ r] exI [of _ s']) (simp split: if_splits)
    then show ?thesis unfolding pt using ok by simp
  qed
qed

lemma k1_place: "write_place (test_env []) k1 3 5 =
    Some (32, with_channel k1 16 32 \<lparr>msg_buffer = NULL, curr_msg_len = 7, ch_id = 5, active = 0, ch_next = NULL\<rparr>)"
  by (simp add: write_place_def k1_channel k1_alloc k1_slot) (simp add: test_env_def k1_def)

text \<open>The own channel, a channel that is taken for it, and no channel.\<close>

theorem device_write_correct_witness:
  "message k2 3 5 = Some [104, 105] \<and> message k2 3 6 = message k1 3 6 \<and> message k2 7 5 = message k1 7 5 \<and>
   (\<exists>s'. device_write (test_env [3]) file6 [120] 1 k2 = Inr (1, s') \<and> contents s' 32 = Some [120]) \<and>
   device_write (test_env [1]) file5 [104, 105] 2 k1 = Inl Null_deref"
proof (intro conjI)
  have r: "room_for (test_env []) k1 3 5" using k1_room by (simp add: room_for_def)
  show "message k2 3 5 = Some [104, 105]" by (rule k2_facts(3))
  show "message k2 3 6 = message k1 3 6" "message k2 7 5 = message k1 7 5"
    using device_write_correct [OF k1_inv(1) test_env_contract, of file5 "[]" "[104, 105]" 2] r
    by (simp_all add: k1_slot k1_place k2_write)
  have p: "write_place (test_env [3]) k2 3 6 = Some (32, tick k2)"
  proof -
    have "kmalloc_at (test_env [3]) k2 sizeof_channel = NULL" by (simp add: test_env_def k2_def)
    then show ?thesis by (simp add: write_place_def k2_channel k2_chans Let_def)
  qed
  have b: "\<not> no_buffer (test_env [3]) (tick k2) 32 1" by (simp add: no_buffer_def k2_def test_env_def)
  show "\<exists>s'. device_write (test_env [3]) file6 [120] 1 k2 = Inr (1, s') \<and> contents s' 32 = Some [120]"
    using device_write_correct [OF k2_facts(1) test_env_contract, of file6 "[3]" "[120]" 1] b
    by (auto simp: k2_facts(6) p)
  have "write_place (test_env [1]) k1 3 5 = None"
  proof -
    have "kmalloc_at (test_env [1]) k1 sizeof_channel = NULL" by (simp add: test_env_def k1_def)
    then show ?thesis by (simp add: write_place_def k1_channel k1_chans Let_def)
  qed
  then show "device_write (test_env [1]) file5 [104, 105] 2 k1 = Inl Null_deref"
    using device_write_correct [OF k1_inv(1) test_env_contract, of file5 "[1]" "[104, 105]" 2] by (simp add: k1_slot)
qed

text \<open>Claim C32. \<^verbatim>\<open>device_read\<close> on every branch, for a channel that no half-finished write has touched:
  the message if there is one and it fits, \<^verbatim>\<open>-EINVAL\<close> without a channel, \<^verbatim>\<open>-EWOULDBLOCK\<close> when
  nothing was written, \<^verbatim>\<open>-ENOSPC\<close> for a short length and \<^verbatim>\<open>-EFAULT\<close> when the user's buffer
  cannot be written.\<close>

theorem device_read_correct:
  assumes "kinv s" "f_minor f < 256" "g_msg_slots s ! f_minor f \<noteq> NULL"
    "intact s (f_minor f) (private_data f)"
  shows "device_read f room len s =
    Inr (if private_data f = 0 then (- EINVAL, [])
         else case message s (f_minor f) (private_data f) of
           None \<Rightarrow> (- EWOULDBLOCK, [])
         | Some bs \<Rightarrow>
             if unat len < length bs then (- ENOSPC, [])
             else if room < length bs then (- EFAULT, take room bs)
             else (int (length bs), bs))"
  using device_read_spec [OF assms(1-3) _ assms(4), of room len]
  by (cases "private_data f = 0") (simp_all add: device_read_def)

theorem device_read_correct_witness:
  "device_read file5 10 1 k2 = Inr (- ENOSPC, []) \<and> device_read file5 10 128 k2 = Inr (2, [104, 105])"
  using device_read_correct [OF k2_facts(1), of file5] k2_facts by simp

text \<open>Claim C9. When the channel of a write exists or the memory for it can be allocated, and the
  write reports success, a reader of this channel with room for the message gets exactly the bytes
  written, and what is read from any other, intact channel does not change.  Without the memory
  for a new channel neither holds, see \<open>unnoticed_allocation_failure\<close>.\<close>

theorem write_then_read:
  assumes "kinv s" "kmem_contract ke" "f_minor f < 256" "g_msg_slots s ! f_minor f \<noteq> NULL"
    "channel_of s (f_minor f) (private_data f) \<noteq> None \<or> kmalloc_at ke s sizeof_channel \<noteq> NULL"
    "device_write ke f u len s = Inr (r, s')" "r > 0"
    "unat len \<le> unat len'" "unat len \<le> room"
    "f_minor g < 256" "g_msg_slots s ! f_minor g \<noteq> NULL" "intact s (f_minor g) (private_data g)"
    "(f_minor g, private_data g) \<noteq> (f_minor f, private_data f)"
  shows "device_read f room len' s' = Inr (int (unat len), take (unat len) u) \<and>
    device_read g room2 len2 s' = device_read g room2 len2 s"
proof -
  have ok: "private_data f \<noteq> 0" "len \<noteq> 0" "len \<le> MAX_BUF_LEN"
    using assms(6,7) by (auto simp: device_write_def errnos split: if_splits)
  have w: "kinv s'" "g_msg_slots s' = g_msg_slots s"
    "\<And>n j. (n, j) \<noteq> (f_minor f, private_data f) \<Longrightarrow> message s' n j = message s n j \<and> intact s' n j = intact s n j"
    "unat len \<le> length u" "message s' (f_minor f) (private_data f) = Some (take (unat len) u)"
    "intact s' (f_minor f) (private_data f)"
    using device_write_spec [OF assms(1-4) ok(1) assms(5) ok(2,3), of u] assms(6,7) by (auto simp: errnos)
  have "device_read g room2 len2 s' = device_read g room2 len2 s"
  proof (cases "private_data g = 0")
    case False
    then show ?thesis
      using device_read_spec [OF w(1), of g] device_read_spec [OF assms(1), of g] assms(10-13) w(2,3) by simp
  qed (simp add: device_read_def)
  then show ?thesis
    using device_read_spec [OF w(1), of f room len'] assms(3,4,8,9) ok(1) w(2,4-6) by (simp add: min_def)
qed

theorem write_then_read_witness:
  "device_read file5 4 128 k2 = Inr (2, [104, 105]) \<and> device_read file6 4 128 k2 = device_read file6 4 128 k1"
  using write_then_read [OF k1_inv(1) test_env_contract, of file5 "[]" "[104, 105]" 2 2 k2 128 4 file6 4 128]
    k1_room k1_inv
  by (simp add: k1_slot k2_write)

text \<open>Opening a device changes no message; it gives the minor a slot on first use, keeps the
  slot on every later one, and fails only with \<^verbatim>\<open>-ENOMEM\<close>.\<close>

theorem device_open_correct:
  assumes "kinv s" "kmem_contract ke" "m < 256" "device_open ke m s = (r, t)"
  shows "kinv t \<and> (r = SUCCESS \<and> g_msg_slots t ! m \<noteq> NULL \<or> r = - ENOMEM) \<and>
    (\<forall>n i. message t n i = message s n i) \<and>
    (\<forall>n. g_msg_slots s ! n \<noteq> NULL \<longrightarrow> g_msg_slots t ! n = g_msg_slots s ! n)"
  using device_open_spec [OF assms] by blast

theorem device_open_correct_witness: "kinv k1 \<and> message k1 3 5 = None"
  using device_open_correct [OF init_kinv test_env_contract _ k1_open] by (simp add: init_message)

text \<open>Claim C23. Unloading the module frees every slot, every channel and the buffer of every channel,
  never frees or reads memory that is not allocated, and leaves exactly the buffers that no
  channel owns.  There are none unless a failed write leaked one, as in
  \<open>failed_krealloc_loses_message\<close>.\<close>

theorem unload_frees_owned:
  assumes "kinv s"
  shows "\<exists>t. msg_slot_cleanup s = Inr t \<and> slot_heap t = Map.empty \<and> chan_heap t = Map.empty \<and>
    (\<forall>b. buf_heap t b =
       (if \<exists>p c. chan_heap s p = Some c \<and> active c = 1 \<and> msg_buffer c = b then None else buf_heap s b)) \<and>
    (no_leak s \<longleftrightarrow> buf_heap t = Map.empty)"
  using cleanup_spec [OF assms] unfolding no_leak_leaks by (auto simp flip: leaks_alt)

text \<open>A module with all its memory owned, and one with a leaked buffer at address 80.\<close>

theorem unload_frees_owned_witness:
  "(\<exists>t. msg_slot_cleanup k2 = Inr t \<and> slot_heap t = Map.empty \<and> chan_heap t = Map.empty \<and> buf_heap t = Map.empty) \<and>
   (\<exists>t. msg_slot_cleanup (k2\<lparr>buf_heap := [48 \<mapsto> [104, 105], 80 \<mapsto> [120]]\<rparr>) = Inr t \<and> buf_heap t 80 = Some [120])"
proof
  show "\<exists>t. msg_slot_cleanup k2 = Inr t \<and> slot_heap t = Map.empty \<and> chan_heap t = Map.empty \<and> buf_heap t = Map.empty"
    using unload_frees_owned [OF k2_facts(1)] k2_facts(2) by blast
  let ?s = "k2\<lparr>buf_heap := [48 \<mapsto> [104, 105], 80 \<mapsto> [120]]\<rparr>"
  have same: "slot_chans ?s n = slot_chans k2 n" for n by (simp add: slot_chans_def split: option.split)
  have id: "id_of ?s = id_of k2" by (simp add: fun_eq_iff id_of_def)
  have "lists_ok ?s" using k2_facts(1) by (simp add: kinv_def lists_ok_def same id)
  moreover have "slots_ok ?s" using k2_facts(1) by (simp add: kinv_def slots_ok_def)
  moreover have "heaps_ok ?s" "bufs_ok ?s"
    using k2_facts(1) by (auto simp: kinv_def heaps_ok_def bufs_ok_def live_def k2_def)
  ultimately have "kinv ?s" by (simp add: kinv_def)
  from unload_frees_owned [OF this] obtain t where t: "msg_slot_cleanup ?s = Inr t" "buf_heap t 80 =
      (if \<exists>p c. chan_heap ?s p = Some c \<and> active c = 1 \<and> msg_buffer c = 80 then None else buf_heap ?s 80)"
    by blast
  moreover have "\<not> (\<exists>p c. chan_heap ?s p = Some c \<and> active c = 1 \<and> msg_buffer c = 80)"
    by (auto simp: k2_def split: if_splits)
  ultimately show "\<exists>t. msg_slot_cleanup ?s = Inr t \<and> buf_heap t 80 = Some [120]" by simp
qed

text \<open>Claim C17. Sender and reader together, when after the sender's \<^verbatim>\<open>open\<close> the channel exists or the
  memory for it can be allocated: the sender exits with 0 or 1 and changes no other channel's
  message, and if it exits with 0 the reader prints exactly its message.  Without that memory the
  sender may exit with 0 although its message went to another channel, see
  \<open>unnoticed_allocation_failure\<close>.\<close>

theorem reader_prints_sent_message:
  assumes "kinv s" "kmem_contract ke" "m < 256" "(of_int ch :: u32) \<noteq> 0" "0 < length bs" "length bs \<le> 128"
    "room_for ke (snd (device_open ke m s)) m (ucast (of_int ch :: u32))"
  shows "\<exists>code t. message_sender_main (device_open ke) (device_write ke) 4 (Some m) ch bs s = Inr (code, t) \<and>
    kinv t \<and> (code = 0 \<or> code = EXIT_FAILURE) \<and>
    (\<forall>n j. (n, j) \<noteq> (m, ucast (of_int ch :: u32)) \<longrightarrow> message t n j = message s n j) \<and>
    (code = 0 \<longrightarrow>
       message_reader_main (device_open ke) device_read 3 (Some m) ch 128 True t = Inr (0, bs, t))"
proof -
  let ?i = "ucast (of_int ch :: u32) :: u64"
  have i: "?i \<noteq> 0"
    using assms(4) unat_lt_32 [of "of_int ch"]
    by (simp add: word_unat_eq_iff unsigned_ucast_eq take_bit_nat_eq_self)
  obtain code t where t: "message_sender_main (device_open ke) (device_write ke) 4 (Some m) ch bs s = Inr (code, t)"
    "kinv t" "\<forall>n j. (n, j) \<noteq> (m, ?i) \<longrightarrow> message t n j = message s n j"
    "code = 0 \<and> g_msg_slots t ! m \<noteq> NULL \<and> message t m ?i = Some bs \<and> intact t m ?i \<or> code = EXIT_FAILURE"
    using dev.sender_spec [of s ke m ch bs] assms i by blast
  have "code = 0 \<longrightarrow>
       message_reader_main (device_open ke) device_read 3 (Some m) ch 128 True t = Inr (0, bs, t)"
    using dev.reader_spec [of t ke m ch bs] assms(2,3) t i by (auto simp: EXIT_FAILURE_def)
  then show ?thesis using t by blast
qed

lemma sender_run:
  "message_sender_main (device_open (test_env [])) (device_write (test_env [])) 4 (Some 3) 5 [104, 105] kernel_init =
   Inr (0, k2)"
  using k2_write by (simp add: message_sender_main_def k1_open device_ioctl_def errnos)

theorem reader_prints_sent_message_witness:
  "message_reader_main (device_open (test_env [])) device_read 3 (Some 3) 5 128 True k2 = Inr (0, [104, 105], k2)"
  using reader_prints_sent_message [OF init_kinv test_env_contract, of 3 5 "[104, 105]" "[]"] sender_run
  by (simp add: k1_open room_for_def k1_alloc)

section \<open>Failures\<close>

text \<open>Claim C33. When no memory is left for a new channel, the result \<^verbatim>\<open>-ENOMEM\<close> of
  \<^verbatim>\<open>add_channel_to_msg_slot\<close> is not recognised: the write goes on with the first channel of the
  list, and if it reports success the message is in that other channel and the caller's own
  channel has none.\<close>

theorem unnoticed_allocation_failure:
  assumes "kinv s" "kmem_contract ke" "f_minor f < 256" "g_msg_slots s ! f_minor f \<noteq> NULL"
    "private_data f \<noteq> 0" "channel_of s (f_minor f) (private_data f) = None"
    "kmalloc_at ke s sizeof_channel = NULL" "len \<noteq> 0" "len \<le> MAX_BUF_LEN"
    "channel_of s (f_minor f) j = Some p" "hd (chans s (f_minor f)) = p"
    "device_write ke f u len s = Inr (r, s')" "r > 0"
  shows "r = int (unat len) \<and> message s' (f_minor f) j = Some (take (unat len) u) \<and>
    message s' (f_minor f) (private_data f) = None"
proof -
  have "p \<in> set (chans s (f_minor f))" by (rule channel_of_Some(1) [OF assms(1,10)])
  then obtain ps where "chans s (f_minor f) = p # ps" using assms(11) by (cases "chans s (f_minor f)") auto
  then have s': "only_channel p (tick s) s'" "r = int (unat len)" "contents s' p = Some (take (unat len) u)"
    using write_to_head [OF assms(1-9), of u] assms(12,13) by (auto simp: errnos)
  then have "channel_of s' n i = channel_of s n i" for n i by (simp add: only_channel_def)
  then show ?thesis using s' assms(6,10) by (simp add: message_def)
qed

definition k3 :: kernel where
  "k3 = k2\<lparr>buf_heap := [48 \<mapsto> [120]], n_allocs := 5,
     chan_heap := [32 \<mapsto> \<lparr>msg_buffer = 48, curr_msg_len = 1, ch_id = 5, active = 1, ch_next = NULL\<rparr>]\<rparr>"

lemma k2_find6: "find_channel k2 32 6 = Some (Inr NULL)"
  using find_channel_of [OF k2_facts(1), of 3 32 6] k2_facts(6) k2_channel(2) by (simp add: k2_def)

lemma k3_write: "device_write (test_env [3]) file6 [120] 1 k2 = Inr (1, k3)"
proof -
  have "kmalloc_at (test_env [3]) k2 sizeof_channel = NULL" by (simp add: test_env_def k2_def)
  then have "write_channel (test_env [3]) 16 6 k2 = Inr (None, 32, tick k2)"
    using write_channel_failed [OF k2_facts(1), of 3 6] k2_facts(6) k2_channel(2) k2_chans by simp
  then have "device_write (test_env [3]) file6 [120] 1 k2 = store_message (test_env [3]) 32 [120] 1 (tick k2)"
    using k2_facts(6) by (intro device_write_store) (simp_all add: MAX_BUF_LEN_def)
  also have "\<dots> = Inr (1, k3)"
    by (simp add: store_message_def write_buffer_def write_message_def copy_from_user_def krealloc_def
        get_chan_def put_chan_def test_env_def k2_def k3_def)
  finally show ?thesis .
qed

theorem unnoticed_allocation_failure_witness:
  "device_write (test_env [3]) file6 [120] 1 k2 = Inr (1, k3) \<and>
   message k2 3 5 = Some [104, 105] \<and> message k3 3 5 = Some [120] \<and> message k3 3 6 = None"
  using unnoticed_allocation_failure [OF k2_facts(1) test_env_contract, of file6 "[3]" 1 5 32 "[120]" 1 k3]
    k3_write k2_facts k2_channel k2_chans
  by (simp add: MAX_BUF_LEN_def test_env_def) (simp add: k2_def)

text \<open>When no memory is left for the first channel of a slot, the same unrecognised result
  makes the driver dereference the null head of the empty list.\<close>

theorem first_channel_null_deref:
  assumes "kinv s" "kmem_contract ke" "f_minor f < 256" "g_msg_slots s ! f_minor f \<noteq> NULL"
    "private_data f \<noteq> 0" "chans s (f_minor f) = []"
    "kmalloc_at ke s sizeof_channel = NULL" "len \<noteq> 0" "len \<le> MAX_BUF_LEN"
  shows "device_write ke f u len s = Inl Null_deref"
proof -
  have "channel_of s (f_minor f) (private_data f) = None" using assms(6) by (simp add: channel_of_def)
  from write_to_head [OF assms(1-5) this assms(7-9), of u] show ?thesis using assms(6) by simp
qed

theorem first_channel_null_deref_witness: "device_write (test_env [1]) file5 [104, 105] 2 k1 = Inl Null_deref"
  using first_channel_null_deref [OF k1_inv(1) test_env_contract, of file5 "[1]" 2] k1_slot k1_chans
  by (simp add: MAX_BUF_LEN_def test_env_def) (simp add: k1_def)

lemma write_buffer_no_memory:
  assumes "p \<noteq> NULL" "chan_heap s p = Some c" "active c = 1" "msg_buffer c \<noteq> NULL"
    "buf_heap s (msg_buffer c) = Some old" "krealloc_at ke s (msg_buffer c) n = NULL"
  shows "write_buffer ke p n s =
    Inr (Some (- ENOMEM), (tick s)\<lparr>chan_heap := (chan_heap s)(p \<mapsto> c\<lparr>msg_buffer := NULL\<rparr>)\<rparr>)"
  using assms by (simp add: write_buffer_def get_chan_def put_chan_def krealloc_def Let_def)

lemma write_channel_found:
  assumes "kinv s" "m < 256" "g_msg_slots s ! m \<noteq> NULL" "channel_of s m i = Some p"
  shows "write_channel ke (g_msg_slots s ! m) i s = Inr (None, p, s)"
proof -
  obtain h where h: "slot_heap s (g_msg_slots s ! m) = Some h" using kinvD(12) [OF assms(1-3)] by blast
  show ?thesis
    using find_channel_of [OF assms(1,2) h assms(3), of i] assms(3,4) h channel_of_Some(2) [OF assms(1,4)]
    by (simp add: write_channel_def get_slot_def unless_diverging_def)
qed

lemma device_read_copy:
  assumes "kinv s" "f_minor f < 256" "g_msg_slots s ! f_minor f \<noteq> NULL" "private_data f \<noteq> 0"
    "channel_of s (f_minor f) (private_data f) = Some p" "chan_heap s p = Some c" "active c = 1"
    "unat (curr_msg_len c) \<le> unat len" "copy_to_user room (msg_buffer c) (unat (curr_msg_len c)) s = Inl e"
  shows "device_read f room len s = Inl e"
proof -
  obtain h where h: "slot_heap s (g_msg_slots s ! f_minor f) = Some h" using kinvD(12) [OF assms(1-3)] by blast
  have "\<not> len < ucast (curr_msg_len c)"
    using assms(8) unat_lt_32 [of "curr_msg_len c"]
    by (simp add: word_less_nat_alt unsigned_ucast_eq take_bit_nat_eq_self)
  then show ?thesis
    using find_channel_of [OF assms(1,2) h assms(3)] assms(3-7,9) h channel_of_Some(2) [OF assms(1,5)]
    by (simp add: device_read_def get_slot_def get_chan_def unless_diverging_def)
qed

text \<open>Claim C34. A failed \<^verbatim>\<open>krealloc\<close> overwrites the only pointer to the old buffer with null while the
  channel stays active: the buffer is leaked, and the next read of the channel with a large
  enough length copies from address 0.\<close>

theorem failed_krealloc_loses_message:
  assumes "kinv s" "kmem_contract ke" "f_minor f < 256" "g_msg_slots s ! f_minor f \<noteq> NULL" "private_data f \<noteq> 0"
    "len \<noteq> 0" "len \<le> MAX_BUF_LEN"
    "channel_of s (f_minor f) (private_data f) = Some p" "chan_heap s p = Some c" "active c = 1"
    "msg_buffer c \<noteq> NULL" "krealloc_at ke s (msg_buffer c) (unat len) = NULL"
    "unat (curr_msg_len c) \<le> unat len'"
  shows "\<exists>s'. device_write ke f u len s = Inr (- ENOMEM, s') \<and> \<not> no_leak s' \<and>
    device_read f room len' s' = Inl Null_deref"
proof -
  let ?c' = "c\<lparr>msg_buffer := NULL\<rparr>"
  let ?s' = "(tick s)\<lparr>chan_heap := (chan_heap s)(p \<mapsto> ?c')\<rparr>"
  obtain old where old: "buf_heap s (msg_buffer c) = Some old" using kinvD(11) [OF assms(1,9,10,11)] by auto
  have w: "device_write ke f u len s = Inr (- ENOMEM, ?s')"
    using device_write_store [OF assms(5-7) write_channel_found [OF assms(1,3,4,8)], of ke u]
      write_buffer_no_memory [OF channel_of_Some(2) [OF assms(1,8)] assms(9-11) old assms(12)]
    by (simp add: store_message_def)
  have up: "channel_update s ?s' p c ?c'" using assms(1,9,10) by (simp add: channel_update_def)
  have "\<not> no_leak ?s'"
  proof
    assume "no_leak ?s'"
    then obtain q d where q: "chan_heap ?s' q = Some d" "active d = 1" "msg_buffer d = msg_buffer c"
      using old unfolding no_leak_def by auto
    then have "q \<noteq> p" using assms(11) by auto
    then show False using other_buffers [OF assms(1,9), of q d] q assms(10,11) by simp
  qed
  moreover have "device_read f room len' ?s' = Inl Null_deref"
    using assms(3-5,8,10,13) channel_update_same(3) [OF up]
    by (intro device_read_copy [OF channel_update_inv [OF up], of f p ?c']) (simp_all add: copy_to_user_def)
  ultimately show ?thesis using w by blast
qed

definition chan5 :: msg_slot_channel_t where
  "chan5 = \<lparr>msg_buffer = 48, curr_msg_len = 2, ch_id = 5, active = 1, ch_next = NULL\<rparr>"

lemma k2_chan5: "chan_heap k2 32 = Some chan5"
  by (simp add: k2_def chan5_def)

theorem failed_krealloc_loses_message_witness:
  "\<exists>s'. device_write (test_env [3]) file5 [120] 1 k2 = Inr (- ENOMEM, s') \<and> \<not> no_leak s' \<and>
     device_read file5 128 128 s' = Inl Null_deref"
  using failed_krealloc_loses_message [OF k2_facts(1) test_env_contract, of file5 1 32 chan5 "[3]" 128 "[120]" 128]
    k2_facts(6) k2_channel(1) k2_chan5
  by (simp add: MAX_BUF_LEN_def test_env_def chan5_def) (simp add: k2_def)

text \<open>When a shorter message cannot be fetched from the user's buffer, the channel keeps its
  old length while its buffer has been shrunk: the next read of the channel with a large enough
  length copies memory from beyond the end of the buffer to the user.\<close>

theorem faulted_write_overreads:
  assumes "kinv s" "kmem_contract ke" "f_minor f < 256" "g_msg_slots s ! f_minor f \<noteq> NULL" "private_data f \<noteq> 0"
    "len \<noteq> 0" "len \<le> MAX_BUF_LEN"
    "channel_of s (f_minor f) (private_data f) = Some p" "chan_heap s p = Some c" "active c = 1"
    "msg_buffer c \<noteq> NULL" "krealloc_at ke s (msg_buffer c) (unat len) \<noteq> NULL"
    "length u < unat len" "unat len < unat (curr_msg_len c)" "unat (curr_msg_len c) \<le> unat len'"
  shows "\<exists>s'. device_write ke f u len s = Inr (- EFAULT, s') \<and> device_read f room len' s' = Inl Overrun"
proof -
  obtain old where old: "buf_heap s (msg_buffer c) = Some old" using kinvD(11) [OF assms(1,9,10,11)] by auto
  have pn: "p \<noteq> NULL" by (rule channel_of_Some(2) [OF assms(1,8)])
  have dw: "device_write ke f u len s = store_message ke p u len s"
    by (rule device_write_store [OF assms(5-7) write_channel_found [OF assms(1,3,4,8)]])
  show ?thesis
  proof (cases rule: write_buffer_cases [OF assms(1,2,9), of "unat len"])
    case 1
    then show ?thesis
      using assms(9-12) pn old
      by (simp add: write_buffer_def get_chan_def put_chan_def krealloc_def Let_def)
  next
    case (2 b bs)
    let ?c1 = "c\<lparr>msg_buffer := b, active := 1\<rparr>"
    let ?B = "(buf_heap s)(msg_buffer c := if active c = 1 then None else buf_heap s (msg_buffer c), b \<mapsto> bs)"
    let ?s1 = "(tick s)\<lparr>chan_heap := (chan_heap s)(p \<mapsto> ?c1), buf_heap := ?B\<rparr>"
    let ?bs = "take (unat len) u @ replicate (unat len - length u) 0"
    let ?s' = "?s1\<lparr>buf_heap := ?B(b \<mapsto> ?bs)\<rparr>"
    have "write_message p u len ?s1 = Inr (- EFAULT, ?s')"
      using write_message_spec [of p ?s1 ?c1 bs len u] pn 2(1,2) assms(13) by (simp add: Let_def)
    then have w: "device_write ke f u len s = Inr (- EFAULT, ?s')"
      using dw 2(5) by (simp add: store_message_def)
    have up: "channel_update s ?s' p c ?c1"
      by (rule new_buffer_update [OF assms(1,9) 2(1,4)]) simp_all
    have "copy_to_user room b (unat (curr_msg_len c)) ?s' = Inl Overrun"
      using 2(1) assms(13,14) by (simp add: copy_to_user_def)
    then have "device_read f room len' ?s' = Inl Overrun"
      using assms(3-5,8,15) channel_update_same(3) [OF up]
      by (intro device_read_copy [OF channel_update_inv [OF up], of f p ?c1]) simp_all
    then show ?thesis using w by blast
  qed
qed

theorem faulted_write_overreads_witness:
  "\<exists>s'. device_write (test_env []) file5 [] 1 k2 = Inr (- EFAULT, s') \<and> device_read file5 128 128 s' = Inl Overrun"
  using faulted_write_overreads [OF k2_facts(1) test_env_contract, of file5 1 32 chan5 "[]" "[]" 128 128]
    k2_facts(6) k2_channel(1) k2_chan5
  by (simp add: MAX_BUF_LEN_def test_env_def chan5_def)

end
