(* ===== verification/Pfind_Machine.thy ===== *)
theory Pfind_Machine
  imports Prelude "HOL-Library.Multiset" "HOL-Library.Sublist"
begin

text \<open>
  The parallel search of \<^verbatim>\<open>src/hw4_os/pfind.c\<close> as a machine of \<open>n\<close> searching threads and the
  main thread.  A step of the machine is the code between two operations on shared state.
  The queue mutex is held across steps, so every interleaving that the locks allow is a run of the
  machine.  The critical sections of the finish mutex in the searching threads contain no other
  blocking call and are single steps; the main thread holds that mutex across its two reads of
  the shared counters.

  A directory queue is the list of its paths from head to tail, the thread queue the list of its
  thread ids; \<^theory_text>\<open>Pfind_Queue\<close> shows that the doubly linked lists of the program implement them.
\<close>

section \<open>The file system\<close>

text \<open>
  What \<^verbatim>\<open>opendir\<close> with \<^verbatim>\<open>readdir\<close> and \<^verbatim>\<open>stat\<close> answer for a path; \<^const>\<open>None\<close> is an error.  The
  answers do not change during a search.
\<close>

record cfg =
  threads_num :: nat
  search_term :: string
  root_dir :: string
  listing :: "string \<Rightarrow> string list option"
  st_mode :: "string \<Rightarrow> u32 option"

definition PATH_MAX :: nat where
  "PATH_MAX = 4096"

definition S_IRUSR :: u32 where
  "S_IRUSR = 0x100"

definition S_IXUSR :: u32 where
  "S_IXUSR = 0x40"

definition S_ISDIR :: "u32 \<Rightarrow> bool" where
  "S_ISDIR mode \<longleftrightarrow> mode AND 0xF000 = 0x4000"

definition mode_searchable :: "u32 \<Rightarrow> bool" where
  "mode_searchable mode \<longleftrightarrow> mode AND S_IRUSR \<noteq> 0 \<and> mode AND S_IXUSR \<noteq> 0"

definition is_searchable :: "cfg \<Rightarrow> string \<Rightarrow> bool" where
  "is_searchable cfg dir_path =
     (case st_mode cfg dir_path of None \<Rightarrow> False | Some mode \<Rightarrow> mode_searchable mode)"

definition is_dot_folder :: "string \<Rightarrow> bool" where
  "is_dot_folder dir_name \<longleftrightarrow> dir_name = ''.'' \<or> dir_name = ''..''"

fun strstr :: "string \<Rightarrow> string \<Rightarrow> bool" where
  "strstr [] needle = (needle = [])"
| "strstr (c # cs) needle = (prefix needle (c # cs) \<or> strstr cs needle)"

definition new_pathname :: "string \<Rightarrow> string \<Rightarrow> string" where
  "new_pathname path_name d_name = path_name @ ''/'' @ d_name"

section \<open>State\<close>

datatype tpc =
    Wait_start                     \<comment> \<open>in \<open>wait_for_start\<close>\<close>
  | At_lock                        \<comment> \<open>acquiring the queue mutex, first or after a wake-up\<close>
  | Test                           \<comment> \<open>at the condition of the inner loop\<close>
  | Want_finish                    \<comment> \<open>acquiring the finish mutex inside the inner loop\<close>
  | Enqueued                       \<comment> \<open>after that critical section\<close>
  | Asleep                         \<comment> \<open>waiting on its own condition variable\<close>
  | Leave                          \<comment> \<open>after the inner loop, the queue mutex still held\<close>
  | Opening string
  | Searching string "string list" \<comment> \<open>the entries that \<open>readdir\<close> has still to return\<close>
  | Failing                        \<comment> \<open>in \<open>thread_exit_on_error\<close>\<close>
  | Failed
  | Exited

datatype mpc =
    M_start
  | M_lock_finish
  | M_check                        \<comment> \<open>about to read the length of the directory queue\<close>
  | M_check2 bool                  \<comment> \<open>about to read the other counters\<close>
  | M_wait                         \<comment> \<open>waiting on \<open>finish_cv\<close>\<close>
  | M_finish                       \<comment> \<open>about to lock the queue mutex, the finish mutex held\<close>
  | M_join
  | M_done int
  | M_crashed                      \<comment> \<open>the process was killed by an invalid access\<close>

record pfind =
  g_is_search :: bool
  g_all_threads_ready :: bool
  g_files_found :: nat
  g_failed_threads :: nat
  dir_queue :: "string list"
  thread_queue :: "nat list"
  dir_to_handle :: "nat \<Rightarrow> string option"
  tpc :: "nat \<Rightarrow> tpc"
  mpc :: mpc
  queue_mutex :: bool
  finish_mutex :: bool             \<comment> \<open>held by the main thread\<close>
  opened :: "string list"          \<comment> \<open>history: the directories opened\<close>
  handled :: "(string \<times> string) list" \<comment> \<open>history: the entries dealt with, with their directory\<close>

definition pfind_init :: "cfg \<Rightarrow> pfind" where
  "pfind_init cfg =
     \<lparr>g_is_search = False, g_all_threads_ready = False, g_files_found = 0, g_failed_threads = 0,
      dir_queue = [root_dir cfg], thread_queue = [], dir_to_handle = (\<lambda>_. None),
      tpc = (\<lambda>_. Wait_start), mpc = M_start, queue_mutex = False, finish_mutex = False,
      opened = [], handled = []\<rparr>"

definition goto :: "nat \<Rightarrow> tpc \<Rightarrow> pfind \<Rightarrow> pfind" where
  "goto t p s = s\<lparr>tpc := (tpc s)(t := p)\<rparr>"

text \<open>\<^verbatim>\<open>pthread_cond_signal\<close> on the condition variable of thread \<open>t\<close>, and on \<^verbatim>\<open>finish_cv\<close>: a thread
  that is not waiting does not notice.\<close>

definition signal_thread :: "nat \<Rightarrow> pfind \<Rightarrow> pfind" where
  "signal_thread t s = (if tpc s t = Asleep then goto t At_lock s else s)"

definition signal_finish :: "pfind \<Rightarrow> pfind" where
  "signal_finish s = (if mpc s = M_wait then s\<lparr>mpc := M_lock_finish\<rparr> else s)"

section \<open>Searching threads\<close>

definition should_thread_sleep :: "nat \<Rightarrow> pfind \<Rightarrow> bool" where
  "should_thread_sleep t s =
     (if g_is_search s then
        if \<not> g_all_threads_ready s then True
        else if dir_queue s = [] \<and> dir_to_handle s t = None then True else False
      else False)"

text \<open>One searchable subdirectory, under the queue mutex: for an idle thread, or for the queue.\<close>

definition hand_over :: "string \<Rightarrow> pfind \<Rightarrow> pfind" where
  "hand_over new_dir s =
     (if thread_queue s \<noteq> [] then
        let thread = last (thread_queue s)
        in signal_thread thread
             (s\<lparr>thread_queue := butlast (thread_queue s),
                dir_to_handle := (dir_to_handle s)(thread := Some new_dir)\<rparr>)
      else s\<lparr>dir_queue := new_dir # dir_queue s\<rparr>)"

text \<open>
  One turn of the loop of \<^verbatim>\<open>iterate_in_directory\<close>; \<^const>\<open>None\<close> while the queue mutex is not free.
\<close>

definition handle_entry :: "cfg \<Rightarrow> nat \<Rightarrow> string \<Rightarrow> string \<Rightarrow> string list \<Rightarrow> pfind \<Rightarrow> pfind option" where
  "handle_entry cfg t path d_name rest s =
     (let new_path = new_pathname path d_name;
          done = (\<lambda>s. (goto t (Searching path rest) s)\<lparr>handled := (path, d_name) # handled s\<rparr>)
      in if length new_path \<ge> PATH_MAX then Some (s\<lparr>mpc := M_crashed\<rparr>)
         else if is_dot_folder d_name then Some (done s)
         else
           case st_mode cfg new_path of
             None \<Rightarrow> Some (goto t Failing s)
           | Some mode \<Rightarrow>
               if S_ISDIR mode then
                 if mode_searchable mode then
                   if queue_mutex s then None else Some (done (hand_over new_path s))
                 else Some (done s)
               else if strstr d_name (search_term cfg)
               then Some (done (s\<lparr>g_files_found := g_files_found s + 1\<rparr>))
               else Some (done s))"

definition wait_for_start :: "nat \<Rightarrow> pfind \<Rightarrow> pfind option" where
  "wait_for_start t s = (if g_is_search s then Some (goto t At_lock s) else None)"

definition thread_exit_on_error :: "nat \<Rightarrow> pfind \<Rightarrow> pfind option" where
  "thread_exit_on_error t s =
     (if finish_mutex s then None
      else Some (goto t Failed (signal_finish (s\<lparr>g_failed_threads := g_failed_threads s + 1\<rparr>))))"

definition open_dir_and_check :: "cfg \<Rightarrow> nat \<Rightarrow> string \<Rightarrow> pfind \<Rightarrow> pfind option" where
  "open_dir_and_check cfg t path_name s =
     (case listing cfg path_name of
        None \<Rightarrow> Some (goto t Failing s)
      | Some ds \<Rightarrow> Some ((goto t (Searching path_name ds) s)\<lparr>opened := path_name # opened s\<rparr>))"

text \<open>The next step of thread \<open>t\<close>; \<^const>\<open>None\<close> when it is blocked or gone.\<close>

definition thread_step :: "cfg \<Rightarrow> nat \<Rightarrow> pfind \<Rightarrow> pfind option" where
  "thread_step cfg t s =
     (case tpc s t of
        Wait_start \<Rightarrow> wait_for_start t s
      | At_lock \<Rightarrow>
          if queue_mutex s then None else Some ((goto t Test s)\<lparr>queue_mutex := True\<rparr>)
      | Test \<Rightarrow> Some (goto t (if should_thread_sleep t s then Want_finish else Leave) s)
      | Want_finish \<Rightarrow>
          if finish_mutex s then None
          else
            let s1 = (if t \<in> set (thread_queue s) then s
                      else s\<lparr>thread_queue := t # thread_queue s,
                             dir_to_handle := (dir_to_handle s)(t := None)\<rparr>)
            in Some (goto t Enqueued (signal_finish s1))
      | Enqueued \<Rightarrow>
          if \<not> g_all_threads_ready s \<and> length (thread_queue s) = threads_num cfg then
            let thread = last (thread_queue s);
                s1 = s\<lparr>g_all_threads_ready := True, thread_queue := butlast (thread_queue s)\<rparr>
            in if threads_num cfg \<noteq> 1
               then Some (goto t Asleep ((signal_thread thread s1)\<lparr>queue_mutex := False\<rparr>))
               else Some (goto t Test s1)
          else Some ((goto t Asleep s)\<lparr>queue_mutex := False\<rparr>)
      | Asleep \<Rightarrow> None
      | Leave \<Rightarrow>
          if \<not> g_is_search s then Some ((goto t Exited s)\<lparr>queue_mutex := False\<rparr>)
          else
            (case dir_to_handle s t of
               Some d \<Rightarrow> Some ((goto t (Opening d) s)\<lparr>queue_mutex := False\<rparr>)
             | None \<Rightarrow>
                 if dir_queue s = [] then Some (s\<lparr>mpc := M_crashed\<rparr>)
                 else Some ((goto t (Opening (last (dir_queue s))) s)
                              \<lparr>dir_queue := butlast (dir_queue s), queue_mutex := False\<rparr>))
      | Opening path \<Rightarrow>
          open_dir_and_check cfg t path s
      | Searching path [] \<Rightarrow>
          Some ((goto t At_lock s)\<lparr>dir_to_handle := (dir_to_handle s)(t := None)\<rparr>)
      | Searching path (d # ds) \<Rightarrow> handle_entry cfg t path d ds s
      | Failing \<Rightarrow> thread_exit_on_error t s
      | Failed \<Rightarrow> None
      | Exited \<Rightarrow> None)"

lemmas thread_step_defs = thread_step_def wait_for_start_def open_dir_and_check_def thread_exit_on_error_def

text \<open>
  The same step when the \<^verbatim>\<open>malloc\<close> in it fails: the thread's own entry, or the entry for a
  subdirectory, which is checked in \<^verbatim>\<open>dir_enqueue\<close> only, with the queue mutex held.
\<close>

definition thread_step_oom :: "cfg \<Rightarrow> nat \<Rightarrow> pfind \<Rightarrow> pfind option" where
  "thread_step_oom cfg t s =
     (case tpc s t of
        Wait_start \<Rightarrow> if g_is_search s then Some (goto t Failing s) else None
      | Searching path (d # ds) \<Rightarrow>
          (case st_mode cfg (new_pathname path d) of
             None \<Rightarrow> None
           | Some mode \<Rightarrow>
               if length (new_pathname path d) < PATH_MAX \<and> \<not> is_dot_folder d \<and> S_ISDIR mode \<and> mode_searchable mode \<and> \<not> queue_mutex s then
                 if thread_queue s \<noteq> [] then Some (s\<lparr>mpc := M_crashed\<rparr>)
                 else Some ((goto t Failing s)\<lparr>queue_mutex := True\<rparr>)
               else None)
      | _ \<Rightarrow> None)"

section \<open>The main thread\<close>

definition main_step :: "cfg \<Rightarrow> pfind \<Rightarrow> pfind option" where
  "main_step cfg s =
     (case mpc s of
        M_start \<Rightarrow> Some (s\<lparr>g_is_search := True, mpc := M_lock_finish\<rparr>)
      | M_lock_finish \<Rightarrow> if finish_mutex s then None else Some (s\<lparr>finish_mutex := True, mpc := M_check\<rparr>)
      | M_check \<Rightarrow> Some (s\<lparr>mpc := M_check2 (dir_queue s = [])\<rparr>)
      | M_check2 dirs_empty \<Rightarrow>
          if \<not> (dirs_empty \<and> length (thread_queue s) + g_failed_threads s = threads_num cfg) \<and>
             g_failed_threads s \<noteq> threads_num cfg
          then Some (s\<lparr>finish_mutex := False, mpc := M_wait\<rparr>)
          else Some (s\<lparr>g_is_search := False, mpc := M_finish\<rparr>)
      | M_wait \<Rightarrow> None
      | M_finish \<Rightarrow>
          if queue_mutex s then None
          else Some ((fold signal_thread [0..<threads_num cfg] s)\<lparr>finish_mutex := False, mpc := M_join\<rparr>)
      | M_join \<Rightarrow>
          if list_all (\<lambda>t. tpc s t = Exited \<or> tpc s t = Failed) [0..<threads_num cfg]
          then Some (s\<lparr>mpc := M_done (if g_failed_threads s \<noteq> 0 then 1 else 0)\<rparr>)
          else None
      | M_done code \<Rightarrow> None
      | M_crashed \<Rightarrow> None)"

text \<open>
  Before it starts the threads, \<^verbatim>\<open>main\<close> checks its arguments; \<open>Some code\<close>: it returns.
\<close>

definition main_checks :: "cfg \<Rightarrow> int \<Rightarrow> int option" where
  "main_checks cfg argc =
     (if argc \<noteq> 4 then Some 1
      else if listing cfg (root_dir cfg) = None then Some 1
      else if \<not> is_searchable cfg (root_dir cfg) then Some 1
      else None)"

section \<open>Runs\<close>

datatype event = T nat | T_oom nat | Main | Spurious nat | Spurious_main

text \<open>Nothing happens any more once the process was killed or has ended.\<close>

definition alive :: "pfind \<Rightarrow> bool" where
  "alive s = (case mpc s of M_done c \<Rightarrow> False | M_crashed \<Rightarrow> False | _ \<Rightarrow> True)"

definition pf_event :: "cfg \<Rightarrow> event \<Rightarrow> pfind \<Rightarrow> pfind option" where
  "pf_event cfg ev s =
     (if \<not> alive s then None
      else case ev of
        T t \<Rightarrow> if t < threads_num cfg then thread_step cfg t s else None
      | T_oom t \<Rightarrow> if t < threads_num cfg then thread_step_oom cfg t s else None
      | Main \<Rightarrow> main_step cfg s
      | Spurious t \<Rightarrow>
          if t < threads_num cfg \<and> tpc s t = Asleep then Some (goto t At_lock s) else None
      | Spurious_main \<Rightarrow> if mpc s = M_wait then Some (s\<lparr>mpc := M_lock_finish\<rparr>) else None)"

fun pf_run :: "cfg \<Rightarrow> event list \<Rightarrow> pfind \<Rightarrow> pfind option" where
  "pf_run cfg [] s = Some s"
| "pf_run cfg (e # es) s = (case pf_event cfg e s of None \<Rightarrow> None | Some s' \<Rightarrow> pf_run cfg es s')"

text \<open>Reachability when the condition variables of the searching threads wake no thread without a signal.\<close>

fun no_spurious :: "event \<Rightarrow> bool" where
  "no_spurious (Spurious t) = False"
| "no_spurious _ = True"

inductive pf_reach :: "cfg \<Rightarrow> pfind \<Rightarrow> bool" for cfg where
  start: "pf_reach cfg (pfind_init cfg)"
| step: "pf_reach cfg s \<Longrightarrow> no_spurious ev \<Longrightarrow> pf_event cfg ev s = Some s' \<Longrightarrow> pf_reach cfg s'"

definition stuck :: "cfg \<Rightarrow> pfind \<Rightarrow> bool" where
  "stuck cfg s \<longleftrightarrow>
     alive s \<and> main_step cfg s = None \<and> list_all (\<lambda>t. thread_step cfg t s = None) [0..<threads_num cfg]"

end
