(* ===== verification/Pfind_Steps.thy ===== *)
theory Pfind_Steps
  imports Pfind_Machine
begin

text \<open>
  The steps of the search machine case by case, and the invariants of its locks, phases and
  queues.  Each part of the invariant is a predicate of its own, kept by every step of a thread
  and of the main thread as long as no thread is woken without a signal.
\<close>

section \<open>Case analysis of a step\<close>

definition subdir :: "cfg \<Rightarrow> string \<times> string \<Rightarrow> bool" where
  "subdir cfg e =
     (\<not> is_dot_folder (snd e) \<and>
      (case st_mode cfg (new_pathname (fst e) (snd e)) of None \<Rightarrow> False
       | Some mode \<Rightarrow> S_ISDIR mode \<and> mode_searchable mode))"

definition matching :: "cfg \<Rightarrow> string \<times> string \<Rightarrow> bool" where
  "matching cfg e =
     (\<not> is_dot_folder (snd e) \<and>
      (case st_mode cfg (new_pathname (fst e) (snd e)) of None \<Rightarrow> False
       | Some mode \<Rightarrow> \<not> S_ISDIR mode) \<and>
      strstr (snd e) (search_term cfg))"

abbreviation entry_done :: "nat \<Rightarrow> string \<Rightarrow> string \<Rightarrow> string list \<Rightarrow> pfind \<Rightarrow> pfind" where
  "entry_done t p d ds s \<equiv> (goto t (Searching p ds) s)\<lparr>handled := (p, d) # handled s\<rparr>"

inductive tstep :: "cfg \<Rightarrow> nat \<Rightarrow> pfind \<Rightarrow> pfind \<Rightarrow> bool" for cfg t s where
  started: "tpc s t = Wait_start \<Longrightarrow> g_is_search s \<Longrightarrow> tstep cfg t s (goto t At_lock s)"
| lock: "tpc s t = At_lock \<Longrightarrow> \<not> queue_mutex s \<Longrightarrow> tstep cfg t s ((goto t Test s)\<lparr>queue_mutex := True\<rparr>)"
| to_sleep: "tpc s t = Test \<Longrightarrow> should_thread_sleep t s \<Longrightarrow> tstep cfg t s (goto t Want_finish s)"
| to_leave: "tpc s t = Test \<Longrightarrow> \<not> should_thread_sleep t s \<Longrightarrow> tstep cfg t s (goto t Leave s)"
| enqueue: "tpc s t = Want_finish \<Longrightarrow> \<not> finish_mutex s \<Longrightarrow> t \<notin> set (thread_queue s) \<Longrightarrow>
    tstep cfg t s (goto t Enqueued (signal_finish (s\<lparr>thread_queue := t # thread_queue s,
      dir_to_handle := (dir_to_handle s)(t := None)\<rparr>)))"
| already: "tpc s t = Want_finish \<Longrightarrow> \<not> finish_mutex s \<Longrightarrow> t \<in> set (thread_queue s) \<Longrightarrow>
    tstep cfg t s (goto t Enqueued (signal_finish s))"
| all_ready: "tpc s t = Enqueued \<Longrightarrow> \<not> g_all_threads_ready s \<Longrightarrow> length (thread_queue s) = threads_num cfg \<Longrightarrow>
    threads_num cfg \<noteq> 1 \<Longrightarrow>
    tstep cfg t s (goto t Asleep ((signal_thread (last (thread_queue s))
      (s\<lparr>g_all_threads_ready := True, thread_queue := butlast (thread_queue s)\<rparr>))\<lparr>queue_mutex := False\<rparr>))"
| one_ready: "tpc s t = Enqueued \<Longrightarrow> \<not> g_all_threads_ready s \<Longrightarrow> length (thread_queue s) = threads_num cfg \<Longrightarrow>
    threads_num cfg = 1 \<Longrightarrow>
    tstep cfg t s (goto t Test (s\<lparr>g_all_threads_ready := True, thread_queue := butlast (thread_queue s)\<rparr>))"
| sleep: "tpc s t = Enqueued \<Longrightarrow> g_all_threads_ready s \<or> length (thread_queue s) \<noteq> threads_num cfg \<Longrightarrow>
    tstep cfg t s ((goto t Asleep s)\<lparr>queue_mutex := False\<rparr>)"
| leave: "tpc s t = Leave \<Longrightarrow> \<not> g_is_search s \<Longrightarrow> tstep cfg t s ((goto t Exited s)\<lparr>queue_mutex := False\<rparr>)"
| own_dir: "tpc s t = Leave \<Longrightarrow> g_is_search s \<Longrightarrow> dir_to_handle s t = Some d \<Longrightarrow>
    tstep cfg t s ((goto t (Opening d) s)\<lparr>queue_mutex := False\<rparr>)"
| take_dir: "tpc s t = Leave \<Longrightarrow> g_is_search s \<Longrightarrow> dir_to_handle s t = None \<Longrightarrow> dir_queue s \<noteq> [] \<Longrightarrow>
    tstep cfg t s ((goto t (Opening (last (dir_queue s))) s)
      \<lparr>dir_queue := butlast (dir_queue s), queue_mutex := False\<rparr>)"
| open_dir: "tpc s t = Opening p \<Longrightarrow> listing cfg p = Some ds \<Longrightarrow>
    tstep cfg t s ((goto t (Searching p ds) s)\<lparr>opened := p # opened s\<rparr>)"
| close_dir: "tpc s t = Searching p [] \<Longrightarrow>
    tstep cfg t s ((goto t At_lock s)\<lparr>dir_to_handle := (dir_to_handle s)(t := None)\<rparr>)"
| skip: "tpc s t = Searching p (d # ds) \<Longrightarrow> \<not> subdir cfg (p, d) \<Longrightarrow> \<not> matching cfg (p, d) \<Longrightarrow>
    tstep cfg t s (entry_done t p d ds s)"
| match: "tpc s t = Searching p (d # ds) \<Longrightarrow> \<not> subdir cfg (p, d) \<Longrightarrow> matching cfg (p, d) \<Longrightarrow>
    tstep cfg t s (entry_done t p d ds (s\<lparr>g_files_found := g_files_found s + 1\<rparr>))"
| give: "tpc s t = Searching p (d # ds) \<Longrightarrow> subdir cfg (p, d) \<Longrightarrow> \<not> matching cfg (p, d) \<Longrightarrow>
    \<not> queue_mutex s \<Longrightarrow> thread_queue s \<noteq> [] \<Longrightarrow> h = last (thread_queue s) \<Longrightarrow> length (new_pathname p d) < PATH_MAX \<Longrightarrow>
    tstep cfg t s (entry_done t p d ds (signal_thread h (s\<lparr>thread_queue := butlast (thread_queue s),
      dir_to_handle := (dir_to_handle s)(h := Some (new_pathname p d))\<rparr>)))"
| store_dir: "tpc s t = Searching p (d # ds) \<Longrightarrow> subdir cfg (p, d) \<Longrightarrow> \<not> matching cfg (p, d) \<Longrightarrow>
    \<not> queue_mutex s \<Longrightarrow> thread_queue s = [] \<Longrightarrow> length (new_pathname p d) < PATH_MAX \<Longrightarrow>
    tstep cfg t s (entry_done t p d ds (s\<lparr>dir_queue := new_pathname p d # dir_queue s\<rparr>))"
| failing: "tpc s t = Opening p \<or> tpc s t = Searching p (d # ds) \<or> tpc s t = Wait_start \<and> g_is_search s \<Longrightarrow>
    tstep cfg t s (goto t Failing s)"
| failed: "tpc s t = Failing \<Longrightarrow> \<not> finish_mutex s \<Longrightarrow>
    tstep cfg t s (goto t Failed (signal_finish (s\<lparr>g_failed_threads := g_failed_threads s + 1\<rparr>)))"
| oom: "tpc s t = Searching p (d # ds) \<Longrightarrow> \<not> queue_mutex s \<Longrightarrow>
    tstep cfg t s ((goto t Failing s)\<lparr>queue_mutex := True\<rparr>)"
| crash: "tstep cfg t s (s\<lparr>mpc := M_crashed\<rparr>)"

lemma handled_signal [simp]: "handled (signal_thread t s) = handled s" "handled (signal_finish s) = handled s"
  by (simp_all add: signal_thread_def signal_finish_def goto_def)

lemma handle_entry_tstep:
  assumes "tpc s t = Searching p (d # ds)" "handle_entry cfg t p d ds s = Some s'"
  shows "tstep cfg t s s'"
proof -
  have m: "S_ISDIR mode \<Longrightarrow> st_mode cfg (new_pathname p d) = Some mode \<Longrightarrow> \<not> matching cfg (p, d)" for mode
    by (simp add: matching_def)
  show ?thesis
  proof (cases "length (new_pathname p d) < PATH_MAX \<and> \<not> is_dot_folder d")
    case False
    then have "s' = s\<lparr>mpc := M_crashed\<rparr> \<or> s' = entry_done t p d ds s \<and> is_dot_folder d"
      using assms(2) by (auto simp: handle_entry_def Let_def split: if_splits)
    then show ?thesis
      using tstep.crash tstep.skip [OF assms(1)] by (auto simp: subdir_def matching_def)
  next
    case ok: True
    show ?thesis
    proof (cases "st_mode cfg (new_pathname p d)")
      case None
      then have "s' = goto t Failing s" using ok assms(2) by (simp add: handle_entry_def Let_def)
      then show ?thesis using tstep.failing assms(1) by blast
    next
      case (Some mode)
      note he = assms(2) [unfolded handle_entry_def Let_def Some]
      consider "subdir cfg (p, d)" "\<not> matching cfg (p, d)" "\<not> queue_mutex s"
          "s' = entry_done t p d ds (hand_over (new_pathname p d) s)"
        | "\<not> subdir cfg (p, d)" "\<not> matching cfg (p, d)" "s' = entry_done t p d ds s"
        | "\<not> subdir cfg (p, d)" "matching cfg (p, d)"
          "s' = entry_done t p d ds (s\<lparr>g_files_found := g_files_found s + 1\<rparr>)"
        using he ok Some by (auto simp: subdir_def matching_def hand_over_def Let_def split: if_splits)
      then show ?thesis
      proof cases
        case 1
        then show ?thesis
          using tstep.give [OF assms(1) 1(1-3)] tstep.store_dir [OF assms(1) 1(1-3)] ok
          by (cases "thread_queue s = []") (simp_all add: hand_over_def Let_def)
      next
        case 2
        then show ?thesis using tstep.skip [OF assms(1)] by simp
      next
        case 3
        then show ?thesis using tstep.match [OF assms(1)] by simp
      qed
    qed
  qed
qed

lemma thread_step_tstep:
  assumes "thread_step cfg t s = Some s'"
  shows "tstep cfg t s s'"
proof (cases "tpc s t")
  case (Searching p es)
  then show ?thesis
    using assms handle_entry_tstep [of s t p]
    by (cases es) (auto simp: thread_step_defs intro: tstep.close_dir)
next
  case Want_finish
  then show ?thesis
    using assms tstep.enqueue [of s t cfg] tstep.already [of s t cfg]
    by (auto simp: thread_step_defs Let_def split: if_splits)
next
  case Enqueued
  then show ?thesis
    using assms tstep.all_ready [of s t cfg] tstep.one_ready [of s t cfg] tstep.sleep [of s t cfg]
    by (auto simp: thread_step_defs Let_def split: if_splits)
next
  case Leave
  then show ?thesis
    using assms by (auto simp: thread_step_defs intro: tstep.intros split: if_splits option.splits)
next
  case Failing
  then show ?thesis
    using assms tstep.failed [of s t cfg] by (auto simp: thread_step_defs split: if_splits)
qed (use assms in \<open>auto simp: thread_step_defs intro: tstep.intros split: if_splits option.splits\<close>)

lemma thread_step_oom_tstep: "thread_step_oom cfg t s = Some s' \<Longrightarrow> tstep cfg t s s'"
  by (auto simp: thread_step_oom_def split: tpc.splits if_splits list.splits option.splits
      intro: tstep.crash tstep.oom tstep.failing)

end
