(* ===== verification/Pfind_Inv.thy ===== *)
theory Pfind_Inv
  imports Pfind_Steps
begin

text \<open>
  Invariants of the search machine: mutual exclusion, the phases of the main thread, the thread
  queue, the synchronised start and what the main thread knows when it ends the search.
\<close>

section \<open>Effects of the small operations\<close>

lemma goto_simps [simp]:
  "g_is_search (goto t p s) = g_is_search s" "g_all_threads_ready (goto t p s) = g_all_threads_ready s"
  "g_files_found (goto t p s) = g_files_found s" "g_failed_threads (goto t p s) = g_failed_threads s"
  "dir_queue (goto t p s) = dir_queue s" "thread_queue (goto t p s) = thread_queue s"
  "dir_to_handle (goto t p s) = dir_to_handle s" "tpc (goto t p s) = (tpc s)(t := p)"
  "mpc (goto t p s) = mpc s" "queue_mutex (goto t p s) = queue_mutex s"
  "finish_mutex (goto t p s) = finish_mutex s" "opened (goto t p s) = opened s" "handled (goto t p s) = handled s"
  by (simp_all add: goto_def)

lemma signal_thread_simps [simp]:
  "g_is_search (signal_thread h s) = g_is_search s"
  "g_all_threads_ready (signal_thread h s) = g_all_threads_ready s"
  "g_files_found (signal_thread h s) = g_files_found s" "g_failed_threads (signal_thread h s) = g_failed_threads s"
  "dir_queue (signal_thread h s) = dir_queue s" "thread_queue (signal_thread h s) = thread_queue s"
  "dir_to_handle (signal_thread h s) = dir_to_handle s"
  "tpc (signal_thread h s) = (tpc s)(h := if tpc s h = Asleep then At_lock else tpc s h)"
  "mpc (signal_thread h s) = mpc s" "queue_mutex (signal_thread h s) = queue_mutex s"
  "finish_mutex (signal_thread h s) = finish_mutex s" "opened (signal_thread h s) = opened s"
  by (simp_all add: signal_thread_def)

lemma signal_finish_simps [simp]:
  "g_is_search (signal_finish s) = g_is_search s"
  "g_all_threads_ready (signal_finish s) = g_all_threads_ready s"
  "g_files_found (signal_finish s) = g_files_found s" "g_failed_threads (signal_finish s) = g_failed_threads s"
  "dir_queue (signal_finish s) = dir_queue s" "thread_queue (signal_finish s) = thread_queue s"
  "dir_to_handle (signal_finish s) = dir_to_handle s" "tpc (signal_finish s) = tpc s"
  "mpc (signal_finish s) = (if mpc s = M_wait then M_lock_finish else mpc s)"
  "queue_mutex (signal_finish s) = queue_mutex s" "finish_mutex (signal_finish s) = finish_mutex s"
  "opened (signal_finish s) = opened s"
  by (simp_all add: signal_finish_def)

lemma fold_signal:
  "fold signal_thread [0..<n] s =
   s\<lparr>tpc := (\<lambda>t. if t < n \<and> tpc s t = Asleep then At_lock else tpc s t)\<rparr>"
proof (induction n)
  case (Suc n)
  then show ?case
    by (auto simp: signal_thread_def goto_def fun_eq_iff less_Suc_eq intro!: pfind.equality)
qed simp

section \<open>The parts of the invariant\<close>

fun crit :: "tpc \<Rightarrow> bool" where
  "crit Test = True"
| "crit Want_finish = True"
| "crit Enqueued = True"
| "crit Leave = True"
| "crit _ = False"

definition mutex_inv :: "cfg \<Rightarrow> pfind \<Rightarrow> bool" where
  "mutex_inv cfg s \<longleftrightarrow>
     (\<forall>t < threads_num cfg. crit (tpc s t) \<longrightarrow> queue_mutex s) \<and>
     (\<forall>t < threads_num cfg. \<forall>u < threads_num cfg. crit (tpc s t) \<longrightarrow> crit (tpc s u) \<longrightarrow> t = u)"

fun search_phase :: "mpc \<Rightarrow> bool" where
  "search_phase M_lock_finish = True"
| "search_phase M_check = True"
| "search_phase (M_check2 b) = True"
| "search_phase M_wait = True"
| "search_phase _ = False"

fun holds_finish :: "mpc \<Rightarrow> bool" where
  "holds_finish M_check = True"
| "holds_finish (M_check2 b) = True"
| "holds_finish M_finish = True"
| "holds_finish _ = False"

fun over :: "mpc \<Rightarrow> bool" where
  "over M_join = True"
| "over (M_done c) = True"
| "over _ = False"

definition phase_inv :: "pfind \<Rightarrow> bool" where
  "phase_inv s \<longleftrightarrow>
     g_is_search s = search_phase (mpc s) \<and> finish_mutex s = holds_finish (mpc s)"

fun resting :: "tpc \<Rightarrow> bool" where
  "resting Asleep = True"
| "resting Enqueued = True"
| "resting _ = False"

fun departing :: "tpc \<Rightarrow> bool" where
  "departing At_lock = True"
| "departing Test = True"
| "departing Leave = True"
| "departing Exited = True"
| "departing _ = False"

definition queue_inv :: "cfg \<Rightarrow> pfind \<Rightarrow> bool" where
  "queue_inv cfg s \<longleftrightarrow>
     distinct (thread_queue s) \<and> set (thread_queue s) \<subseteq> {..<threads_num cfg} \<and>
     (\<forall>t < threads_num cfg. tpc s t = Asleep \<longrightarrow> t \<in> set (thread_queue s)) \<and>
     (\<forall>t < threads_num cfg. tpc s t = Enqueued \<longrightarrow> (\<exists>q. thread_queue s = t # q)) \<and>
     (\<forall>t \<in> set (thread_queue s). dir_to_handle s t = None \<and>
        (resting (tpc s t) \<or> over (mpc s) \<and> departing (tpc s t)))"

fun in_dir :: "tpc \<Rightarrow> bool" where
  "in_dir (Opening p) = True"
| "in_dir (Searching p ds) = True"
| "in_dir _ = False"

definition start_inv :: "cfg \<Rightarrow> pfind \<Rightarrow> bool" where
  "start_inv cfg s \<longleftrightarrow>
     (\<not> g_all_threads_ready s \<longrightarrow>
        dir_queue s = [root_dir cfg] \<and> opened s = [] \<and> handled s = [] \<and>
        (\<forall>t < threads_num cfg. \<not> in_dir (tpc s t) \<and> dir_to_handle s t = None)) \<and>
     (\<forall>t < threads_num cfg. tpc s t = Leave \<longrightarrow> g_is_search s \<longrightarrow>
        g_all_threads_ready s \<and> (dir_to_handle s t \<noteq> None \<or> dir_queue s \<noteq> []))"

definition finish_inv :: "cfg \<Rightarrow> pfind \<Rightarrow> bool" where
  "finish_inv cfg s \<longleftrightarrow>
     (mpc s = M_check2 True \<longrightarrow> dir_queue s = [] \<or> length (thread_queue s) < threads_num cfg) \<and>
     (mpc s = M_finish \<or> over (mpc s) \<longrightarrow> g_failed_threads s = 0 \<longrightarrow> 0 < threads_num cfg \<longrightarrow>
        dir_queue s = [] \<and> (\<forall>t < threads_num cfg. t \<in> set (thread_queue s))) \<and>
     (mpc s = M_done 0 \<longrightarrow> g_failed_threads s = 0)"

section \<open>Steps of the threads\<close>

lemma tstep_mutex:
  assumes "tstep cfg t s s'" "t < threads_num cfg" "mutex_inv cfg s"
  shows "mutex_inv cfg s'"
  using assms
  by (cases rule: tstep.cases) (auto simp: mutex_inv_def)

lemma tstep_phase:
  assumes "tstep cfg t s s'" "phase_inv s" "mpc s' \<noteq> M_crashed"
  shows "phase_inv s'"
  using assms
  by (cases rule: tstep.cases) (auto simp: phase_inv_def)

lemma not_asleep: "x \<noteq> Asleep \<Longrightarrow> (if x = Asleep then y else x) = x"
  by simp

lemma over_not_search: "phase_inv s \<Longrightarrow> over (mpc s) \<Longrightarrow> \<not> g_is_search s"
  by (cases "mpc s") (auto simp: phase_inv_def)

text \<open>A step that leaves the thread queue alone.\<close>

lemma queue_inv_goto:
  assumes "queue_inv cfg s" "t < threads_num cfg" "p \<noteq> Enqueued"
    "p = Asleep \<longrightarrow> t \<in> set (thread_queue s)"
    "t \<in> set (thread_queue s) \<longrightarrow> p = Asleep \<or> over (mpc s) \<and> departing p"
    "tpc s' = (tpc s)(t := p)" "thread_queue s' = thread_queue s"
    "\<forall>u. u \<noteq> t \<longrightarrow> dir_to_handle s' u = dir_to_handle s u" "dir_to_handle s' t = dir_to_handle s t \<or> dir_to_handle s' t = None"
    "over (mpc s') = over (mpc s)"
  shows "queue_inv cfg s'"
  using assms by (fastforce simp: queue_inv_def)

lemma queue_inv_not_in:
  "queue_inv cfg s \<Longrightarrow> \<not> resting (tpc s t) \<Longrightarrow> \<not> departing (tpc s t) \<Longrightarrow> t \<notin> set (thread_queue s)"
  by (auto simp: queue_inv_def)

lemma butlast_facts:
  assumes "distinct q" "q \<noteq> []"
  shows "last q \<in> set q" "distinct (butlast q)" "set (butlast q) = set q - {last q}"
proof -
  obtain r x where q: "q = r @ [x]" using assms(2) by (cases q rule: rev_cases) auto
  then show "last q \<in> set q" "distinct (butlast q)" "set (butlast q) = set q - {last q}"
    using assms(1) by auto
qed

text \<open>Removing the thread that waits longest, with its wake-up.\<close>

lemma queue_inv_dequeue:
  assumes "queue_inv cfg s" "thread_queue s \<noteq> []" "h = last (thread_queue s)"
    "\<forall>u < threads_num cfg. tpc s u \<noteq> Enqueued" "\<forall>u. u \<noteq> h \<longrightarrow> dir_to_handle s' u = dir_to_handle s u"
    "thread_queue s' = butlast (thread_queue s)"
    "tpc s' = (tpc s)(h := if tpc s h = Asleep then At_lock else tpc s h)" "mpc s' = mpc s"
  shows "queue_inv cfg s'"
proof -
  have d: "distinct (thread_queue s)" using assms(1) by (simp add: queue_inv_def)
  note b = butlast_facts [OF d assms(2)]
  have h: "h \<in> set (thread_queue s)" using b(1) assms(3) by simp
  have hn: "h < threads_num cfg" using h assms(1) by (auto simp: queue_inv_def)
  have "\<not> (tpc s' t = Enqueued)" if "t < threads_num cfg" for t
    using assms(4,7) that hn by auto
  then show ?thesis
    using assms b unfolding queue_inv_def by (auto split: if_splits)
qed

lemma tstep_queue:
  assumes st: "tstep cfg t s s'" and t: "t < threads_num cfg"
    and inv: "mutex_inv cfg s" "phase_inv s" "queue_inv cfg s"
  shows "mpc s' = M_crashed \<or> queue_inv cfg s'"
  using st
proof (cases rule: tstep.cases)
  case started
  show ?thesis using started queue_inv_not_in [OF inv(3), of t]
    by (intro disjI2, intro queue_inv_goto [OF inv(3) t]) simp_all
next
  case lock
  have "t \<in> set (thread_queue s) \<longrightarrow> over (mpc s)" using inv(3) lock by (auto simp: queue_inv_def)
  then show ?thesis using lock by (intro disjI2, intro queue_inv_goto [OF inv(3) t]) simp_all
next
  case to_sleep
  have "\<not> over (mpc s)" using to_sleep over_not_search [OF inv(2)] by (auto simp: should_thread_sleep_def)
  then have "t \<notin> set (thread_queue s)" using inv(3) to_sleep by (auto simp: queue_inv_def)
  then show ?thesis using to_sleep by (intro disjI2, intro queue_inv_goto [OF inv(3) t]) simp_all
next
  case to_leave
  have "t \<in> set (thread_queue s) \<longrightarrow> over (mpc s)" using inv(3) to_leave by (auto simp: queue_inv_def)
  then show ?thesis using to_leave by (intro disjI2, intro queue_inv_goto [OF inv(3) t]) simp_all
next
  case enqueue
  have "\<forall>u < threads_num cfg. u \<noteq> t \<longrightarrow> tpc s u \<noteq> Enqueued"
    using inv(1) t enqueue(2) unfolding mutex_inv_def by (metis crit.simps(2,3))
  then show ?thesis using inv(3) t enqueue by (auto simp: queue_inv_def)
next
  case already
  then show ?thesis using queue_inv_not_in [OF inv(3), of t] by simp
next
  case all_ready
  obtain q where q: "thread_queue s = t # q" using inv(3) t all_ready(2) by (auto simp: queue_inv_def)
  then have qn: "q \<noteq> []" using all_ready(4,5) by auto
  let ?h = "last (thread_queue s)"
  have other: "\<forall>u < threads_num cfg. u \<noteq> t \<longrightarrow> tpc s u \<noteq> Enqueued"
    using inv(1) t all_ready(2) unfolding mutex_inv_def by (metis crit.simps(3))
  let ?s0 = "goto t Asleep s"
  have 0: "queue_inv cfg ?s0"
    using inv(3) t q by (auto simp: queue_inv_def)
  have "?h \<noteq> t" using q qn inv(3) by (auto simp: queue_inv_def)
  have "queue_inv cfg s'"
    by (rule queue_inv_dequeue [OF 0, of ?h]) (use all_ready q other \<open>?h \<noteq> t\<close> in auto)
  then show ?thesis by simp
next
  case one_ready
  obtain q where q: "thread_queue s = t # q" using inv(3) t one_ready(2) by (auto simp: queue_inv_def)
  then have qn: "q = []" using one_ready(4,5) by auto
  have "threads_num cfg = 1" "t = 0" using one_ready t by auto
  then show ?thesis using one_ready q qn by (simp add: queue_inv_def)
next
  case sleep
  have "t \<in> set (thread_queue s)" using inv(3) t sleep(2) by (auto simp: queue_inv_def)
  then show ?thesis using sleep by (intro disjI2, intro queue_inv_goto [OF inv(3) t]) simp_all
next
  case leave
  have "t \<in> set (thread_queue s) \<longrightarrow> over (mpc s)" using inv(3) leave by (auto simp: queue_inv_def)
  then show ?thesis using leave by (intro disjI2, intro queue_inv_goto [OF inv(3) t]) simp_all
next
  case (own_dir d)
  have "t \<notin> set (thread_queue s)"
    using inv(3) own_dir over_not_search [OF inv(2)] by (auto simp: queue_inv_def)
  then show ?thesis using own_dir by (intro disjI2, intro queue_inv_goto [OF inv(3) t]) simp_all
next
  case take_dir
  have "t \<notin> set (thread_queue s)"
    using inv(3) take_dir over_not_search [OF inv(2)] by (auto simp: queue_inv_def)
  then show ?thesis using take_dir by (intro disjI2, intro queue_inv_goto [OF inv(3) t]) simp_all
next
  case (open_dir p ds)
  show ?thesis using open_dir queue_inv_not_in [OF inv(3), of t]
    by (intro disjI2, intro queue_inv_goto [OF inv(3) t]) simp_all
next
  case (close_dir p)
  show ?thesis using close_dir queue_inv_not_in [OF inv(3), of t]
    by (intro disjI2, intro queue_inv_goto [OF inv(3) t]) simp_all
next
  case (skip p d ds)
  show ?thesis using skip queue_inv_not_in [OF inv(3), of t]
    by (intro disjI2, intro queue_inv_goto [OF inv(3) t]) simp_all
next
  case (match p d ds)
  show ?thesis using match queue_inv_not_in [OF inv(3), of t]
    by (intro disjI2, intro queue_inv_goto [OF inv(3) t]) simp_all
next
  case (give p d ds h)
  have nt: "t \<notin> set (thread_queue s)" using give queue_inv_not_in [OF inv(3), of t] by simp
  let ?s0 = "goto t (Searching p ds) s"
  have 0: "queue_inv cfg ?s0" using nt by (intro queue_inv_goto [OF inv(3) t]) simp_all
  have other: "\<forall>u < threads_num cfg. tpc s u \<noteq> Enqueued"
    using inv(1) give(5) unfolding mutex_inv_def by (metis crit.simps(3))
  have "h \<noteq> t" using nt give(6,7) by auto
  have "queue_inv cfg s'"
    by (rule queue_inv_dequeue [OF 0, of h]) (use give other \<open>h \<noteq> t\<close> in auto)
  then show ?thesis by simp
next
  case (store_dir p d ds)
  show ?thesis using store_dir queue_inv_not_in [OF inv(3), of t]
    by (intro disjI2, intro queue_inv_goto [OF inv(3) t]) simp_all
next
  case (failing p d ds)
  then have "t \<notin> set (thread_queue s)" using queue_inv_not_in [OF inv(3), of t] by auto
  then show ?thesis using failing by (intro disjI2, intro queue_inv_goto [OF inv(3) t]) simp_all
next
  case failed
  show ?thesis using failed queue_inv_not_in [OF inv(3), of t]
    by (intro disjI2, intro queue_inv_goto [OF inv(3) t]) simp_all
next
  case (oom p d ds)
  show ?thesis using oom queue_inv_not_in [OF inv(3), of t]
    by (intro disjI2, intro queue_inv_goto [OF inv(3) t]) simp_all
next
  case crash
  then show ?thesis by simp
qed

lemma tstep_start:
  assumes st: "tstep cfg t s s'" and t: "t < threads_num cfg"
    and inv: "mutex_inv cfg s" "start_inv cfg s"
  shows "mpc s' = M_crashed \<or> start_inv cfg s'"
proof -
  have crit: "\<forall>u < threads_num cfg. u \<noteq> t \<longrightarrow> tpc s u \<noteq> Leave" if "crit (tpc s t) \<or> \<not> queue_mutex s"
    using inv(1) t that unfolding mutex_inv_def by (metis crit.simps(4))
  show ?thesis using st
  proof (cases rule: tstep.cases)
    case to_leave
    then show ?thesis using inv(2) by (auto simp: start_inv_def should_thread_sleep_def split: if_splits)
  next
    case enqueue
    then show ?thesis using inv(2) crit by (auto simp: start_inv_def)
  next
    case all_ready
    then show ?thesis using inv(2) crit by (auto simp: start_inv_def)
  next
    case one_ready
    then show ?thesis using inv(2) crit by (auto simp: start_inv_def)
  next
    case take_dir
    then show ?thesis using inv(2) t crit by (auto simp: start_inv_def)
  next
    case own_dir
    then show ?thesis using inv(2) t by (auto simp: start_inv_def)
  next
    case open_dir
    then show ?thesis using inv(2) t by (auto simp: start_inv_def)
  next
    case close_dir
    then show ?thesis using inv(2) t by (auto simp: start_inv_def)
  next
    case skip
    then show ?thesis using inv(2) t by (auto simp: start_inv_def)
  next
    case match
    then show ?thesis using inv(2) t by (auto simp: start_inv_def)
  next
    case give
    then show ?thesis using inv(2) t crit by (auto simp: start_inv_def)
  next
    case store_dir
    then show ?thesis using inv(2) t by (auto simp: start_inv_def)
  qed (use inv(2) in \<open>auto simp: start_inv_def\<close>)
qed

text \<open>No step of a searching thread disturbs what the main thread found out.\<close>

lemma tstep_finish:
  assumes st: "tstep cfg t s s'" and t: "t < threads_num cfg"
    and inv: "mutex_inv cfg s" "phase_inv s" "queue_inv cfg s" "start_inv cfg s" "finish_inv cfg s"
  shows "mpc s' = M_crashed \<or> finish_inv cfg s'"
proof -
  have fin: "dir_queue s = [] \<and> t \<in> set (thread_queue s) \<and> g_all_threads_ready s"
    if "mpc s = M_finish \<or> over (mpc s)" "g_failed_threads s = 0"
    using inv(4,5) t that by (auto simp: finish_inv_def start_inv_def)
  have held: "mpc s = M_check2 True \<or> mpc s = M_finish \<Longrightarrow> finish_mutex s"
    using inv(2) by (auto simp: phase_inv_def)
  have nosearch: "mpc s = M_finish \<or> over (mpc s) \<Longrightarrow> \<not> g_is_search s"
    using inv(2) over_not_search by (auto simp: phase_inv_def)
  have out: "t \<notin> set (thread_queue s)" if "\<not> resting (tpc s t)" "\<not> departing (tpc s t)"
    by (rule queue_inv_not_in [OF inv(3) that])
  show ?thesis using st
  proof (cases rule: tstep.cases)
    case enqueue
    then show ?thesis using inv(5) held fin out by (auto simp: finish_inv_def)
  next
    case already
    then show ?thesis using out by simp
  next
    case all_ready
    then show ?thesis using inv(5) fin by (auto simp: finish_inv_def)
  next
    case one_ready
    then show ?thesis using inv(5) fin by (auto simp: finish_inv_def)
  next
    case take_dir
    then show ?thesis using inv(5) nosearch by (auto simp: finish_inv_def)
  next
    case (give p d ds h)
    then show ?thesis using inv(5) fin out by (auto simp: finish_inv_def)
  next
    case (store_dir p d ds)
    then show ?thesis using inv(5) fin t by (auto simp: finish_inv_def)
  next
    case failed
    then show ?thesis using inv(5) held fin out by (auto simp: finish_inv_def)
  qed (use inv(5) in \<open>auto simp: finish_inv_def\<close>)
qed

section \<open>Steps of the main thread\<close>

lemma main_step_cases:
  assumes "main_step cfg s = Some s'"
  obtains "mpc s = M_start" "s' = s\<lparr>g_is_search := True, mpc := M_lock_finish\<rparr>"
    | "mpc s = M_lock_finish" "\<not> finish_mutex s" "s' = s\<lparr>finish_mutex := True, mpc := M_check\<rparr>"
    | "mpc s = M_check" "s' = s\<lparr>mpc := M_check2 (dir_queue s = [])\<rparr>"
    | b where "mpc s = M_check2 b" "s' = s\<lparr>finish_mutex := False, mpc := M_wait\<rparr>"
    | b where "mpc s = M_check2 b" "s' = s\<lparr>g_is_search := False, mpc := M_finish\<rparr>"
        "b \<and> length (thread_queue s) + g_failed_threads s = threads_num cfg \<or> g_failed_threads s = threads_num cfg"
    | "mpc s = M_finish" "\<not> queue_mutex s"
        "s' = (fold signal_thread [0..<threads_num cfg] s)\<lparr>finish_mutex := False, mpc := M_join\<rparr>"
    | "mpc s = M_join" "s' = s\<lparr>mpc := M_done (if g_failed_threads s \<noteq> 0 then 1 else 0)\<rparr>"
        "\<forall>t < threads_num cfg. tpc s t = Exited \<or> tpc s t = Failed"
proof (cases "mpc s")
  case M_start
  then show ?thesis using that(1) assms by (simp add: main_step_def)
next
  case M_lock_finish
  then show ?thesis using that(2) assms by (simp add: main_step_def split: if_splits)
next
  case M_check
  then show ?thesis using that(3) assms by (simp add: main_step_def)
next
  case (M_check2 b)
  then show ?thesis using that(4) [of b] that(5) [of b] assms by (simp add: main_step_def split: if_splits)
next
  case M_finish
  then show ?thesis using that(6) assms by (simp add: main_step_def split: if_splits)
next
  case M_join
  then show ?thesis using that(7) assms by (simp add: main_step_def list_all_iff atLeast0LessThan split: if_splits)
next
  case M_wait
  then have False using assms by (simp add: main_step_def)
  then show ?thesis ..
next
  case (M_done c)
  then have False using assms by (simp add: main_step_def)
  then show ?thesis ..
next
  case M_crashed
  then have False using assms by (simp add: main_step_def)
  then show ?thesis ..
qed

lemma all_in_queue:
  assumes "queue_inv cfg s" "length (thread_queue s) = threads_num cfg"
  shows "set (thread_queue s) = {..<threads_num cfg}"
proof (rule card_subset_eq)
  show "card (set (thread_queue s)) = card {..<threads_num cfg}"
    using assms by (simp add: queue_inv_def distinct_card)
qed (use assms(1) in \<open>auto simp: queue_inv_def\<close>)

lemma frame_inv:
  assumes "mutex_inv cfg s" "queue_inv cfg s" "start_inv cfg s"
    "tpc s' = tpc s" "thread_queue s' = thread_queue s" "dir_queue s' = dir_queue s"
    "dir_to_handle s' = dir_to_handle s" "g_all_threads_ready s' = g_all_threads_ready s"
    "opened s' = opened s" "handled s' = handled s" "queue_mutex s' = queue_mutex s"
    "g_is_search s' \<longrightarrow> g_is_search s \<or> (\<forall>t < threads_num cfg. tpc s t \<noteq> Leave)" "over (mpc s) \<longrightarrow> over (mpc s')"
  shows "mutex_inv cfg s' \<and> queue_inv cfg s' \<and> start_inv cfg s'"
proof (intro conjI)
  show "mutex_inv cfg s'" using assms(1) by (simp add: mutex_inv_def assms(4-11))
  show "queue_inv cfg s'" using assms(2,13) unfolding queue_inv_def assms(4-11) by blast
  show "start_inv cfg s'" using assms(3,12) unfolding start_inv_def assms(4-11) by blast
qed

lemma main_step_inv:
  assumes "main_step cfg s = Some s'"
    "mutex_inv cfg s" "phase_inv s" "queue_inv cfg s" "start_inv cfg s" "finish_inv cfg s"
    "mpc s = M_start \<longrightarrow> (\<forall>t < threads_num cfg. tpc s t = Wait_start)"
  shows "mutex_inv cfg s' \<and> phase_inv s' \<and> queue_inv cfg s' \<and> start_inv cfg s' \<and> finish_inv cfg s'"
proof (cases rule: main_step_cases [OF assms(1)])
  case 1
  have "\<forall>t < threads_num cfg. tpc s t \<noteq> Leave" using assms(7) 1(1) by simp
  then have "mutex_inv cfg s' \<and> queue_inv cfg s' \<and> start_inv cfg s'"
    using 1 by (intro frame_inv [OF assms(2,4,5)]) simp_all
  then show ?thesis using 1 assms(3,6) by (simp add: phase_inv_def finish_inv_def)
next
  case 2
  then have "mutex_inv cfg s' \<and> queue_inv cfg s' \<and> start_inv cfg s'"
    by (intro frame_inv [OF assms(2,4,5)]) simp_all
  then show ?thesis using 2 assms(3,6) by (simp add: phase_inv_def finish_inv_def)
next
  case 3
  then have "mutex_inv cfg s' \<and> queue_inv cfg s' \<and> start_inv cfg s'"
    by (intro frame_inv [OF assms(2,4,5)]) simp_all
  then show ?thesis using 3 assms(3,6) by (simp add: phase_inv_def finish_inv_def)
next
  case (4 b)
  then have "mutex_inv cfg s' \<and> queue_inv cfg s' \<and> start_inv cfg s'"
    by (intro frame_inv [OF assms(2,4,5)]) simp_all
  then show ?thesis using 4 assms(3,6) by (simp add: phase_inv_def finish_inv_def)
next
  case (5 b)
  then have fr: "mutex_inv cfg s' \<and> queue_inv cfg s' \<and> start_inv cfg s'"
    by (intro frame_inv [OF assms(2,4,5)]) simp_all
  have "dir_queue s = [] \<and> (\<forall>t < threads_num cfg. t \<in> set (thread_queue s))"
    if "g_failed_threads s = 0" "0 < threads_num cfg"
    using 5 that assms(6) all_in_queue [OF assms(4)] by (simp add: finish_inv_def)
  then have "finish_inv cfg s'" using 5(2) by (simp add: finish_inv_def)
  then show ?thesis using fr 5 assms(3) by (simp add: phase_inv_def)
next
  case 6
  let ?g = "\<lambda>t. if t < threads_num cfg \<and> tpc s t = Asleep then At_lock else tpc s t"
  have s': "s' = s\<lparr>tpc := ?g, finish_mutex := False, mpc := M_join\<rparr>"
    using 6 by (simp add: fold_signal)
  have ne: "tpc s t \<noteq> Enqueued" if "t < threads_num cfg" for t
    using assms(2) 6(2) that unfolding mutex_inv_def by (metis crit.simps(3))
  have nover: "\<not> over (mpc s)" using 6(1) by simp
  have "mutex_inv cfg s'" using assms(2) by (auto simp: mutex_inv_def s')
  moreover have "phase_inv s'" using assms(3) 6(1) by (simp add: phase_inv_def s')
  moreover have "queue_inv cfg s'"
  proof -
    have "resting (tpc s t) \<Longrightarrow> t < threads_num cfg \<Longrightarrow> tpc s t = Asleep" for t
      using ne by (cases "tpc s t") auto
    then show ?thesis using assms(4) ne nover by (auto simp: queue_inv_def s' subset_iff)
  qed
  moreover have "start_inv cfg s'" using assms(5) by (auto simp: start_inv_def s')
  moreover have "finish_inv cfg s'" using assms(6) 6(1) by (simp add: finish_inv_def s')
  ultimately show ?thesis by blast
next
  case 7
  then have "mutex_inv cfg s' \<and> queue_inv cfg s' \<and> start_inv cfg s'"
    by (intro frame_inv [OF assms(2,4,5)]) simp_all
  then show ?thesis using 7 assms(3,6) by (simp add: phase_inv_def finish_inv_def)
qed

end
