(* ===== verification/Pfind_Count.thy ===== *)
theory Pfind_Count
  imports Pfind_Inv
begin

text \<open>
  The accounting invariant of the search: every directory found is opened, queued or assigned
  to a thread, every entry of an opened directory is dealt with or still ahead of the thread
  that opened it, and the counter counts the matching entries dealt with.  It yields what the
  search has found when it ends without failures.
\<close>

section \<open>The books\<close>

fun pend :: "tpc \<Rightarrow> string option \<Rightarrow> string multiset" where
  "pend (Opening p) d = {#p#}"
| "pend (Searching p ds) d = {#}"
| "pend _ d = (case d of None \<Rightarrow> {#} | Some p \<Rightarrow> {#p#})"

fun ahead :: "tpc \<Rightarrow> (string \<times> string) multiset" where
  "ahead (Searching p ds) = mset (map (Pair p) ds)"
| "ahead _ = {#}"

definition pending :: "cfg \<Rightarrow> pfind \<Rightarrow> string multiset" where
  "pending cfg s = (\<Sum>t<threads_num cfg. pend (tpc s t) (dir_to_handle s t))"

definition unread :: "cfg \<Rightarrow> pfind \<Rightarrow> (string \<times> string) multiset" where
  "unread cfg s = (\<Sum>t<threads_num cfg. ahead (tpc s t))"

definition entries_of :: "cfg \<Rightarrow> string \<Rightarrow> (string \<times> string) multiset" where
  "entries_of cfg p = mset (map (Pair p) (the (listing cfg p)))"

abbreviation join :: "string \<times> string \<Rightarrow> string" where
  "join e \<equiv> new_pathname (fst e) (snd e)"

definition books_ok :: "cfg \<Rightarrow> pfind \<Rightarrow> bool" where
  "books_ok cfg s \<longleftrightarrow>
     mset (opened s) + mset (dir_queue s) + pending cfg s =
       {#root_dir cfg#} + mset (map join (filter (subdir cfg) (handled s))) \<and>
     mset (handled s) + unread cfg s = (\<Sum>p\<in>#mset (opened s). entries_of cfg p) \<and>
     g_files_found s = length (filter (matching cfg) (handled s)) \<and>
     (\<forall>p \<in> set (opened s). listing cfg p \<noteq> None)"

definition nofail :: "cfg \<Rightarrow> pfind \<Rightarrow> bool" where
  "nofail cfg s \<longleftrightarrow> (\<forall>t < threads_num cfg. tpc s t \<noteq> Failing \<and> tpc s t \<noteq> Failed)"

definition count_inv :: "cfg \<Rightarrow> pfind \<Rightarrow> bool" where
  "count_inv cfg s \<longleftrightarrow>
     (\<forall>t < threads_num cfg. tpc s t = Want_finish \<longrightarrow> dir_to_handle s t = None) \<and>
     (nofail cfg s \<longrightarrow> books_ok cfg s)"

lemma sum_change:
  fixes f g :: "nat \<Rightarrow> 'a multiset"
  assumes "t < n" "\<And>u. u < n \<Longrightarrow> u \<noteq> t \<Longrightarrow> g u = f u"
  shows "(\<Sum>u<n. g u) + f t = (\<Sum>u<n. f u) + g t"
proof -
  have "(\<Sum>u\<in>{..<n} - {t}. g u) = (\<Sum>u\<in>{..<n} - {t}. f u)" by (rule sum.cong) (use assms(2) in auto)
  then show ?thesis using assms(1) by (simp add: sum.remove [of "{..<n}" t])
qed

lemma pending_same:
  assumes "\<And>t. t < threads_num cfg \<Longrightarrow>
    pend (tpc s' t) (dir_to_handle s' t) = pend (tpc s t) (dir_to_handle s t)"
  shows "pending cfg s' = pending cfg s"
  unfolding pending_def by (rule sum.cong) (use assms in auto)

lemma unread_same:
  assumes "\<And>t. t < threads_num cfg \<Longrightarrow> ahead (tpc s' t) = ahead (tpc s t)"
  shows "unread cfg s' = unread cfg s"
  unfolding unread_def by (rule sum.cong) (use assms in auto)

lemma pending_change:
  assumes "t < threads_num cfg"
    "\<And>u. u < threads_num cfg \<Longrightarrow> u \<noteq> t \<Longrightarrow>
      pend (tpc s' u) (dir_to_handle s' u) = pend (tpc s u) (dir_to_handle s u)"
  shows "pending cfg s' + pend (tpc s t) (dir_to_handle s t) =
    pending cfg s + pend (tpc s' t) (dir_to_handle s' t)"
  unfolding pending_def by (rule sum_change [OF assms(1)]) (rule assms(2))

lemma unread_change:
  assumes "t < threads_num cfg" "\<And>u. u < threads_num cfg \<Longrightarrow> u \<noteq> t \<Longrightarrow> ahead (tpc s' u) = ahead (tpc s u)"
  shows "unread cfg s' + ahead (tpc s t) = unread cfg s + ahead (tpc s' t)"
  unfolding unread_def by (rule sum_change [OF assms(1)]) (rule assms(2))

lemma books_same:
  assumes "pending cfg s' = pending cfg s" "unread cfg s' = unread cfg s"
    "opened s' = opened s" "dir_queue s' = dir_queue s" "handled s' = handled s" "g_files_found s' = g_files_found s"
  shows "books_ok cfg s' = books_ok cfg s"
  by (simp add: books_ok_def assms)

section \<open>Steps\<close>

lemma tstep_nofail: "tstep cfg t s s' \<Longrightarrow> nofail cfg s' \<Longrightarrow> t < threads_num cfg \<Longrightarrow> nofail cfg s"
  by (erule tstep.cases) (auto simp: nofail_def split: if_splits)

text \<open>An entry that is neither a directory to search nor a match, or a match, or a directory.\<close>

lemma books_entry:
  assumes "books_ok cfg s" "t < threads_num cfg" "tpc s t = Searching p (d # ds)"
    "tpc s' t = Searching p ds"
    "\<And>u. u < threads_num cfg \<Longrightarrow> u \<noteq> t \<Longrightarrow> ahead (tpc s' u) = ahead (tpc s u)"
    "opened s' = opened s" "handled s' = (p, d) # handled s"
    "mset (dir_queue s') + pending cfg s' =
       mset (dir_queue s) + pending cfg s + (if subdir cfg (p, d) then {#new_pathname p d#} else {#})"
    "g_files_found s' = g_files_found s + (if matching cfg (p, d) then 1 else 0)"
  shows "books_ok cfg s'"
proof -
  have "unread cfg s' + ahead (tpc s t) = unread cfg s + ahead (tpc s' t)"
    by (rule unread_change [OF assms(2,5)])
  then have "unread cfg s + mset (map (Pair p) ds) = add_mset (p, d) (unread cfg s') + mset (map (Pair p) ds)"
    using assms(3,4) by simp
  then have un: "unread cfg s = add_mset (p, d) (unread cfg s')" by (rule add_right_imp_eq)
  have bk: "mset (opened s) + (mset (dir_queue s) + pending cfg s) =
       {#root_dir cfg#} + mset (map join (filter (subdir cfg) (handled s)))"
    "mset (handled s) + unread cfg s = (\<Sum>p\<in>#mset (opened s). entries_of cfg p)"
    "g_files_found s = length (filter (matching cfg) (handled s))"
    "\<forall>p \<in> set (opened s). listing cfg p \<noteq> None"
    using assms(1) by (simp_all add: books_ok_def add.assoc)
  have "mset (opened s') + (mset (dir_queue s') + pending cfg s') =
       {#root_dir cfg#} + mset (map join (filter (subdir cfg) (handled s')))"
    unfolding assms(6,7,8) add.assoc [symmetric] using bk(1) by (simp add: add.assoc)
  moreover have "mset (handled s') + unread cfg s' = (\<Sum>p\<in>#mset (opened s'). entries_of cfg p)"
    unfolding assms(6,7) using bk(2) un by simp
  moreover have "g_files_found s' = length (filter (matching cfg) (handled s'))"
    unfolding assms(7,9) using bk(3) by simp
  ultimately show ?thesis
    using bk(4) by (simp add: books_ok_def assms(6) add.assoc)
qed

lemma resting_pend: "resting x \<or> departing x \<Longrightarrow> pend x d = (case d of None \<Rightarrow> {#} | Some p \<Rightarrow> {#p#})"
  by (cases x) auto

lemma ahead_empty: "\<not> in_dir x \<Longrightarrow> ahead x = {#}"
  by (cases x) auto

lemma last_mset: "q \<noteq> [] \<Longrightarrow> mset (butlast q) + {#last q#} = mset q"
  by (cases q rule: rev_cases) auto

text \<open>A thread moves between two program points outside a directory.\<close>

lemma books_goto:
  assumes "tpc s' = (tpc s)(t := q)" "\<not> in_dir (tpc s t)" "\<not> in_dir q" "dir_to_handle s' = dir_to_handle s"
    "opened s' = opened s" "dir_queue s' = dir_queue s" "handled s' = handled s" "g_files_found s' = g_files_found s"
  shows "books_ok cfg s' = books_ok cfg s"
proof (rule books_same)
  have "pend q d = pend (tpc s t) d" for d using assms(2,3) by (cases q; cases "tpc s t") auto
  then show "pending cfg s' = pending cfg s" by (intro pending_same) (simp add: assms)
  show "unread cfg s' = unread cfg s"
    using assms(2,3) by (intro unread_same) (simp add: assms ahead_empty)
qed (use assms in simp_all)

lemma tstep_books:
  assumes st: "tstep cfg t s s'" and t: "t < threads_num cfg"
    and inv: "mutex_inv cfg s" "queue_inv cfg s" "count_inv cfg s"
    and books: "books_ok cfg s" and nf: "nofail cfg s'" and nc: "mpc s' \<noteq> M_crashed"
  shows "books_ok cfg s'"
  using st
proof (cases rule: tstep.cases)
  case enqueue
  have "dir_to_handle s t = None" using inv(3) t enqueue(2) by (simp add: count_inv_def)
  then have "dir_to_handle s' = dir_to_handle s" using enqueue(1) by (simp add: fun_eq_iff)
  then have "books_ok cfg s' = books_ok cfg s" by (intro books_goto [of s' s t Enqueued]) (simp_all add: enqueue)
  then show ?thesis using books by simp
next
  case all_ready
  let ?h = "last (thread_queue s)"
  let ?s1 = "signal_thread ?h s"
  have "books_ok cfg ?s1 = books_ok cfg s"
  proof (cases "tpc s ?h = Asleep")
    case True
    then show ?thesis by (intro books_goto [of ?s1 s ?h At_lock]) simp_all
  qed (simp add: signal_thread_def)
  moreover have "books_ok cfg s' = books_ok cfg ?s1"
    by (intro books_goto [of s' ?s1 t Asleep]) (use all_ready in \<open>auto simp: fun_eq_iff\<close>)
  ultimately show ?thesis using books by simp
next
  case (own_dir d)
  have "pending cfg s' = pending cfg s" using own_dir by (intro pending_same) simp
  moreover have "unread cfg s' = unread cfg s" using own_dir by (intro unread_same) simp
  ultimately show ?thesis using books_same [of cfg s' s] books own_dir by simp
next
  case take_dir
  have "pending cfg s' + pend (tpc s t) (dir_to_handle s t) = pending cfg s + pend (tpc s' t) (dir_to_handle s' t)"
    using take_dir by (intro pending_change [OF t]) simp
  then have pe: "pending cfg s' = pending cfg s + {#last (dir_queue s)#}" using take_dir by simp
  have un: "unread cfg s' = unread cfg s" using take_dir by (intro unread_same) simp
  have e: "mset (opened s) + mset (dir_queue s') + pending cfg s' = mset (opened s) + mset (dir_queue s) + pending cfg s"
    using last_mset [OF take_dir(5)] take_dir(1) pe by (simp add: ac_simps)
  have eqs: "opened s' = opened s" "handled s' = handled s" "g_files_found s' = g_files_found s"
    by (simp_all add: take_dir(1))
  show ?thesis using books unfolding books_ok_def eqs e un .
next
  case (open_dir p ds)
  have "pending cfg s' + pend (tpc s t) (dir_to_handle s t) = pending cfg s + pend (tpc s' t) (dir_to_handle s' t)"
    using open_dir by (intro pending_change [OF t]) simp
  then have pe: "pending cfg s = add_mset p (pending cfg s')" using open_dir by simp
  have "unread cfg s' + ahead (tpc s t) = unread cfg s + ahead (tpc s' t)"
    using open_dir by (intro unread_change [OF t]) simp
  then have "unread cfg s' = unread cfg s + entries_of cfg p" using open_dir by (simp add: entries_of_def)
  then show ?thesis using books open_dir pe by (auto simp: books_ok_def ac_simps)
next
  case (close_dir p)
  have pe: "pending cfg s' = pending cfg s" using close_dir by (intro pending_same) simp
  have "unread cfg s' = unread cfg s" using close_dir by (intro unread_same) simp
  then show ?thesis using books_same [of cfg s' s] books close_dir pe by simp
next
  case (skip p d ds)
  have pe: "pending cfg s' = pending cfg s" using skip by (intro pending_same) simp
  show ?thesis
    by (rule books_entry [OF books t skip(2), of s']) (use skip pe in simp_all)
next
  case (match p d ds)
  have pe: "pending cfg s' = pending cfg s" using match by (intro pending_same) simp
  show ?thesis
    by (rule books_entry [OF books t match(2), of s']) (use match pe in simp_all)
next
  case (give p d ds h)
  have h: "h \<in> set (thread_queue s)" using give(6,7) by simp
  then have hn: "h < threads_num cfg" and hd: "dir_to_handle s h = None"
    and hr: "resting (tpc s h) \<or> departing (tpc s h)" using inv(2) by (auto simp: queue_inv_def)
  have ht: "h \<noteq> t" using hr give(2) by auto
  have tpch: "tpc s' h = (if tpc s h = Asleep then At_lock else tpc s h)" using give(1) ht by simp
  then have hr': "resting (tpc s' h) \<or> departing (tpc s' h)" using hr by auto
  have "pending cfg s' + pend (tpc s h) (dir_to_handle s h) = pending cfg s + pend (tpc s' h) (dir_to_handle s' h)"
    using give ht by (intro pending_change [OF hn]) simp
  moreover have "pend (tpc s h) (dir_to_handle s h) = {#}" using resting_pend [OF hr] hd by simp
  moreover have "pend (tpc s' h) (dir_to_handle s' h) = {#new_pathname p d#}"
    using resting_pend [OF hr'] give(1) ht by simp
  ultimately have pe: "pending cfg s' = add_mset (new_pathname p d) (pending cfg s)" by simp
  have "ahead (tpc s' u) = ahead (tpc s u)" if "u \<noteq> t" for u
    using give(1) that hr by (cases "u = h") auto
  then show ?thesis
    by (intro books_entry [OF books t give(2), of s']) (use give pe in simp_all)
next
  case (store_dir p d ds)
  have pe: "pending cfg s' = pending cfg s" using store_dir by (intro pending_same) simp
  show ?thesis
    by (rule books_entry [OF books t store_dir(2), of s']) (use store_dir pe in simp_all)
next
  case failing
  then have "tpc s' t = Failing \<or> tpc s' t = Failed" by simp
  then show ?thesis using nf t unfolding nofail_def by blast
next
  case failed
  then have "tpc s' t = Failing \<or> tpc s' t = Failed" by simp
  then show ?thesis using nf t unfolding nofail_def by blast
next
  case oom
  then have "tpc s' t = Failing \<or> tpc s' t = Failed" by simp
  then show ?thesis using nf t unfolding nofail_def by blast
next
  case crash
  then show ?thesis using nc by simp
next
  case started
  have "books_ok cfg s' = books_ok cfg s" by (intro books_goto [of s' s t At_lock]) (simp_all add: started)
  then show ?thesis using books by simp
next
  case lock
  have "books_ok cfg s' = books_ok cfg s" by (intro books_goto [of s' s t Test]) (simp_all add: lock)
  then show ?thesis using books by simp
next
  case to_sleep
  have "books_ok cfg s' = books_ok cfg s" by (intro books_goto [of s' s t Want_finish]) (simp_all add: to_sleep)
  then show ?thesis using books by simp
next
  case to_leave
  have "books_ok cfg s' = books_ok cfg s" by (intro books_goto [of s' s t Leave]) (simp_all add: to_leave)
  then show ?thesis using books by simp
next
  case already
  have "books_ok cfg s' = books_ok cfg s" by (intro books_goto [of s' s t Enqueued]) (simp_all add: already)
  then show ?thesis using books by simp
next
  case one_ready
  have "books_ok cfg s' = books_ok cfg s" by (intro books_goto [of s' s t Test]) (simp_all add: one_ready)
  then show ?thesis using books by simp
next
  case sleep
  have "books_ok cfg s' = books_ok cfg s" by (intro books_goto [of s' s t Asleep]) (simp_all add: sleep)
  then show ?thesis using books by simp
next
  case leave
  have "books_ok cfg s' = books_ok cfg s" by (intro books_goto [of s' s t Exited]) (simp_all add: leave)
  then show ?thesis using books by simp
qed

lemma tstep_count:
  assumes st: "tstep cfg t s s'" and t: "t < threads_num cfg"
    and inv: "mutex_inv cfg s" "queue_inv cfg s" "start_inv cfg s" "count_inv cfg s"
  shows "mpc s' = M_crashed \<or> count_inv cfg s'"
proof -
  have w: "\<forall>u < threads_num cfg. tpc s u = Want_finish \<longrightarrow> dir_to_handle s u = None"
    using inv(4) by (simp add: count_inv_def)
  have q: "\<And>u. u \<in> set (thread_queue s) \<Longrightarrow> tpc s u \<noteq> Want_finish"
    using inv(2) by (auto simp: queue_inv_def)
  have "\<forall>u < threads_num cfg. tpc s' u = Want_finish \<longrightarrow> dir_to_handle s' u = None"
    using st
  proof (cases rule: tstep.cases)
    case to_sleep
    then have "dir_to_handle s t = None"
      using inv(3) t by (auto simp: should_thread_sleep_def start_inv_def split: if_splits)
    then show ?thesis using to_sleep w by simp
  next
    case (give p d ds h)
    have "tpc s h \<noteq> Want_finish" using q [of h] give(6,7) by simp
    then show ?thesis using give w by auto
  qed (use w in auto)
  moreover have "mpc s' \<noteq> M_crashed \<Longrightarrow> nofail cfg s' \<Longrightarrow> books_ok cfg s'"
    using tstep_books [OF st t inv(1,2,4)] tstep_nofail [OF st _ t] inv(4) by (auto simp: count_inv_def)
  ultimately show ?thesis by (auto simp: count_inv_def)
qed

lemma main_step_count:
  assumes "main_step cfg s = Some s'" "count_inv cfg s"
  shows "count_inv cfg s'"
proof (cases rule: main_step_cases [OF assms(1)])
  case 6
  let ?g = "\<lambda>t. if t < threads_num cfg \<and> tpc s t = Asleep then At_lock else tpc s t"
  have s': "s' = s\<lparr>tpc := ?g, finish_mutex := False, mpc := M_join\<rparr>"
    using 6 by (simp add: fold_signal)
  have "pending cfg s' = pending cfg s" by (rule pending_same) (simp add: s')
  moreover have "unread cfg s' = unread cfg s" by (rule unread_same) (simp add: s')
  ultimately have "books_ok cfg s' = books_ok cfg s" by (intro books_same) (simp_all add: s')
  moreover have "nofail cfg s' = nofail cfg s" by (simp add: nofail_def s') (metis tpc.distinct)
  ultimately show ?thesis using assms(2) by (auto simp: count_inv_def s')
qed (use assms(2) in \<open>simp_all add: count_inv_def nofail_def books_ok_def pending_def unread_def\<close>)

section \<open>The invariant of every run\<close>

definition pf_inv :: "cfg \<Rightarrow> pfind \<Rightarrow> bool" where
  "pf_inv cfg s \<longleftrightarrow> mpc s = M_crashed \<or>
     (mutex_inv cfg s \<and> phase_inv s \<and> queue_inv cfg s \<and> start_inv cfg s \<and> finish_inv cfg s \<and> count_inv cfg s \<and>
      (mpc s = M_start \<longrightarrow> (\<forall>t < threads_num cfg. tpc s t = Wait_start)))"

lemma pf_inv_init: "pf_inv cfg (pfind_init cfg)"
  by (simp add: pf_inv_def mutex_inv_def phase_inv_def queue_inv_def start_inv_def finish_inv_def count_inv_def
      books_ok_def pending_def unread_def pfind_init_def)

lemma tstep_mpc:
  "tstep cfg t s s' \<Longrightarrow> mpc s' = M_crashed \<or> mpc s' = mpc s \<or> mpc s = M_wait \<and> mpc s' = M_lock_finish"
  by (erule tstep.cases) auto

lemma tstep_inv:
  assumes "tstep cfg t s s'" "t < threads_num cfg" "pf_inv cfg s" "mpc s \<noteq> M_crashed"
  shows "pf_inv cfg s'"
proof (cases "mpc s' = M_crashed")
  case False
  have inv: "mutex_inv cfg s" "phase_inv s" "queue_inv cfg s" "start_inv cfg s" "finish_inv cfg s" "count_inv cfg s"
    "mpc s = M_start \<longrightarrow> (\<forall>t < threads_num cfg. tpc s t = Wait_start)"
    using assms(3,4) by (simp_all add: pf_inv_def)
  have "mpc s \<noteq> M_start"
  proof
    assume "mpc s = M_start"
    then have "tpc s t = Wait_start" "\<not> g_is_search s" using inv(2,7) assms(2) by (auto simp: phase_inv_def)
    with assms(1) False show False by (cases rule: tstep.cases) auto
  qed
  then have "mpc s' \<noteq> M_start"
    using tstep_mpc [OF assms(1)] False by auto
  then show ?thesis
    using tstep_mutex [OF assms(1,2) inv(1)] tstep_phase [OF assms(1) inv(2) False]
      tstep_queue [OF assms(1,2) inv(1-3)] tstep_start [OF assms(1,2) inv(1,4)]
      tstep_finish [OF assms(1,2) inv(1-5)] tstep_count [OF assms(1,2) inv(1,3,4,6)] False
    by (simp add: pf_inv_def)
qed (simp add: pf_inv_def)

lemma pf_event_inv:
  assumes "pf_event cfg ev s = Some s'" "no_spurious ev" "pf_inv cfg s"
  shows "pf_inv cfg s'"
proof -
  have al: "mpc s \<noteq> M_crashed" using assms(1) by (auto simp: pf_event_def alive_def)
  show ?thesis
  proof (cases ev)
    case (T t)
    then have "t < threads_num cfg" "tstep cfg t s s'"
      using assms(1) thread_step_tstep by (simp_all add: pf_event_def split: if_splits)
    then show ?thesis using tstep_inv assms(3) al by blast
  next
    case (T_oom t)
    then have "t < threads_num cfg" "tstep cfg t s s'"
      using assms(1) thread_step_oom_tstep by (simp_all add: pf_event_def split: if_splits)
    then show ?thesis using tstep_inv assms(3) al by blast
  next
    case Main
    then have m: "main_step cfg s = Some s'" using assms(1) by (simp add: pf_event_def split: if_splits)
    have "mpc s' \<noteq> M_start" by (cases rule: main_step_cases [OF m]) simp_all
    then show ?thesis
      using main_step_inv [OF m] main_step_count [OF m] assms(3) al by (simp add: pf_inv_def)
  next
    case (Spurious t)
    then show ?thesis using assms(2) by simp
  next
    case Spurious_main
    then have s': "mpc s = M_wait" "s' = s\<lparr>mpc := M_lock_finish\<rparr>"
      using assms(1) by (auto simp: pf_event_def split: if_splits)
    have inv: "mutex_inv cfg s" "queue_inv cfg s" "start_inv cfg s" "count_inv cfg s"
      "phase_inv s" "finish_inv cfg s" using assms(3) al by (simp_all add: pf_inv_def)
    have "mutex_inv cfg s' \<and> queue_inv cfg s' \<and> start_inv cfg s'"
      by (intro frame_inv [OF inv(1-3)]) (simp_all add: s')
    moreover have "count_inv cfg s'"
      using inv(4) by (simp add: s'(2) count_inv_def nofail_def books_ok_def pending_def unread_def)
    ultimately show ?thesis
      using inv(5,6) s' by (simp add: pf_inv_def phase_inv_def finish_inv_def)
  qed
qed

lemma pf_reach_inv: "pf_reach cfg s \<Longrightarrow> pf_inv cfg s"
  by (induction rule: pf_reach.induct) (auto intro: pf_inv_init pf_event_inv)

end
