(* ===== verification/Pfind_Result.thy ===== *)
theory Pfind_Result
  imports Pfind_Count
begin

text \<open>
  From the books of a finished search to its result: the directories opened are exactly the
  ones reachable from the root, each once, and the counter is the number of matching entries in
  them.
\<close>

section \<open>What the search should find\<close>

inductive_set reach_dirs :: "cfg \<Rightarrow> string set" for cfg where
  root: "root_dir cfg \<in> reach_dirs cfg"
| sub: "p \<in> reach_dirs cfg \<Longrightarrow> listing cfg p = Some ds \<Longrightarrow> d \<in> set ds \<Longrightarrow> subdir cfg (p, d) \<Longrightarrow>
    new_pathname p d \<in> reach_dirs cfg"

definition matches_in :: "cfg \<Rightarrow> string \<Rightarrow> nat" where
  "matches_in cfg p = length (filter (\<lambda>d. matching cfg (p, d)) (the (listing cfg p)))"

text \<open>Directory entries have distinct names without a slash.\<close>

definition fs_ok :: "cfg \<Rightarrow> bool" where
  "fs_ok cfg \<longleftrightarrow> (\<forall>p ds. listing cfg p = Some ds \<longrightarrow> distinct ds \<and> (\<forall>d \<in> set ds. CHR ''/'' \<notin> set d))"

section \<open>Paths\<close>

lemma new_pathname_inj:
  assumes "CHR ''/'' \<notin> set d" "CHR ''/'' \<notin> set e" "new_pathname p d = new_pathname q e"
  shows "p = q \<and> d = e"
proof -
  let ?P = "\<lambda>c. c \<noteq> CHR ''/''"
  have tw: "takeWhile ?P (rev (new_pathname p d)) = rev d" if "CHR ''/'' \<notin> set d" for p d
    using that by (auto simp: new_pathname_def takeWhile_append)
  have "rev d = rev e" using tw [OF assms(1), of p] tw [OF assms(2), of q] assms(3) by metis
  then show ?thesis using assms(3) by (simp add: new_pathname_def)
qed

lemma new_pathname_longer: "length p < length (new_pathname p d)"
  by (simp add: new_pathname_def)

section \<open>Counting\<close>

lemma count_sum_image: "count (\<Sum>p\<in>#M. f p) x = (\<Sum>p\<in>#M. count (f p) x)"
  by (induction M) auto

lemma in_sum_image: "x \<in># (\<Sum>p\<in>#M. f p) \<longleftrightarrow> (\<exists>p. p \<in># M \<and> x \<in># f p)"
  by (induction M) auto

lemma count_entries:
  assumes "fs_ok cfg" "listing cfg q = Some ds"
  shows "count (entries_of cfg q) (p, d) = (if q = p \<and> d \<in> set ds then 1 else 0)"
proof -
  have "distinct (map (Pair q) ds)" using assms by (auto simp: fs_ok_def distinct_map inj_on_def)
  then show ?thesis using assms(2) by (auto simp: entries_of_def distinct_count_atmost_1)
qed

lemma sum_indicator: "(\<Sum>q\<in>#M. if q = p \<and> b then 1 else 0) = (if b then count M p else (0 :: nat))"
  by (induction M) auto

lemma count_image_filter:
  "count (image_mset f (filter_mset P M)) x = size (filter_mset (\<lambda>e. P e \<and> f e = x) M)"
  by (induction M) auto

text \<open>The books of a search that is over: opened directories \<open>O\<close> and dealt-with entries \<open>H\<close>.\<close>

lemma closed_books:
  fixes Op :: "string multiset" and H :: "(string \<times> string) multiset"
  assumes fs: "fs_ok cfg"
    and op: "Op = {#root_dir cfg#} + image_mset join (filter_mset (subdir cfg) H)"
    and H: "H = (\<Sum>p\<in>#Op. entries_of cfg p)"
    and ls: "\<forall>p \<in># Op. listing cfg p \<noteq> None"
  shows "set_mset Op = reach_dirs cfg" "Op = mset_set (reach_dirs cfg)"
proof -
  have inH: "(p, d) \<in># H \<longleftrightarrow> (\<exists>ds. p \<in># Op \<and> listing cfg p = Some ds \<and> d \<in> set ds)" for p d
  proof -
    have "(p, d) \<in># H \<longleftrightarrow> (\<exists>q. q \<in># Op \<and> (p, d) \<in># entries_of cfg q)" unfolding H in_sum_image ..
    also have "\<dots> \<longleftrightarrow> p \<in># Op \<and> d \<in> set (the (listing cfg p))" by (auto simp: entries_of_def)
    finally show ?thesis using ls by auto
  qed
  have sub: "x = root_dir cfg \<or> (\<exists>p d. x = new_pathname p d \<and> (p, d) \<in># H \<and> subdir cfg (p, d))" if "x \<in># Op" for x
    using that by (subst (asm) op) auto
  have "x \<in># Op \<Longrightarrow> x \<in> reach_dirs cfg" for x
  proof (induction "length x" arbitrary: x rule: less_induct)
    case less
    from sub [OF less.prems] show ?case
    proof
      assume "x = root_dir cfg"
      then show ?thesis by (simp add: reach_dirs.root)
    next
      assume "\<exists>p d. x = new_pathname p d \<and> (p, d) \<in># H \<and> subdir cfg (p, d)"
      then obtain p d ds where x: "x = new_pathname p d" "p \<in># Op" "listing cfg p = Some ds" "d \<in> set ds"
        "subdir cfg (p, d)" using inH by blast
      then show ?thesis using less.hyps [of p] new_pathname_longer reach_dirs.sub by blast
    qed
  qed
  moreover have "x \<in># Op" if "x \<in> reach_dirs cfg" for x
    using that
  proof (induction rule: reach_dirs.induct)
    case root
    show ?case by (subst op) simp
  next
    case (sub p ds d)
    then have "(p, d) \<in># filter_mset (subdir cfg) H" using inH by auto
    then show ?case by (subst op) force
  qed
  ultimately show set: "set_mset Op = reach_dirs cfg" by blast
  have long: "length (root_dir cfg) \<le> length x" if "x \<in> reach_dirs cfg" for x
    using that by (induction rule: reach_dirs.induct) (auto intro: order.trans less_imp_le new_pathname_longer)
  have "count Op x \<le> 1" for x
  proof (induction "length x" arbitrary: x rule: less_induct)
    case less
    have cnt: "count Op x = (if x = root_dir cfg then 1 else 0) +
        size (filter_mset (\<lambda>e. subdir cfg e \<and> join e = x) H)"
      by (subst op) (simp add: count_image_filter)
    show ?case
    proof (cases "\<exists>p d. (p, d) \<in># H \<and> subdir cfg (p, d) \<and> new_pathname p d = x")
      case False
      then have "filter_mset (\<lambda>e. subdir cfg e \<and> join e = x) H = {#}" by (auto simp: filter_mset_eq_conv)
      then have none: "size (filter_mset (\<lambda>e. subdir cfg e \<and> join e = x) H) = 0" by (simp only: size_empty)
      show ?thesis unfolding cnt none by simp
    next
      case True
      then obtain p d where e: "(p, d) \<in># H" "subdir cfg (p, d)" "new_pathname p d = x" by blast
      then obtain ds where p: "p \<in># Op" "listing cfg p = Some ds" "d \<in> set ds" using inH by blast
      have nr: "x \<noteq> root_dir cfg"
        using long [of p] p(1) set new_pathname_longer [of p d] e(3) by auto
      have uniq: "e' = (p, d)" if e'H: "e' \<in># H" and e'x: "join e' = x" for e'
      proof -
        obtain q f where e': "e' = (q, f)" by force
        then have "\<exists>l. listing cfg q = Some l \<and> f \<in> set l" using e'H inH by simp
        then have f: "CHR ''/'' \<notin> set f" using fs unfolding fs_ok_def by blast
        have d: "CHR ''/'' \<notin> set d" using fs p(2,3) unfolding fs_ok_def by blast
        have "new_pathname q f = new_pathname p d" using e'x e(3) e' by simp
        then show ?thesis using new_pathname_inj [OF f d] e' by simp
      qed
      have "join (p, d) = x" using e(3) by simp
      then have "(subdir cfg e' \<and> join e' = x) = (e' = (p, d))" if "e' \<in># H" for e'
        using uniq that e(2) by blast
      then have flt: "filter_mset (\<lambda>e. subdir cfg e \<and> join e = x) H = filter_mset (\<lambda>e. e = (p, d)) H"
        by (rule filter_mset_cong [OF refl])
      have "count Op x = count H (p, d)" unfolding cnt flt using nr by (simp add: filter_eq_replicate_mset)
      also have "\<dots> = (\<Sum>q\<in>#Op. count (entries_of cfg q) (p, d))" by (simp add: H count_sum_image)
      also have "\<dots> = (\<Sum>q\<in>#Op. if q = p \<and> d \<in> set ds then 1 else 0)"
      proof (intro arg_cong [of _ _ sum_mset] image_mset_cong)
        fix q assume "q \<in># Op"
        then obtain es where "listing cfg q = Some es" using ls by auto
        then show "count (entries_of cfg q) (p, d) = (if q = p \<and> d \<in> set ds then 1 else 0)"
          using count_entries [OF fs, of q es p d] p(2) by auto
      qed
      also have "\<dots> = count Op p" unfolding sum_indicator using p(3) by simp
      finally show ?thesis using less.hyps [of p] new_pathname_longer [of p d] e(3) by simp
    qed
  qed
  then show "Op = mset_set (reach_dirs cfg)"
    using set by (intro multiset_eqI) (metis One_nat_def count_eq_zero_iff count_mset_set finite_set_mset le_Suc_eq le_zero_eq)
qed

end
