(* ===== verification/Pfind_Live.thy ===== *)
theory Pfind_Live
  imports Pfind_Count
begin

text \<open>
  Why the search never gets stuck: a second invariant, of the runs in which no thread is woken
  without a signal and no allocation fails.  It says who holds the queue mutex, that the main
  thread does not wait when it has nothing to wait for, and that directories in the queue always
  have a thread that comes for them.
\<close>

section \<open>Steps without failing allocations\<close>

definition quiet :: "event \<Rightarrow> bool" where
  "quiet ev \<longleftrightarrow> no_spurious ev \<and> (\<forall>t. ev \<noteq> T_oom t)"

definition qstep :: "cfg \<Rightarrow> nat \<Rightarrow> pfind \<Rightarrow> pfind \<Rightarrow> bool" where
  "qstep cfg t s s' \<longleftrightarrow> tstep cfg t s s' \<and> mpc s' \<noteq> M_crashed \<and>
     (tpc s t = Wait_start \<longrightarrow> tpc s' t \<noteq> Failing) \<and>
     (queue_mutex s' \<longrightarrow> queue_mutex s \<or> tpc s t = At_lock)"

lemma handle_entry_mutex:
  "handle_entry cfg t p d ds s = Some s' \<Longrightarrow> queue_mutex s' = queue_mutex s"
  by (auto simp: handle_entry_def hand_over_def Let_def split: if_splits option.splits)

lemma thread_step_qstep:
  assumes "thread_step cfg t s = Some s'" "mpc s' \<noteq> M_crashed"
  shows "qstep cfg t s s'"
proof -
  have "tpc s t = Wait_start \<longrightarrow> tpc s' t \<noteq> Failing"
    using assms(1) by (auto simp: thread_step_defs split: if_splits)
  moreover have "queue_mutex s' \<longrightarrow> queue_mutex s \<or> tpc s t = At_lock"
  proof (cases "tpc s t")
    case (Searching p ds)
    then show ?thesis
      using assms(1) handle_entry_mutex by (cases ds) (auto simp: thread_step_defs)
  qed (use assms(1) in \<open>auto simp: thread_step_defs Let_def split: if_splits option.splits\<close>)
  ultimately show ?thesis
    using thread_step_tstep [OF assms(1)] assms(2) by (simp add: qstep_def)
qed

section \<open>The failed threads\<close>

definition failures :: "cfg \<Rightarrow> pfind \<Rightarrow> nat set" where
  "failures cfg s = {t. t < threads_num cfg \<and> tpc s t = Failed}"

definition failed_inv :: "cfg \<Rightarrow> pfind \<Rightarrow> bool" where
  "failed_inv cfg s \<longleftrightarrow> g_failed_threads s = card (failures cfg s)"

lemma failures_finite [simp]: "finite (failures cfg s)"
  by (simp add: failures_def)

lemma tstep_not_failed:
  assumes "tstep cfg t s s'" "\<not> (tpc s t = Failing \<and> tpc s' t = Failed)"
  shows "g_failed_threads s' = g_failed_threads s" "failures cfg s' = failures cfg s"
proof -
  have "g_failed_threads s' = g_failed_threads s \<and> (\<forall>u. (tpc s' u = Failed) = (tpc s u = Failed))"
    using assms by (cases rule: tstep.cases) auto
  then show "g_failed_threads s' = g_failed_threads s" "failures cfg s' = failures cfg s"
    by (simp_all add: failures_def)
qed

lemma tstep_failed:
  assumes "tstep cfg t s s'" "t < threads_num cfg" "failed_inv cfg s"
  shows "failed_inv cfg s'"
proof (cases "tpc s t = Failing \<and> tpc s' t = Failed")
  case True
  have "failures cfg s' = insert t (failures cfg s) \<and> g_failed_threads s' = g_failed_threads s + 1"
    using assms(1) True assms(2) by (cases rule: tstep.cases) (auto simp: failures_def)
  moreover have "t \<notin> failures cfg s" using True by (simp add: failures_def)
  ultimately show ?thesis using assms(3) by (simp add: failed_inv_def)
next
  case False
  then show ?thesis using tstep_not_failed [OF assms(1)] assms(3) by (simp add: failed_inv_def)
qed

text \<open>Threads in the queue have not failed, so there are at most \<open>n\<close> of both.\<close>

lemma queue_failures:
  assumes "queue_inv cfg s"
  shows "set (thread_queue s) \<inter> failures cfg s = {}"
    "set (thread_queue s) \<union> failures cfg s \<subseteq> {..<threads_num cfg}"
proof -
  show "set (thread_queue s) \<inter> failures cfg s = {}"
    using assms by (force simp: queue_inv_def failures_def)
  show "set (thread_queue s) \<union> failures cfg s \<subseteq> {..<threads_num cfg}"
    using assms by (auto simp: queue_inv_def failures_def)
qed

lemma idle_count:
  assumes "queue_inv cfg s" "failed_inv cfg s"
  shows "length (thread_queue s) + g_failed_threads s = card (set (thread_queue s) \<union> failures cfg s)"
  using assms(1) assms(2) queue_failures [OF assms(1)]
  by (simp add: card_Un_disjoint failed_inv_def queue_inv_def distinct_card)

lemma idle_less:
  assumes "queue_inv cfg s" "failed_inv cfg s" "t < threads_num cfg"
    "t \<notin> set (thread_queue s)" "tpc s t \<noteq> Failed"
  shows "length (thread_queue s) + g_failed_threads s < threads_num cfg"
proof -
  have "set (thread_queue s) \<union> failures cfg s \<subset> {..<threads_num cfg}"
    using queue_failures(2) [OF assms(1)] assms(3-5) by (auto simp: failures_def)
  then have "card (set (thread_queue s) \<union> failures cfg s) < card {..<threads_num cfg}"
    by (rule psubset_card_mono [OF finite_lessThan])
  then show ?thesis using idle_count [OF assms(1,2)] by simp
qed

lemma idle_all:
  assumes "queue_inv cfg s" "failed_inv cfg s"
    "length (thread_queue s) + g_failed_threads s = threads_num cfg \<or> g_failed_threads s = threads_num cfg"
    "t < threads_num cfg"
  shows "t \<in> set (thread_queue s) \<or> tpc s t = Failed"
proof (rule ccontr)
  assume "\<not> ?thesis"
  then show False using idle_less [OF assms(1,2,4)] assms(3) by auto
qed

section \<open>The holder of the queue mutex\<close>

definition lock_inv :: "cfg \<Rightarrow> pfind \<Rightarrow> bool" where
  "lock_inv cfg s \<longleftrightarrow> (queue_mutex s \<longrightarrow> (\<exists>t < threads_num cfg. crit (tpc s t)))"

lemma tstep_others:
  assumes "tstep cfg t s s'" "u \<noteq> t"
  shows "tpc s' u = tpc s u \<or> tpc s u = Asleep \<and> tpc s' u = At_lock"
  using assms by (cases rule: tstep.cases) auto

lemma tstep_crit:
  assumes "tstep cfg t s s'" "crit (tpc s t)"
  shows "mpc s' = M_crashed \<or> crit (tpc s' t) \<or> \<not> queue_mutex s'"
  using assms by (cases rule: tstep.cases) auto

lemma qstep_lock:
  assumes "qstep cfg t s s'" "t < threads_num cfg" "lock_inv cfg s"
  shows "lock_inv cfg s'"
proof -
  have st: "tstep cfg t s s'" "mpc s' \<noteq> M_crashed"
    and m: "queue_mutex s' \<Longrightarrow> queue_mutex s \<or> tpc s t = At_lock"
    using assms(1) by (auto simp: qstep_def)
  have "\<exists>u < threads_num cfg. crit (tpc s' u)" if q: "queue_mutex s'"
  proof (cases "crit (tpc s t)")
    case True
    then show ?thesis using tstep_crit [OF st(1)] st(2) q assms(2) by blast
  next
    case False
    show ?thesis
    proof (cases "tpc s t = At_lock")
      case True
      have "tpc s' t = Test" using st True by (cases rule: tstep.cases) auto
      then show ?thesis using assms(2) by auto
    next
      case False
      then obtain u where u: "u < threads_num cfg" "crit (tpc s u)" using m q assms(3) by (auto simp: lock_inv_def)
      then have "u \<noteq> t" "tpc s u \<noteq> Asleep" using \<open>\<not> crit (tpc s t)\<close> by auto
      then show ?thesis using tstep_others [OF st(1), of u] u by auto
    qed
  qed
  then show ?thesis by (simp add: lock_inv_def)
qed

section \<open>The start of the search\<close>

definition ready_inv :: "cfg \<Rightarrow> pfind \<Rightarrow> bool" where
  "ready_inv cfg s \<longleftrightarrow>
     (\<not> g_all_threads_ready s \<longrightarrow>
        (\<forall>t < threads_num cfg. tpc s t \<noteq> Failing \<and> tpc s t \<noteq> Failed) \<and>
        (length (thread_queue s) = threads_num cfg \<longrightarrow> 0 < threads_num cfg \<longrightarrow>
           (\<exists>t < threads_num cfg. tpc s t = Enqueued))) \<and>
     (mpc s = M_check2 True \<or> mpc s = M_finish \<or> over (mpc s) \<longrightarrow> 0 < threads_num cfg \<longrightarrow> g_all_threads_ready s)"

lemma tstep_ready_mono:
  "tstep cfg t s s' \<Longrightarrow> g_all_threads_ready s \<Longrightarrow> g_all_threads_ready s'"
  by (erule tstep.cases) auto

lemma qstep_ready:
  assumes q: "qstep cfg t s s'" and t: "t < threads_num cfg"
    and inv: "ready_inv cfg s" "start_inv cfg s"
  shows "ready_inv cfg s'"
proof (cases "g_all_threads_ready s'")
  case True
  then show ?thesis by (simp add: ready_inv_def)
next
  case False
  have st: "tstep cfg t s s'" "mpc s' \<noteq> M_crashed" "tpc s t = Wait_start \<longrightarrow> tpc s' t \<noteq> Failing"
    using q by (auto simp: qstep_def)
  have nr: "\<not> g_all_threads_ready s" using tstep_ready_mono [OF st(1)] False by blast
  then have nd: "\<not> in_dir (tpc s u)" if "u < threads_num cfg" for u using inv(2) that by (simp add: start_inv_def)
  have nf: "tpc s u \<noteq> Failing" "tpc s u \<noteq> Failed" if "u < threads_num cfg" for u
    using inv(1) nr that by (simp_all add: ready_inv_def)
  have t': "tpc s' t \<noteq> Failing \<and> tpc s' t \<noteq> Failed"
    using st(1) nd [OF t] nf [OF t] st(3) by (cases rule: tstep.cases) auto
  have "tpc s' u \<noteq> Failing \<and> tpc s' u \<noteq> Failed" if "u < threads_num cfg" for u
    using t' tstep_others [OF st(1), of u] nf [OF that] by (cases "u = t") auto
  moreover have "\<exists>u < threads_num cfg. tpc s' u = Enqueued"
    if l: "length (thread_queue s') = threads_num cfg" and n: "0 < threads_num cfg"
  proof (cases "tpc s' t = Enqueued")
    case e: False
    have "thread_queue s' = thread_queue s \<and> tpc s t \<noteq> Enqueued"
      using st(1) e False l nr nd [OF t] by (cases rule: tstep.cases) auto
    moreover then obtain u where "u < threads_num cfg" "tpc s u = Enqueued"
      using inv(1) nr n l by (auto simp: ready_inv_def)
    ultimately show ?thesis using tstep_others [OF st(1), of u] by fastforce
  qed (use t in blast)
  moreover have "\<not> (mpc s' = M_check2 True \<or> mpc s' = M_finish \<or> over (mpc s'))" if "0 < threads_num cfg"
    using tstep_mpc [OF st(1)] st(2) inv(1) nr that by (auto simp: ready_inv_def)
  ultimately show ?thesis by (auto simp: ready_inv_def)
qed

section \<open>What the main thread waits for\<close>

definition wait_inv :: "cfg \<Rightarrow> pfind \<Rightarrow> bool" where
  "wait_inv cfg s \<longleftrightarrow>
     (mpc s = M_wait \<or> mpc s = M_check2 False \<longrightarrow>
        \<not> (dir_queue s = [] \<and> length (thread_queue s) + g_failed_threads s = threads_num cfg)) \<and>
     (mpc s = M_wait \<longrightarrow> g_failed_threads s \<noteq> threads_num cfg)"

lemma tstep_counts:
  assumes "tstep cfg t s s'" "mpc s' = mpc s" "mpc s = M_wait \<or> finish_mutex s"
  shows "length (thread_queue s') \<le> length (thread_queue s)" "g_failed_threads s' = g_failed_threads s"
    "dir_queue s' = [] \<Longrightarrow> dir_queue s = [] \<or> tpc s t = Leave"
  using assms by (cases rule: tstep.cases; simp split: if_splits)+

lemma idle_bound:
  assumes "queue_inv cfg s" "failed_inv cfg s"
  shows "length (thread_queue s) + g_failed_threads s \<le> threads_num cfg"
  unfolding idle_count [OF assms] using card_mono [OF finite_lessThan queue_failures(2) [OF assms(1)]] by simp

lemma busy_less:
  assumes "queue_inv cfg s" "failed_inv cfg s" "t < threads_num cfg" "\<not> over (mpc s)"
    "\<not> resting (tpc s t)" "tpc s t \<noteq> Failed"
  shows "length (thread_queue s) + g_failed_threads s < threads_num cfg"
  by (rule idle_less [OF assms(1-3) _ assms(6)]) (use assms(1,4,5) in \<open>auto simp: queue_inv_def\<close>)

lemma qstep_wait:
  assumes q: "qstep cfg t s s'" and t: "t < threads_num cfg"
    and inv: "wait_inv cfg s" "queue_inv cfg s" "failed_inv cfg s" "phase_inv s"
  shows "wait_inv cfg s'"
proof -
  have st: "tstep cfg t s s'" "mpc s' \<noteq> M_crashed" using q by (auto simp: qstep_def)
  consider "mpc s' = mpc s" | "mpc s = M_wait" "mpc s' = M_lock_finish" using tstep_mpc [OF st(1)] st(2) by blast
  then show ?thesis
  proof cases
    case same: 1
    show ?thesis
    proof (cases "mpc s = M_wait \<or> mpc s = M_check2 False")
      case True
      then have "mpc s = M_wait \<or> finish_mutex s" using inv(4) by (auto simp: phase_inv_def)
      note c = tstep_counts [OF st(1) same this]
      have "\<not> (dir_queue s' = [] \<and> length (thread_queue s') + g_failed_threads s' = threads_num cfg)"
      proof
        assume a: "dir_queue s' = [] \<and> length (thread_queue s') + g_failed_threads s' = threads_num cfg"
        then have n: "length (thread_queue s) + g_failed_threads s = threads_num cfg"
          using c(1,2) idle_bound [OF inv(2,3)] by simp
        then have "tpc s t = Leave" using c(3) a inv(1) True by (auto simp: wait_inv_def)
        moreover have "\<not> over (mpc s)" using True by auto
        ultimately show False using busy_less [OF inv(2,3) t] n by simp
      qed
      then show ?thesis using inv(1) same c(2) by (simp add: wait_inv_def)
    qed (simp add: wait_inv_def same)
  qed (simp add: wait_inv_def)
qed

section \<open>Directories in the queue are taken\<close>

fun coming :: "tpc \<Rightarrow> bool" where
  "coming At_lock = True"
| "coming Test = True"
| "coming Leave = True"
| "coming _ = False"

definition sole :: "cfg \<Rightarrow> nat \<Rightarrow> pfind \<Rightarrow> bool" where
  "sole cfg u s \<longleftrightarrow> u < threads_num cfg \<and> coming (tpc s u) \<and> dir_to_handle s u = None \<and>
     length (dir_queue s) = 1 \<and> (\<forall>v < threads_num cfg. v \<noteq> u \<longrightarrow> tpc s v = Asleep)"

definition supply_inv :: "cfg \<Rightarrow> pfind \<Rightarrow> bool" where
  "supply_inv cfg s \<longleftrightarrow>
     (g_all_threads_ready s \<longrightarrow> g_is_search s \<longrightarrow>
        (dir_queue s = [] \<or> thread_queue s = [] \<or> (\<exists>u. sole cfg u s)) \<and>
        (\<forall>t < threads_num cfg. tpc s t = Want_finish \<longrightarrow> dir_queue s = []))"

lemma tstep_search: "tstep cfg t s s' \<Longrightarrow> g_is_search s' = g_is_search s"
  by (erule tstep.cases) simp_all

text \<open>The directory queue while some thread is between its test and the thread queue.\<close>

lemma tstep_want:
  assumes "tstep cfg t s s'" "mutex_inv cfg s" "t < threads_num cfg" "u < threads_num cfg" "u \<noteq> t"
    "tpc s u = Want_finish" "dir_queue s = []"
  shows "dir_queue s' = []"
proof -
  have m: "queue_mutex s" "\<not> crit (tpc s t)" using assms(2-6) by (auto simp: mutex_inv_def)
  show ?thesis using assms(1,7) m by (cases rule: tstep.cases) simp_all
qed

lemma tstep_ready_change:
  assumes "tstep cfg t s s'" "g_all_threads_ready s'" "\<not> g_all_threads_ready s"
  shows "tpc s t = Enqueued" "length (thread_queue s) = threads_num cfg" "thread_queue s' = butlast (thread_queue s)"
    "dir_queue s' = dir_queue s" "dir_to_handle s' = dir_to_handle s"
    "threads_num cfg \<noteq> 1 \<Longrightarrow> tpc s' = (\<lambda>u. if u = t then Asleep else if u = last (thread_queue s) \<and> tpc s u = Asleep then At_lock else tpc s u)"
    "threads_num cfg = 1 \<Longrightarrow> tpc s' = (tpc s)(t := Test)"
  using assms by (cases rule: tstep.cases; simp add: fun_eq_iff; fail)+

lemma want_inv:
  assumes st: "tstep cfg t s s'" and nc: "mpc s' \<noteq> M_crashed" and t: "t < threads_num cfg"
    and inv: "supply_inv cfg s" "mutex_inv cfg s"
    and a: "g_all_threads_ready s'" "g_is_search s'" "u < threads_num cfg" "tpc s' u = Want_finish"
  shows "dir_queue s' = []"
proof (cases "g_all_threads_ready s")
  case False
  have "crit (tpc s t)" using tstep_ready_change(1) [OF st a(1) False] by simp
  moreover have "tpc s u = Want_finish \<or> u = t" using tstep_others [OF st, of u] a(4) by auto
  ultimately have "u = t" using inv(2) t a(3) by (auto simp: mutex_inv_def)
  then show ?thesis
    using tstep_ready_change(6,7) [OF st a(1) False] a(4) by (cases "threads_num cfg = 1") auto
next
  case True
  show ?thesis
  proof (cases "u = t")
    case u: True
    have "g_is_search s" using tstep_search [OF st] a(2) by simp
    with st True a(4) u nc show ?thesis by (cases rule: tstep.cases) (auto simp: should_thread_sleep_def split: if_splits)
  next
    case False
    then have w: "tpc s u = Want_finish" using tstep_others [OF st, of u] a(4) by auto
    then have "dir_queue s = []" using inv(1) True tstep_search [OF st] a(2,3) by (simp add: supply_inv_def)
    then show ?thesis using tstep_want [OF st inv(2) t a(3) False w] by simp
  qed
qed

lemma sole_step:
  assumes st: "tstep cfg t s s'" "mpc s' \<noteq> M_crashed" and t: "t < threads_num cfg"
    and a: "sole cfg u s" "g_all_threads_ready s" "g_is_search s"
  shows "dir_queue s' = [] \<or> sole cfg u s'"
proof (cases "t = u")
  case True
  have u: "coming (tpc s t)" "dir_to_handle s t = None" "length (dir_queue s) = 1"
    "\<forall>v < threads_num cfg. v \<noteq> t \<longrightarrow> tpc s v = Asleep"
    using a(1) True by (simp_all add: sole_def)
  then have ne: "dir_queue s \<noteq> []" "butlast (dir_queue s) = []" by (auto simp: length_Suc_conv)
  show ?thesis
    using st(1) u ne t a(2,3) st(2) True
    by (cases rule: tstep.cases) (auto simp: sole_def should_thread_sleep_def)
next
  case False
  then have "tpc s t = Asleep" using a(1) t by (auto simp: sole_def)
  with st show ?thesis by (cases rule: tstep.cases) auto
qed

lemma sole_start:
  assumes st: "tstep cfg t s s'" and t: "t < threads_num cfg"
    and r: "g_all_threads_ready s'" "\<not> g_all_threads_ready s"
    and inv: "queue_inv cfg s" "mutex_inv cfg s" "start_inv cfg s" and over: "\<not> over (mpc s)"
    and n: "threads_num cfg \<noteq> 1"
  shows "sole cfg (last (thread_queue s)) s'"
proof -
  note c = tstep_ready_change [OF st r]
  obtain q where q: "thread_queue s = t # q" using inv(1) c(1) t by (auto simp: queue_inv_def)
  have "length (thread_queue s) \<noteq> 1" using c(2) n by simp
  then have qne: "q \<noteq> []" using q by auto
  have d: "distinct (t # q)" using inv(1) q by (simp add: queue_inv_def)
  have h: "last (thread_queue s) \<noteq> t" "last (thread_queue s) \<in> set (thread_queue s)"
    using q qne d last_in_set [OF qne] by auto
  have asl: "tpc s v = Asleep" if "v < threads_num cfg" "v \<noteq> t" for v
  proof -
    have "v \<in> set (thread_queue s)" using all_in_queue [OF inv(1) c(2)] that by simp
    then have "resting (tpc s v)" using inv(1) over by (auto simp: queue_inv_def)
    moreover have "tpc s v \<noteq> Enqueued" using inv(2) c(1) that t unfolding mutex_inv_def by (metis crit.simps(3))
    ultimately show ?thesis by (cases "tpc s v") auto
  qed
  have hn: "last (thread_queue s) < threads_num cfg" using h(2) inv(1) by (auto simp: queue_inv_def)
  have dh: "dir_to_handle s (last (thread_queue s)) = None" using h(2) inv(1) by (auto simp: queue_inv_def)
  have dq: "length (dir_queue s) = 1" using inv(3) r(2) by (simp add: start_inv_def)
  show ?thesis
    using h(1) asl hn dh dq by (auto simp: sole_def c(4,5) c(6) [OF n])
qed

lemma qstep_supply:
  assumes q: "qstep cfg t s s'" and t: "t < threads_num cfg"
    and inv: "supply_inv cfg s" "queue_inv cfg s" "mutex_inv cfg s" "start_inv cfg s" and over: "phase_inv s"
  shows "supply_inv cfg s'"
proof -
  have st: "tstep cfg t s s'" "mpc s' \<noteq> M_crashed" using q by (auto simp: qstep_def)
  have "dir_queue s' = [] \<or> thread_queue s' = [] \<or> (\<exists>u. sole cfg u s')"
    if a: "g_all_threads_ready s'" "g_is_search s'"
  proof (cases "g_all_threads_ready s")
    case False
    have nov: "\<not> over (mpc s)" using over_not_search [OF over] tstep_search [OF st(1)] a(2) by auto
    show ?thesis
    proof (cases "threads_num cfg = 1")
      case True
      then show ?thesis using tstep_ready_change(2,3) [OF st(1) a(1) False] by (auto simp: length_Suc_conv)
    next
      case n: False
      show ?thesis using sole_start [OF st(1) t a(1) False inv(2-4) nov n] by blast
    qed
  next
    case True
    have se: "g_is_search s" using tstep_search [OF st(1)] a(2) by simp
    then have old: "dir_queue s = [] \<or> thread_queue s = [] \<or> (\<exists>u. sole cfg u s)"
      and want: "tpc s t = Want_finish \<Longrightarrow> dir_queue s = []"
      using inv(1) True t by (auto simp: supply_inv_def)
    from old consider u where "sole cfg u s" | "dir_queue s = [] \<or> thread_queue s = []" by blast
    then show ?thesis
    proof cases
      case 1
      then show ?thesis using sole_step [OF st t 1 True se] by blast
    next
      case 2
      with st(1) want True show ?thesis by (cases rule: tstep.cases) auto
    qed
  qed
  then show ?thesis using want_inv [OF st t inv(1,3)] by (simp add: supply_inv_def)
qed

section \<open>The end of the search\<close>

definition end_inv :: "cfg \<Rightarrow> pfind \<Rightarrow> bool" where
  "end_inv cfg s \<longleftrightarrow>
     (mpc s = M_finish \<or> over (mpc s) \<longrightarrow>
        (\<forall>t < threads_num cfg. t \<in> set (thread_queue s) \<or> tpc s t = Failed)) \<and>
     (over (mpc s) \<longrightarrow> (\<forall>t < threads_num cfg. \<not> resting (tpc s t))) \<and>
     (\<not> over (mpc s) \<longrightarrow> (\<forall>t < threads_num cfg. tpc s t \<noteq> Exited))"

lemma tstep_end_queue:
  assumes "tstep cfg t s s'" "mpc s' \<noteq> M_crashed" "g_all_threads_ready s"
    "resting (tpc s t) \<or> departing (tpc s t)"
  shows "thread_queue s' = thread_queue s" "\<And>u. (tpc s' u = Failed) = (tpc s u = Failed)"
  using assms by (cases rule: tstep.cases; auto; fail)+

lemma qstep_end:
  assumes q: "qstep cfg t s s'" and t: "t < threads_num cfg"
    and inv: "end_inv cfg s" "queue_inv cfg s" "phase_inv s" "ready_inv cfg s"
    and start: "mpc s = M_start \<longrightarrow> (\<forall>t < threads_num cfg. tpc s t = Wait_start)" and nc: "mpc s \<noteq> M_crashed"
  shows "end_inv cfg s'"
proof -
  have st: "tstep cfg t s s'" "mpc s' \<noteq> M_crashed" using q by (auto simp: qstep_def)
  have m: "mpc s' = mpc s \<or> mpc s = M_wait \<and> mpc s' = M_lock_finish" using tstep_mpc [OF st(1)] st(2) by blast
  have nf: "tpc s t \<noteq> Failed" using st by (cases rule: tstep.cases) auto
  have idle: "resting (tpc s t) \<or> over (mpc s) \<and> departing (tpc s t)" if "mpc s = M_finish \<or> over (mpc s)"
    using inv(1,2) that t nf by (auto simp: end_inv_def queue_inv_def)
  have "u \<in> set (thread_queue s') \<or> tpc s' u = Failed" if a: "mpc s' = M_finish \<or> over (mpc s')" and u: "u < threads_num cfg" for u
  proof -
    have a': "mpc s = M_finish \<or> over (mpc s)" using a m by auto
    have "g_all_threads_ready s" using inv(4) a' t by (auto simp: ready_inv_def)
    then show ?thesis
      using tstep_end_queue [OF st] idle [OF a'] inv(1) a' u by (auto simp: end_inv_def)
  qed
  moreover have "\<not> resting (tpc s' u)" if a: "over (mpc s')" and u: "u < threads_num cfg" for u
  proof -
    have ov: "over (mpc s)" using a m by auto
    have nr: "\<not> resting (tpc s v)" if "v < threads_num cfg" for v using inv(1) ov that by (simp add: end_inv_def)
    have "departing (tpc s t)" using idle ov nr [OF t] by blast
    moreover have "\<not> g_is_search s" using over_not_search [OF inv(3) ov] .
    ultimately have "\<not> resting (tpc s' t)"
      using st by - (erule tstep.cases; simp add: should_thread_sleep_def)
    then show ?thesis using tstep_others [OF st(1), of u] nr [OF u] by (cases "u = t") auto
  qed
  moreover have "tpc s' u \<noteq> Exited" if a: "\<not> over (mpc s')" and u: "u < threads_num cfg" for u
  proof
    assume e: "tpc s' u = Exited"
    have nov: "\<not> over (mpc s)" using a m by auto
    then have "tpc s u \<noteq> Exited" using inv(1) u by (simp add: end_inv_def)
    then have "u = t" using tstep_others [OF st(1), of u] e by auto
    then have l: "tpc s t = Leave" "\<not> g_is_search s"
      using st e \<open>tpc s u \<noteq> Exited\<close> by - (erule tstep.cases; simp)+
    then have "mpc s = M_finish" using inv(3) nov start t nc by (cases "mpc s") (auto simp: phase_inv_def)
    then show False using idle l by simp
  qed
  ultimately show ?thesis by (simp add: end_inv_def)
qed

section \<open>Steps of the main thread\<close>

definition live_inv :: "cfg \<Rightarrow> pfind \<Rightarrow> bool" where
  "live_inv cfg s \<longleftrightarrow> mpc s = M_crashed \<or>
     (failed_inv cfg s \<and> lock_inv cfg s \<and> ready_inv cfg s \<and> wait_inv cfg s \<and> supply_inv cfg s \<and> end_inv cfg s)"

lemma main_frame:
  assumes "failed_inv cfg s" "lock_inv cfg s"
    "tpc s' = tpc s" "g_failed_threads s' = g_failed_threads s" "queue_mutex s' = queue_mutex s"
  shows "failed_inv cfg s'" "lock_inv cfg s'"
  using assms by (simp_all add: failed_inv_def failures_def lock_inv_def)

lemma main_step_wait:
  assumes "main_step cfg s = Some s'" "mpc s' = M_wait" "wait_inv cfg s"
  shows "wait_inv cfg s'"
proof -
  obtain b where b: "mpc s = M_check2 b" "s' = s\<lparr>finish_mutex := False, mpc := M_wait\<rparr>"
    using assms(2) by (cases rule: main_step_cases [OF assms(1)]) auto
  have "\<not> (b \<and> length (thread_queue s) + g_failed_threads s = threads_num cfg)"
    "g_failed_threads s \<noteq> threads_num cfg"
    using assms(1,2) b(1) by (auto simp: main_step_def split: if_splits)
  then show ?thesis using assms(3) b by (cases b) (auto simp: wait_inv_def)
qed

lemma main_step_live:
  assumes st: "main_step cfg s = Some s'" and nc: "mpc s \<noteq> M_crashed"
    and pf: "pf_inv cfg s" and lv: "live_inv cfg s"
  shows "live_inv cfg s'"
proof -
  have inv: "failed_inv cfg s" "lock_inv cfg s" "ready_inv cfg s" "wait_inv cfg s" "supply_inv cfg s" "end_inv cfg s"
    using lv nc by (simp_all add: live_inv_def)
  have pfs: "mutex_inv cfg s" "queue_inv cfg s" "start_inv cfg s"
    "mpc s = M_start \<Longrightarrow> \<forall>t < threads_num cfg. tpc s t = Wait_start"
    using pf nc by (simp_all add: pf_inv_def)
  note defs = ready_inv_def wait_inv_def supply_inv_def end_inv_def sole_def
  show ?thesis
  proof (cases rule: main_step_cases [OF st])
    case 1
    have "t \<notin> set (thread_queue s)" for t
      using pfs(2,4) 1(1) by (force simp: queue_inv_def)
    then have "thread_queue s = []" by (metis list.set_intros(1) neq_Nil_conv)
    moreover have "failed_inv cfg s'" "lock_inv cfg s'" by (rule main_frame [OF inv(1,2)]; simp add: 1)+
    ultimately show ?thesis using 1 inv(3,6) pfs(4) by (auto simp: live_inv_def defs)
  next
    case 2
    have "failed_inv cfg s'" "lock_inv cfg s'" by (rule main_frame [OF inv(1,2)]; simp add: 2)+
    then show ?thesis using 2 inv(3-6) by (simp add: live_inv_def defs)
  next
    case 3
    have "failed_inv cfg s'" "lock_inv cfg s'" by (rule main_frame [OF inv(1,2)]; simp add: 3)+
    moreover have "g_all_threads_ready s" if "dir_queue s = []" using pfs(3) that by (auto simp: start_inv_def)
    then have "ready_inv cfg s'" using inv(3) by (simp add: ready_inv_def 3)
    moreover have "wait_inv cfg s'" by (simp add: wait_inv_def 3)
    moreover have "supply_inv cfg s'" using inv(5) by (simp add: supply_inv_def sole_def 3)
    moreover have "end_inv cfg s'" using inv(6) by (simp add: end_inv_def 3)
    ultimately show ?thesis by (simp add: live_inv_def)
  next
    case (4 b)
    have "failed_inv cfg s'" "lock_inv cfg s'" by (rule main_frame [OF inv(1,2)]; simp add: 4)+
    moreover have "wait_inv cfg s'" using main_step_wait [OF st _ inv(4)] 4 by simp
    ultimately show ?thesis using 4 inv(3,5,6) by (simp add: live_inv_def ready_inv_def supply_inv_def end_inv_def sole_def)
  next
    case (5 b)
    have "failed_inv cfg s'" "lock_inv cfg s'" by (rule main_frame [OF inv(1,2)]; simp add: 5)+
    moreover have "t \<in> set (thread_queue s) \<or> tpc s t = Failed" if "t < threads_num cfg" for t
      using idle_all [OF pfs(2) inv(1) _ that] 5(3) by blast
    moreover have "g_all_threads_ready s" if n: "0 < threads_num cfg"
    proof (rule ccontr)
      assume nr: "\<not> g_all_threads_ready s"
      then have "failures cfg s = {}" using inv(3) by (auto simp: ready_inv_def failures_def)
      then have "g_failed_threads s = 0" using inv(1) by (simp add: failed_inv_def)
      then show False using 5 nr n inv(3) by (auto simp: ready_inv_def)
    qed
    ultimately show ?thesis using 5 inv(3,6) by (simp add: live_inv_def defs)
  next
    case 6
    have s': "s' = s\<lparr>tpc := (\<lambda>t. if t < threads_num cfg \<and> tpc s t = Asleep then At_lock else tpc s t),
        finish_mutex := False, mpc := M_join\<rparr>"
      using 6 by (simp add: fold_signal)
    have "failures cfg s' = failures cfg s" by (auto simp: failures_def s')
    then have "failed_inv cfg s'" using inv(1) by (simp add: failed_inv_def s')
    moreover have "lock_inv cfg s'" using 6(2) by (simp add: lock_inv_def s')
    moreover have "\<not> resting (tpc s' t)" if "t < threads_num cfg" for t
    proof -
      have "\<not> crit (tpc s t)" using pfs(1) 6(2) that by (auto simp: mutex_inv_def)
      then show ?thesis by (cases "tpc s t") (simp_all add: s' that)
    qed
    moreover have "ready_inv cfg s'" using inv(3) 6(1) by (auto simp: ready_inv_def s')
    moreover have "supply_inv cfg s'" using pf 6(1) by (simp add: supply_inv_def s' pf_inv_def phase_inv_def)
    moreover have "t \<in> set (thread_queue s') \<or> tpc s' t = Failed" if "t < threads_num cfg" for t
      using inv(6) 6(1) that by (auto simp: end_inv_def s')
    ultimately show ?thesis by (simp add: live_inv_def wait_inv_def end_inv_def) (simp add: s')
  next
    case 7
    have "failed_inv cfg s'" "lock_inv cfg s'" by (rule main_frame [OF inv(1,2)]; simp add: 7)+
    then show ?thesis using 7 inv(3-6) by (simp add: live_inv_def defs)
  qed
qed

section \<open>Every quiet run\<close>

inductive pf_quiet :: "cfg \<Rightarrow> pfind \<Rightarrow> bool" for cfg where
  start: "pf_quiet cfg (pfind_init cfg)"
| step: "pf_quiet cfg s \<Longrightarrow> quiet ev \<Longrightarrow> pf_event cfg ev s = Some s' \<Longrightarrow> pf_quiet cfg s'"

lemma quiet_reach: "pf_quiet cfg s \<Longrightarrow> pf_reach cfg s"
  by (induction rule: pf_quiet.induct) (auto simp: quiet_def intro: pf_reach.intros)

lemma live_inv_init: "live_inv cfg (pfind_init cfg)"
  by (simp add: live_inv_def failed_inv_def failures_def lock_inv_def ready_inv_def wait_inv_def supply_inv_def
      end_inv_def pfind_init_def)

lemma qstep_live:
  assumes q: "qstep cfg t s s'" and t: "t < threads_num cfg" and pf: "pf_inv cfg s" and nc: "mpc s \<noteq> M_crashed"
    and lv: "live_inv cfg s"
  shows "live_inv cfg s'"
proof -
  have pfs: "mutex_inv cfg s" "phase_inv s" "queue_inv cfg s" "start_inv cfg s"
    "mpc s = M_start \<longrightarrow> (\<forall>t < threads_num cfg. tpc s t = Wait_start)"
    using pf nc by (simp_all add: pf_inv_def)
  have inv: "failed_inv cfg s" "lock_inv cfg s" "ready_inv cfg s" "wait_inv cfg s" "supply_inv cfg s" "end_inv cfg s"
    using lv nc by (simp_all add: live_inv_def)
  have "tstep cfg t s s'" using q by (simp add: qstep_def)
  then show ?thesis
    using tstep_failed [OF _ t inv(1)] qstep_lock [OF q t inv(2)] qstep_ready [OF q t inv(3) pfs(4)]
      qstep_wait [OF q t inv(4) pfs(3) inv(1) pfs(2)] qstep_supply [OF q t inv(5) pfs(3,1,4,2)]
      qstep_end [OF q t inv(6) pfs(3,2) inv(3) pfs(5) nc]
    by (simp add: live_inv_def)
qed

lemma pf_event_live:
  assumes ev: "pf_event cfg ev s = Some s'" and q: "quiet ev" and pf: "pf_inv cfg s" and lv: "live_inv cfg s"
  shows "live_inv cfg s'"
proof -
  have nc: "mpc s \<noteq> M_crashed" using ev by (auto simp: pf_event_def alive_def)
  show ?thesis
  proof (cases "mpc s' = M_crashed")
    case False
    show ?thesis
    proof (cases ev)
      case (T t)
      then have "t < threads_num cfg" "qstep cfg t s s'"
        using ev thread_step_qstep [OF _ False] by (simp_all add: pf_event_def split: if_splits)
      then show ?thesis using qstep_live pf nc lv by blast
    next
      case Main
      then have "main_step cfg s = Some s'" using ev by (simp add: pf_event_def split: if_splits)
      then show ?thesis using main_step_live nc pf lv by blast
    next
      case Spurious_main
      then have s': "mpc s = M_wait" "s' = s\<lparr>mpc := M_lock_finish\<rparr>"
        using ev by (auto simp: pf_event_def split: if_splits)
      have inv: "failed_inv cfg s" "lock_inv cfg s" "ready_inv cfg s" "supply_inv cfg s" "end_inv cfg s"
        using lv nc by (simp_all add: live_inv_def)
      have "failed_inv cfg s'" "lock_inv cfg s'" by (rule main_frame [OF inv(1,2)]; simp add: s')+
      moreover have "ready_inv cfg s'" using inv(3) by (simp add: ready_inv_def s')
      moreover have "wait_inv cfg s'" by (simp add: wait_inv_def s')
      moreover have "supply_inv cfg s'" using inv(4) by (simp add: supply_inv_def sole_def s')
      moreover have "end_inv cfg s'" using inv(5) s'(1) by (simp add: end_inv_def s'(2))
      ultimately show ?thesis by (simp add: live_inv_def)
    qed (use q in \<open>auto simp: quiet_def\<close>)
  qed (simp add: live_inv_def)
qed

lemma pf_quiet_live: "pf_quiet cfg s \<Longrightarrow> live_inv cfg s"
  by (induction rule: pf_quiet.induct) (auto intro: live_inv_init pf_event_live pf_reach_inv quiet_reach)

section \<open>Nothing blocks for ever\<close>

text \<open>Where a thread can be that has no next step while the finish mutex is free.\<close>

fun parked :: "bool \<Rightarrow> bool \<Rightarrow> tpc \<Rightarrow> bool" where
  "parked search mutex Wait_start = (\<not> search)"
| "parked search mutex At_lock = mutex"
| "parked search mutex Asleep = True"
| "parked search mutex (Searching p ds) = mutex"
| "parked search mutex Failed = True"
| "parked search mutex Exited = True"
| "parked search mutex _ = False"

lemma thread_step_parked:
  assumes "thread_step cfg t s = None" "\<not> finish_mutex s"
  shows "parked (g_is_search s) (queue_mutex s) (tpc s t)"
proof (cases "tpc s t")
  case (Searching p ds)
  then show ?thesis
    using assms by (cases ds) (auto simp: thread_step_defs handle_entry_def Let_def split: if_splits option.splits)
qed (use assms in \<open>auto simp: thread_step_defs Let_def split: if_splits option.splits\<close>)

lemma crit_not_parked: "crit x \<Longrightarrow> \<not> parked search mutex x"
  by (cases x) auto

lemma mutex_free:
  assumes "\<forall>t < threads_num cfg. thread_step cfg t s = None" "\<not> finish_mutex s" "lock_inv cfg s"
  shows "\<not> queue_mutex s"
  using assms thread_step_parked crit_not_parked unfolding lock_inv_def by blast

lemma not_stuck_waiting:
  assumes "mpc s = M_wait" "\<forall>t < threads_num cfg. thread_step cfg t s = None"
    and pfs: "phase_inv s" "queue_inv cfg s"
    and inv: "failed_inv cfg s" "lock_inv cfg s" "ready_inv cfg s" "wait_inv cfg s" "supply_inv cfg s" "end_inv cfg s"
  shows False
proof -
  have fm: "\<not> finish_mutex s" and se: "g_is_search s" using pfs(1) assms(1) by (simp_all add: phase_inv_def)
  have free: "\<not> queue_mutex s" by (rule mutex_free [OF assms(2) fm inv(2)])
  have idle: "tpc s t = Asleep \<or> tpc s t = Failed" if "t < threads_num cfg" for t
  proof -
    have "parked True False (tpc s t)" using thread_step_parked [of cfg t s] assms(2) that fm se free by simp
    moreover have "tpc s t \<noteq> Exited" using inv(6) assms(1) that by (simp add: end_inv_def)
    ultimately show ?thesis by (cases "tpc s t") auto
  qed
  have "t \<in> set (thread_queue s) \<union> failures cfg s" if "t < threads_num cfg" for t
    using idle [OF that] that pfs(2) by (auto simp: queue_inv_def failures_def)
  then have "set (thread_queue s) \<union> failures cfg s = {..<threads_num cfg}"
    using queue_failures(2) [OF pfs(2)] by auto
  then have n: "length (thread_queue s) + g_failed_threads s = threads_num cfg"
    using idle_count [OF pfs(2) inv(1)] by simp
  then have dirs: "dir_queue s \<noteq> []" and some: "g_failed_threads s \<noteq> threads_num cfg"
    using inv(4) assms(1) by (auto simp: wait_inv_def)
  have "g_all_threads_ready s"
  proof (rule ccontr)
    assume nr: "\<not> g_all_threads_ready s"
    then have "failures cfg s = {}" using inv(3) by (auto simp: ready_inv_def failures_def)
    then have "g_failed_threads s = 0" using inv(1) by (simp add: failed_inv_def)
    then obtain t where "t < threads_num cfg" "tpc s t = Enqueued" using inv(3) nr n some by (auto simp: ready_inv_def)
    then show False using idle [of t] by simp
  qed
  then have "thread_queue s = [] \<or> (\<exists>u. sole cfg u s)" using inv(5) se dirs by (simp add: supply_inv_def)
  then show False
  proof
    assume "thread_queue s = []"
    then show False using n some by simp
  next
    assume "\<exists>u. sole cfg u s"
    then obtain u where "u < threads_num cfg" "coming (tpc s u)" by (auto simp: sole_def)
    then show False using idle [of u] by auto
  qed
qed

lemma not_stuck_joining:
  assumes "mpc s = M_join" "main_step cfg s = None" "\<forall>t < threads_num cfg. thread_step cfg t s = None"
    and pfs: "phase_inv s" "queue_inv cfg s" and inv: "lock_inv cfg s" "end_inv cfg s"
  shows False
proof -
  have fm: "\<not> finish_mutex s" and ns: "\<not> g_is_search s" using pfs(1) assms(1) by (simp_all add: phase_inv_def)
  have free: "\<not> queue_mutex s" by (rule mutex_free [OF assms(3) fm inv(1)])
  obtain t where t: "t < threads_num cfg" "tpc s t \<noteq> Exited" "tpc s t \<noteq> Failed"
    using assms(1,2) by (auto simp: main_step_def list_all_iff split: if_splits)
  have "t \<in> set (thread_queue s)" "\<not> resting (tpc s t)" using inv(2) assms(1) t by (auto simp: end_inv_def)
  then have "departing (tpc s t)" using pfs(2) by (auto simp: queue_inv_def)
  moreover have "parked False False (tpc s t)"
    using thread_step_parked [of cfg t s] assms(3) t(1) fm ns free by simp
  ultimately show False using t(2) by (cases "tpc s t") auto
qed

lemma not_stuck_finishing:
  assumes "mpc s = M_finish" "main_step cfg s = None" "\<forall>t < threads_num cfg. thread_step cfg t s = None"
    and pfs: "queue_inv cfg s" and inv: "lock_inv cfg s" "end_inv cfg s"
  shows False
proof -
  have "queue_mutex s" using assms(1,2) by (simp add: main_step_def split: if_splits)
  then obtain t where t: "t < threads_num cfg" "crit (tpc s t)" using inv(1) unfolding lock_inv_def by blast
  have "tpc s t \<noteq> Failed" using t(2) by auto
  then have "t \<in> set (thread_queue s)" using inv(2) assms(1) t(1) by (auto simp: end_inv_def)
  then have "resting (tpc s t)" using pfs assms(1) unfolding queue_inv_def by fastforce
  then have "tpc s t = Enqueued" using t(2) by (cases "tpc s t") simp_all
  then have "thread_step cfg t s \<noteq> None" by (simp add: thread_step_defs Let_def)
  then show False using spec [OF assms(3), of t] t(1) by simp
qed

lemma quiet_not_stuck:
  assumes "pf_quiet cfg s"
  shows "\<not> stuck cfg s"
proof
  assume "stuck cfg s"
  then have st: "alive s" "main_step cfg s = None" "\<forall>t < threads_num cfg. thread_step cfg t s = None"
    by (simp_all add: stuck_def list_all_iff)
  have nc: "mpc s \<noteq> M_crashed" using st(1) by (auto simp: alive_def)
  have pfs: "phase_inv s" "queue_inv cfg s"
    using pf_reach_inv [OF quiet_reach [OF assms]] nc by (simp_all add: pf_inv_def)
  have inv: "failed_inv cfg s" "lock_inv cfg s" "ready_inv cfg s" "wait_inv cfg s" "supply_inv cfg s" "end_inv cfg s"
    using pf_quiet_live [OF assms] nc by (simp_all add: live_inv_def)
  show False
  proof (cases "mpc s")
    case M_lock_finish
    then show False using st(2) pfs(1) by (simp add: main_step_def phase_inv_def)
  next
    case M_wait
    then show False using not_stuck_waiting st(3) pfs inv by blast
  next
    case M_finish
    then show False using not_stuck_finishing st(2,3) pfs(2) inv(2,6) by blast
  next
    case M_join
    then show False using not_stuck_joining st(2,3) pfs inv(2,6) by blast
  qed (use st(1,2) in \<open>auto simp: main_step_def alive_def split: if_splits\<close>)
qed

end
