(* ===== verification/Pfind_Term.thy ===== *)
theory Pfind_Term
  imports Pfind_Live
begin

text \<open>
  The search ends: a measure that every step decreases.  Every directory has a weight that pays
  for opening it, for its entries and for waking the threads they are handed to; every thread and
  the main thread have a rank for the way they still have to go before they wait or need a
  directory.  Directories nest only as deep as \<open>PATH_MAX\<close> allows, so no assumption on the file
  system is needed.
\<close>

section \<open>The measure\<close>

function wt :: "cfg \<Rightarrow> string \<Rightarrow> nat" where
  "wt cfg p =
     6 + (\<Sum>d\<leftarrow>(case listing cfg p of None \<Rightarrow> [] | Some ds \<Rightarrow> ds).
       1 + (if subdir cfg (p, d) \<and> length (new_pathname p d) < PATH_MAX then 9 + wt cfg (new_pathname p d) else 0))"
  by pat_completeness auto
termination
  by (relation "measure (\<lambda>(cfg, p). PATH_MAX - length p)") (auto simp: new_pathname_def)

declare wt.simps [simp del]

definition entry_cost :: "cfg \<Rightarrow> string \<Rightarrow> string \<Rightarrow> nat" where
  "entry_cost cfg p d =
     1 + (if subdir cfg (p, d) \<and> length (new_pathname p d) < PATH_MAX then 9 + wt cfg (new_pathname p d) else 0)"

lemma wt_listing: "listing cfg p = Some ds \<Longrightarrow> wt cfg p = 6 + sum_list (map (entry_cost cfg p) ds)"
  by (subst wt.simps) (simp add: entry_cost_def [abs_def])

fun trank :: "tpc \<Rightarrow> nat" where
  "trank Wait_start = 11"
| "trank At_lock = 10"
| "trank Test = 9"
| "trank Want_finish = 7"
| "trank Enqueued = 2"
| "trank Asleep = 1"
| "trank Leave = 8"
| "trank (Opening p) = 6"
| "trank (Searching p ds) = 11"
| "trank Failing = 5"
| "trank Failed = 0"
| "trank Exited = 0"

fun pot :: "cfg \<Rightarrow> tpc \<Rightarrow> string option \<Rightarrow> nat" where
  "pot cfg (Opening p) d = wt cfg p"
| "pot cfg (Searching p ds) d = sum_list (map (entry_cost cfg p) ds)"
| "pot cfg Failing d = 0"
| "pot cfg Failed d = 0"
| "pot cfg Exited d = 0"
| "pot cfg _ d = (case d of None \<Rightarrow> 0 | Some p \<Rightarrow> wt cfg p)"

fun mrank :: "nat \<Rightarrow> mpc \<Rightarrow> nat" where
  "mrank n M_start = 9 * n + 7"
| "mrank n M_lock_finish = 9 * n + 6"
| "mrank n M_check = 9 * n + 5"
| "mrank n (M_check2 b) = 9 * n + 4"
| "mrank n M_wait = 9 * n + 3"
| "mrank n M_finish = 9 * n + 2"
| "mrank n M_join = 1"
| "mrank n (M_done c) = 0"
| "mrank n M_crashed = 0"

definition tmeas :: "cfg \<Rightarrow> pfind \<Rightarrow> nat \<Rightarrow> nat" where
  "tmeas cfg s t = trank (tpc s t) + pot cfg (tpc s t) (dir_to_handle s t)"

definition meas :: "cfg \<Rightarrow> pfind \<Rightarrow> nat" where
  "meas cfg s = (\<Sum>t<threads_num cfg. tmeas cfg s t) + sum_list (map (wt cfg) (dir_queue s)) +
     (if g_all_threads_ready s then 0 else 10) + mrank (threads_num cfg) (mpc s)"

section \<open>Effects of the small operations\<close>

lemma sum_one:
  fixes f g :: "nat \<Rightarrow> nat"
  assumes "t < n" "\<And>u. u \<noteq> t \<Longrightarrow> g u = f u"
  shows "(\<Sum>u<n. g u) + f t = (\<Sum>u<n. f u) + g t"
proof -
  have "(\<Sum>u\<in>{..<n} - {t}. g u) = (\<Sum>u\<in>{..<n} - {t}. f u)" by (rule sum.cong) (use assms(2) in auto)
  then show ?thesis using assms(1) by (simp add: sum.remove [of "{..<n}" t])
qed

lemma meas_goto:
  assumes "t < threads_num cfg"
  shows "meas cfg (goto t p s) + tmeas cfg s t = meas cfg s + trank p + pot cfg p (dir_to_handle s t)"
proof -
  have "(\<Sum>u<threads_num cfg. tmeas cfg (goto t p s) u) + tmeas cfg s t =
      (\<Sum>u<threads_num cfg. tmeas cfg s u) + tmeas cfg (goto t p s) t"
    by (rule sum_one [OF assms]) (simp add: tmeas_def)
  then show ?thesis by (simp add: meas_def) (simp add: tmeas_def)
qed

lemma meas_signal_thread: "meas cfg (signal_thread h s) \<le> meas cfg s + 9"
proof (cases "h < threads_num cfg \<and> tpc s h = Asleep")
  case True
  then show ?thesis using meas_goto [of h cfg At_lock s] by (simp add: signal_thread_def tmeas_def)
next
  case False
  then have "(\<Sum>u<threads_num cfg. tmeas cfg (signal_thread h s) u) = (\<Sum>u<threads_num cfg. tmeas cfg s u)"
    by (intro sum.cong) (auto simp: tmeas_def)
  then show ?thesis by (simp add: meas_def)
qed

lemma meas_signal_finish: "meas cfg (signal_finish s) \<le> meas cfg s + 3"
  by (simp add: meas_def signal_finish_def tmeas_def)

lemma pot_le: "pot cfg x d \<le> pot cfg x None + (case d of None \<Rightarrow> 0 | Some p \<Rightarrow> wt cfg p)"
  by (cases x) (auto split: option.split)

lemma pot_None: "pot cfg x None \<le> pot cfg x d"
  by (cases x) auto

lemma meas_dir:
  assumes "dir_to_handle s' = (dir_to_handle s)(h := d)" "tpc s' = tpc s" "dir_queue s' = dir_queue s"
    "g_all_threads_ready s' = g_all_threads_ready s" "mpc s' = mpc s"
  shows "meas cfg s' \<le> meas cfg s + (case d of None \<Rightarrow> 0 | Some p \<Rightarrow> wt cfg p)"
proof (cases "h < threads_num cfg")
  case True
  have "(\<Sum>u<threads_num cfg. tmeas cfg s' u) + tmeas cfg s h = (\<Sum>u<threads_num cfg. tmeas cfg s u) + tmeas cfg s' h"
    by (rule sum_one [OF True]) (simp add: tmeas_def assms)
  moreover have "tmeas cfg s' h \<le> tmeas cfg s h + (case d of None \<Rightarrow> 0 | Some p \<Rightarrow> wt cfg p)"
    using pot_le [of cfg "tpc s h" d] pot_None [of cfg "tpc s h" "dir_to_handle s h"] by (simp add: tmeas_def assms)
  ultimately show ?thesis by (simp add: meas_def assms)
next
  case False
  then have "(\<Sum>u<threads_num cfg. tmeas cfg s' u) = (\<Sum>u<threads_num cfg. tmeas cfg s u)"
    by (intro sum.cong) (auto simp: tmeas_def assms)
  then show ?thesis by (simp add: meas_def assms)
qed

lemma meas_same:
  assumes "tpc s' = tpc s" "dir_to_handle s' = dir_to_handle s"
  shows "meas cfg s' + sum_list (map (wt cfg) (dir_queue s)) + (if g_all_threads_ready s then 0 else 10) +
      mrank (threads_num cfg) (mpc s) =
    meas cfg s + sum_list (map (wt cfg) (dir_queue s')) + (if g_all_threads_ready s' then 0 else 10) +
      mrank (threads_num cfg) (mpc s')"
proof -
  have "(\<Sum>u<threads_num cfg. tmeas cfg s' u) = (\<Sum>u<threads_num cfg. tmeas cfg s u)"
    by (simp add: tmeas_def assms)
  then show ?thesis by (simp add: meas_def)
qed

lemma mrank_pos: "mrank n (mpc s) = 0 \<Longrightarrow> \<not> alive s"
  by (cases "mpc s") (auto simp: alive_def)

section \<open>Every step decreases the measure\<close>

text \<open>A step that moves one thread and touches nothing else that is measured.\<close>

lemma meas_move:
  assumes "t < threads_num cfg" "trank p + pot cfg p (dir_to_handle s t) < tmeas cfg s t"
    "tpc s' = (tpc s)(t := p)" "dir_to_handle s' = dir_to_handle s" "dir_queue s' = dir_queue s"
    "g_all_threads_ready s' = g_all_threads_ready s" "mpc s' = mpc s"
  shows "meas cfg s' < meas cfg s"
proof -
  have "meas cfg s' = meas cfg (goto t p s)" by (simp add: meas_def tmeas_def assms)
  then show ?thesis using meas_goto [OF assms(1), of p s] assms(2) by simp
qed

lemma meas_entry:
  assumes "t < threads_num cfg" "tpc s1 t = Searching p (d # ds)" "meas cfg s1 < meas cfg s + entry_cost cfg p d"
  shows "meas cfg (entry_done t p d ds s1) < meas cfg s"
proof -
  have "meas cfg (entry_done t p d ds s1) = meas cfg (goto t (Searching p ds) s1)" by (simp add: meas_def tmeas_def)
  then show ?thesis using meas_goto [OF assms(1), of "Searching p ds" s1] assms(2,3) by (simp add: tmeas_def)
qed

lemma tstep_meas:
  assumes st: "tstep cfg t s s'" and t: "t < threads_num cfg" and al: "alive s"
  shows "meas cfg s' < meas cfg s"
  using st
proof (cases rule: tstep.cases)
  case started
  then show ?thesis by (intro meas_move [OF t]) (simp_all add: tmeas_def)
next
  case lock
  then show ?thesis by (intro meas_move [OF t]) (simp_all add: tmeas_def)
next
  case to_sleep
  then show ?thesis by (intro meas_move [OF t]) (simp_all add: tmeas_def)
next
  case to_leave
  then show ?thesis by (intro meas_move [OF t]) (simp_all add: tmeas_def)
next
  case enqueue
  let ?s1 = "s\<lparr>thread_queue := t # thread_queue s, dir_to_handle := (dir_to_handle s)(t := None)\<rparr>"
  have "meas cfg ?s1 \<le> meas cfg s" using meas_dir [of ?s1 s t None cfg] by simp
  then have "meas cfg (signal_finish ?s1) \<le> meas cfg s + 3" using meas_signal_finish [of cfg ?s1] by simp
  then show ?thesis
    using meas_goto [OF t, of Enqueued "signal_finish ?s1"] enqueue by (simp add: tmeas_def)
next
  case already
  then show ?thesis
    using meas_goto [OF t, of Enqueued "signal_finish s"] meas_signal_finish [of cfg s] by (simp add: tmeas_def)
next
  case all_ready
  let ?s1 = "s\<lparr>g_all_threads_ready := True, thread_queue := butlast (thread_queue s)\<rparr>"
  let ?s2 = "signal_thread (last (thread_queue s)) ?s1"
  have "meas cfg ?s1 + 10 = meas cfg s" using meas_same [of ?s1 s cfg] all_ready(3) by simp
  then have s2: "meas cfg ?s2 < meas cfg s" using meas_signal_thread [of cfg "last (thread_queue s)" ?s1] by simp
  have "meas cfg s' = meas cfg (goto t Asleep ?s2)" unfolding all_ready(1) by (simp add: meas_def tmeas_def)
  moreover have "tpc ?s2 t = Enqueued" using all_ready(2) by auto
  then have "tmeas cfg ?s2 t = 2 + pot cfg Asleep (dir_to_handle ?s2 t)" by (simp only: tmeas_def) simp
  ultimately show ?thesis
    using meas_goto [OF t, of Asleep ?s2] s2 trank.simps(6) by linarith
next
  case one_ready
  let ?s1 = "s\<lparr>g_all_threads_ready := True, thread_queue := butlast (thread_queue s)\<rparr>"
  have "meas cfg ?s1 + 10 = meas cfg s" using meas_same [of ?s1 s cfg] one_ready(3) by simp
  then show ?thesis
    using meas_goto [OF t, of Test ?s1] one_ready(1,2) by (simp add: tmeas_def)
next
  case sleep
  then show ?thesis by (intro meas_move [OF t]) (simp_all add: tmeas_def)
next
  case leave
  then show ?thesis by (intro meas_move [OF t]) (simp_all add: tmeas_def)
next
  case (own_dir d)
  then show ?thesis by (intro meas_move [OF t]) (simp_all add: tmeas_def)
next
  case take_dir
  let ?s1 = "s\<lparr>dir_queue := butlast (dir_queue s)\<rparr>" and ?p = "last (dir_queue s)"
  obtain q x where q: "dir_queue s = q @ [x]" using take_dir(5) by (cases "dir_queue s" rule: rev_cases) auto
  have "meas cfg ?s1 + wt cfg ?p = meas cfg s" using meas_same [of ?s1 s cfg] q by simp
  moreover have "meas cfg s' = meas cfg (goto t (Opening ?p) ?s1)" unfolding take_dir(1) by (simp add: meas_def tmeas_def)
  ultimately show ?thesis
    using meas_goto [OF t, of "Opening ?p" ?s1] take_dir(2,4) by (simp add: tmeas_def)
next
  case (open_dir p ds)
  then show ?thesis by (intro meas_move [OF t]) (simp_all add: tmeas_def wt_listing)
next
  case (close_dir p)
  let ?s1 = "s\<lparr>dir_to_handle := (dir_to_handle s)(t := None)\<rparr>"
  have "meas cfg ?s1 \<le> meas cfg s" using meas_dir [of ?s1 s t None cfg] by simp
  moreover have "meas cfg s' = meas cfg (goto t At_lock ?s1)" unfolding close_dir(1) by (simp add: meas_def tmeas_def)
  ultimately show ?thesis using meas_goto [OF t, of At_lock ?s1] close_dir(2) by (simp add: tmeas_def)
next
  case (skip p d ds)
  then show ?thesis using meas_entry [OF t, of s p d ds s] by (simp add: entry_cost_def)
next
  case (match p d ds)
  let ?s1 = "s\<lparr>g_files_found := g_files_found s + 1\<rparr>"
  have "meas cfg ?s1 = meas cfg s" using meas_same [of ?s1 s cfg] by simp
  then show ?thesis using meas_entry [OF t, of ?s1 p d ds s] match by (simp add: entry_cost_def)
next
  case (give p d ds h)
  let ?s1 = "s\<lparr>thread_queue := butlast (thread_queue s),
      dir_to_handle := (dir_to_handle s)(h := Some (new_pathname p d))\<rparr>"
  have "meas cfg ?s1 \<le> meas cfg s + wt cfg (new_pathname p d)"
    using meas_dir [of ?s1 s h "Some (new_pathname p d)" cfg] by simp
  then have "meas cfg (signal_thread h ?s1) < meas cfg s + entry_cost cfg p d"
    using meas_signal_thread [of cfg h ?s1] give(3,8) by (simp add: entry_cost_def)
  then show ?thesis unfolding give(1) using give(2) by (intro meas_entry [OF t]) auto
next
  case (store_dir p d ds)
  let ?s1 = "s\<lparr>dir_queue := new_pathname p d # dir_queue s\<rparr>"
  have "meas cfg ?s1 = meas cfg s + wt cfg (new_pathname p d)" using meas_same [of ?s1 s cfg] by simp
  then show ?thesis using meas_entry [OF t, of ?s1 p d ds s] store_dir by (simp add: entry_cost_def)
next
  case (failing p d ds)
  then show ?thesis by (intro meas_move [OF t]) (auto simp: tmeas_def)
next
  case failed
  let ?s1 = "signal_finish (s\<lparr>g_failed_threads := g_failed_threads s + 1\<rparr>)"
  have "meas cfg (s\<lparr>g_failed_threads := g_failed_threads s + 1\<rparr>) = meas cfg s"
    using meas_same [of "s\<lparr>g_failed_threads := g_failed_threads s + 1\<rparr>" s cfg] by simp
  then have "meas cfg ?s1 \<le> meas cfg s + 3" using meas_signal_finish [of cfg "s\<lparr>g_failed_threads := g_failed_threads s + 1\<rparr>"] by simp
  then show ?thesis using meas_goto [OF t, of Failed ?s1] failed by (simp add: tmeas_def)
next
  case (oom p d ds)
  then show ?thesis by (intro meas_move [OF t]) (simp_all add: tmeas_def)
next
  case crash
  have "mrank (threads_num cfg) (mpc s) > 0" using mrank_pos [of "threads_num cfg" s] al by auto
  then show ?thesis using meas_same [of s' s cfg] crash by simp
qed

lemma main_step_meas:
  assumes "main_step cfg s = Some s'"
  shows "meas cfg s' < meas cfg s"
proof (cases rule: main_step_cases [OF assms])
  case 1
  then show ?thesis using meas_same [of s' s cfg] by simp
next
  case 2
  then show ?thesis using meas_same [of s' s cfg] by simp
next
  case 3
  then show ?thesis using meas_same [of s' s cfg] by simp
next
  case (4 b)
  then show ?thesis using meas_same [of s' s cfg] by simp
next
  case (5 b)
  then show ?thesis using meas_same [of s' s cfg] by simp
next
  case 6
  let ?n = "threads_num cfg"
  have "meas cfg (fold signal_thread [0..<m] u) \<le> meas cfg u + 9 * m" for m u
  proof (induction m)
    case (Suc m)
    then show ?case using meas_signal_thread [of cfg m "fold signal_thread [0..<m] u"] by simp
  qed simp
  then have w: "meas cfg (fold signal_thread [0..<?n] s) \<le> meas cfg s + 9 * ?n" .
  have "mpc (fold signal_thread [0..<?n] s) = M_finish" using 6(1) by (simp add: fold_signal)
  then show ?thesis
    using w meas_same [of s' "fold signal_thread [0..<?n] s" cfg] 6(3) by simp
next
  case 7
  then show ?thesis using meas_same [of s' s cfg] by simp
qed

section \<open>Runs are finite\<close>

definition unforced :: "event \<Rightarrow> bool" where
  "unforced ev \<longleftrightarrow> no_spurious ev \<and> ev \<noteq> Spurious_main"

lemma pf_event_meas:
  assumes "pf_event cfg ev s = Some s'" "unforced ev"
  shows "meas cfg s' < meas cfg s"
proof -
  have al: "alive s" using assms(1) by (simp add: pf_event_def split: if_splits)
  show ?thesis
  proof (cases ev)
    case (T t)
    then have "t < threads_num cfg" "tstep cfg t s s'"
      using assms(1) thread_step_tstep by (simp_all add: pf_event_def split: if_splits)
    then show ?thesis using tstep_meas al by blast
  next
    case (T_oom t)
    then have "t < threads_num cfg" "tstep cfg t s s'"
      using assms(1) thread_step_oom_tstep by (simp_all add: pf_event_def split: if_splits)
    then show ?thesis using tstep_meas al by blast
  next
    case Main
    then show ?thesis using assms(1) main_step_meas by (simp add: pf_event_def split: if_splits)
  qed (use assms(2) in \<open>simp_all add: unforced_def\<close>)
qed

lemma pf_run_meas:
  "pf_run cfg es s = Some s' \<Longrightarrow> list_all unforced es \<Longrightarrow> length es + meas cfg s' \<le> meas cfg s"
proof (induction es arbitrary: s)
  case (Cons e es)
  then obtain s1 where s1: "pf_event cfg e s = Some s1" "pf_run cfg es s1 = Some s'" by (auto split: option.splits)
  have "meas cfg s1 < meas cfg s" using pf_event_meas [OF s1(1)] Cons.prems(2) by simp
  moreover have "length es + meas cfg s' \<le> meas cfg s1" using Cons.IH [OF s1(2)] Cons.prems(2) by simp
  ultimately show ?case by simp
qed simp

text \<open>From any state of a quiet run some continuation, and by the bound every one, ends the process.\<close>

lemma quiet_progress:
  assumes "pf_quiet cfg s" "alive s"
  shows "\<exists>ev s'. unforced ev \<and> quiet ev \<and> pf_event cfg ev s = Some s'"
proof -
  have "\<not> stuck cfg s" by (rule quiet_not_stuck [OF assms(1)])
  then consider "main_step cfg s \<noteq> None" | t where "t < threads_num cfg" "thread_step cfg t s \<noteq> None"
    using assms(2) by (auto simp: stuck_def list_all_iff)
  then show ?thesis
  proof cases
    case 1
    then obtain s' where "pf_event cfg Main s = Some s'" using assms(2) by (auto simp: pf_event_def)
    then show ?thesis by (intro exI [of _ Main]) (auto simp: unforced_def quiet_def)
  next
    case (2 t)
    then obtain s' where "pf_event cfg (T t) s = Some s'" using assms(2) by (auto simp: pf_event_def)
    then show ?thesis by (intro exI [of _ "T t"]) (auto simp: unforced_def quiet_def)
  qed
qed

end
