(* ===== verification/Pfind_Thms.thy ===== *)
theory Pfind_Thms
  imports Pfind_Result Pfind_Term
begin

text \<open>
  The properties of the parallel search: what it reports when it ends, the discipline of its
  locks and queues, its exit code, and the situations in which it hangs, crashes or misses files.
\<close>

section \<open>The search is complete\<close>

lemma idle_books:
  assumes "queue_inv cfg s" "\<forall>t < threads_num cfg. t \<in> set (thread_queue s)"
  shows "pending cfg s = {#}" "unread cfg s = {#}" "nofail cfg s"
proof -
  have r: "dir_to_handle s t = None" "resting (tpc s t) \<or> departing (tpc s t)" if "t < threads_num cfg" for t
    using assms that by (auto simp: queue_inv_def)
  then show "pending cfg s = {#}" by (simp add: pending_def resting_pend)
  have "ahead (tpc s t) = {#}" if "t < threads_num cfg" for t
    using r(2) [OF that] by (cases "tpc s t") auto
  then show "unread cfg s = {#}" by (simp add: unread_def)
  show "nofail cfg s" using r(2) by (force simp: nofail_def)
qed

lemma finished_idle:
  assumes "pf_inv cfg s" "mpc s = M_done 0" "0 < threads_num cfg"
  shows "dir_queue s = []" "\<forall>t < threads_num cfg. t \<in> set (thread_queue s)" "queue_inv cfg s" "count_inv cfg s"
  using assms by (simp_all add: pf_inv_def finish_inv_def)

lemma finished_books:
  assumes "pf_inv cfg s" "mpc s = M_done 0" "0 < threads_num cfg"
  shows "mset (opened s) = {#root_dir cfg#} + image_mset join (filter_mset (subdir cfg) (mset (handled s)))"
    "mset (handled s) = (\<Sum>p\<in>#mset (opened s). entries_of cfg p)"
    "g_files_found s = size (filter_mset (matching cfg) (mset (handled s)))"
    "\<forall>p \<in># mset (opened s). listing cfg p \<noteq> None"
proof -
  note idle = finished_idle [OF assms]
  have b: "books_ok cfg s" using idle(4) idle_books(3) [OF idle(3,2)] by (simp add: count_inv_def)
  note none = idle(1) idle_books(1,2) [OF idle(3,2)]
  show "mset (opened s) = {#root_dir cfg#} + image_mset join (filter_mset (subdir cfg) (mset (handled s)))"
    using b none(1,2) by (simp add: books_ok_def)
  show "mset (handled s) = (\<Sum>p\<in>#mset (opened s). entries_of cfg p)"
    using b none(3) by (simp add: books_ok_def)
  show "g_files_found s = size (filter_mset (matching cfg) (mset (handled s)))"
    using b by (simp only: books_ok_def size_mset mset_filter [symmetric])
  show "\<forall>p \<in># mset (opened s). listing cfg p \<noteq> None"
    using b by (simp add: books_ok_def)
qed

lemma matches_entries: "size (filter_mset (matching cfg) (entries_of cfg p)) = matches_in cfg p"
  by (simp only: entries_of_def matches_in_def mset_filter [symmetric] size_mset filter_map comp_def length_map)

lemma matches_sum:
  "size (filter_mset (matching cfg) (\<Sum>p\<in>#M. entries_of cfg p)) = (\<Sum>p\<in>#M. matches_in cfg p)"
  by (induction M) (simp_all add: matches_entries)

lemma finished_opened:
  assumes "pf_inv cfg s" "mpc s = M_done 0" "0 < threads_num cfg" "fs_ok cfg"
  shows "mset (opened s) = mset_set (reach_dirs cfg)" "set (opened s) = reach_dirs cfg"
  using closed_books [OF assms(4) finished_books(1,2,4) [OF assms(1-3)]]
  by (simp, metis set_mset_mset)

text \<open>Claim C2.  If the search ends with exit code 0, with at least one thread and no spurious
  wake-ups, whatever the interleaving: it has opened every directory reachable from the root
  through searchable directories, each exactly once, and the number printed is the number of
  entries with the search term in their names in all of them.\<close>

theorem search_is_complete:
  assumes "pf_reach cfg s" "mpc s = M_done 0" "0 < threads_num cfg" "fs_ok cfg"
  shows "distinct (opened s) \<and> set (opened s) = reach_dirs cfg \<and> finite (reach_dirs cfg) \<and>
    g_files_found s = (\<Sum>p\<in>reach_dirs cfg. matches_in cfg p)"
proof -
  note inv = pf_reach_inv [OF assms(1)]
  note op = finished_opened [OF inv assms(2-4)]
  have set: "set (opened s) = reach_dirs cfg" by (rule op(2))
  then have fin: "finite (reach_dirs cfg)" by (metis finite_set)
  have c: "count (mset (opened s)) x = (if x \<in> set (opened s) then 1 else 0)" for x
    unfolding op(1) set using fin by (simp add: count_mset_set')
  then have dist: "distinct (opened s)" unfolding distinct_count_atmost_1 by blast
  have "g_files_found s = (\<Sum>p\<in>#mset_set (reach_dirs cfg). matches_in cfg p)"
    unfolding finished_books(3) [OF inv assms(2,3)] finished_books(2) [OF inv assms(2,3)] matches_sum op(1) ..
  then have "g_files_found s = (\<Sum>p\<in>reach_dirs cfg. matches_in cfg p)" by (simp add: sum_unfold_sum_mset)
  then show ?thesis using set fin dist by blast
qed

section \<open>Examples\<close>

text \<open>Two threads; the directory \<open>r\<close> with a dot entry, a matching file and a subdirectory that
  holds another matching file.\<close>

definition cfg2 :: cfg where
  "cfg2 =
     \<lparr>threads_num = 2, search_term = ''a'', root_dir = ''r'',
      listing = (\<lambda>p. if p = ''r'' then Some [''.'', ''a'', ''d'']
                     else if p = ''r/d'' then Some [''ba''] else None),
      st_mode = (\<lambda>p. Some (if p = ''r/d'' \<or> p = ''r'' then 0x41C0 else 0x81C0))\<rparr>"

definition cfg1 :: cfg where
  "cfg1 = cfg2\<lparr>threads_num := 1\<rparr>"

text \<open>Both threads reach their first wait, and the last one makes the search start.\<close>

definition both_ready :: "event list" where
  "both_ready = Main # replicate 5 (T 0) @ replicate 5 (T 1)"

definition complete_run :: "event list" where
  "complete_run = both_ready @ replicate 12 (T 0) @ replicate 10 (T 1) @ replicate 4 Main @
     [T 0, T 0, T 0, T 1, T 1, T 1, Main]"

lemma pf_run_append: "pf_run cfg (es @ fs) s = Option.bind (pf_run cfg es s) (pf_run cfg fs)"
  by (induction es arbitrary: s) (auto split: option.split)

lemma pf_run_reach:
  "pf_reach cfg s \<Longrightarrow> list_all no_spurious es \<Longrightarrow> pf_run cfg es s = Some s' \<Longrightarrow> pf_reach cfg s'"
  by (induction es arbitrary: s) (auto split: option.splits intro: pf_reach.step)

lemma cfg2_threads: "threads_num cfg2 = 2"
  by (simp add: cfg2_def)

lemma cfg2_fs_ok: "fs_ok cfg2"
  by (auto simp: fs_ok_def cfg2_def)

lemma complete_run_end:
  "map_option (\<lambda>s. (mpc s, g_files_found s)) (pf_run cfg2 complete_run (pfind_init cfg2)) = Some (M_done 0, 2)"
  by code_simp

theorem search_is_complete_witness:
  "\<exists>s. pf_run cfg2 complete_run (pfind_init cfg2) = Some s \<and> mpc s = M_done 0 \<and> g_files_found s = 2 \<and>
     distinct (opened s) \<and> set (opened s) = reach_dirs cfg2 \<and>
     (\<Sum>p\<in>reach_dirs cfg2. matches_in cfg2 p) = 2"
proof -
  obtain s where s: "pf_run cfg2 complete_run (pfind_init cfg2) = Some s" "mpc s = M_done 0" "g_files_found s = 2"
    using complete_run_end by auto
  have "list_all no_spurious complete_run" by code_simp
  then have "pf_reach cfg2 s" using pf_run_reach [OF pf_reach.start] s(1) by blast
  then show ?thesis
    using search_is_complete [of cfg2 s] s cfg2_fs_ok cfg2_threads by simp
qed

section \<open>Where the search goes wrong\<close>

text \<open>Claim C35.  A spurious wake-up before the search proper starts makes the program miss files:
  the thread woken takes the root directory while it still is in the thread queue, the main
  thread counts it as idle and ends the search, and the subdirectory it then finds is handed to
  the thread itself, which drops it.  The program reports success.\<close>

theorem spurious_wakeup_misses_files:
  "\<exists>s. pf_run cfg2
      (both_ready @ [Spurious 1, T 1, T 1, T 1, T 0, T 0, T 0, T 0, Main, Main, Main, Main] @
       replicate 8 (T 1) @ [T 0, T 0, T 0, Main]) (pfind_init cfg2) = Some s \<and>
     mpc s = M_done 0 \<and> ''r/d'' \<in> reach_dirs cfg2 \<and> ''r/d'' \<notin> set (opened s) \<and>
     0 < matches_in cfg2 ''r/d'' \<and> g_files_found s = 1"
proof -
  let ?es = "both_ready @ [Spurious 1, T 1, T 1, T 1, T 0, T 0, T 0, T 0, Main, Main, Main, Main] @
       replicate 8 (T 1) @ [T 0, T 0, T 0, Main]"
  have "map_option (\<lambda>s. (mpc s, opened s, g_files_found s)) (pf_run cfg2 ?es (pfind_init cfg2)) =
      Some (M_done 0, [''r''], 1)"
    by code_simp
  then obtain s where s: "pf_run cfg2 ?es (pfind_init cfg2) = Some s" "mpc s = M_done 0" "opened s = [''r'']"
      "g_files_found s = 1"
    by auto
  have "subdir cfg2 (''r'', ''d'')" "0 < matches_in cfg2 ''r/d''" by code_simp+
  moreover have "new_pathname ''r'' ''d'' = ''r/d''" by code_simp
  ultimately have "''r/d'' \<in> reach_dirs cfg2" "0 < matches_in cfg2 ''r/d''"
    using reach_dirs.sub [OF reach_dirs.root, of cfg2 _ "''d''"] by (simp_all add: cfg2_def)
  then show ?thesis using s by simp
qed

text \<open>Claim C36.  Deadlock: the searching threads lock \<open>queue_mutex\<close> before \<open>finish_mutex\<close> and the
  main thread locks them in the opposite order.  A thread woken spuriously when main ends the
  search can hold the first while main holds the second.\<close>

theorem lock_order_deadlock:
  "\<exists>s. pf_run cfg2 (both_ready @ replicate 12 (T 0) @ replicate 10 (T 1) @
       [Spurious 0, T 0, T 0, Main, Main, Main]) (pfind_init cfg2) = Some s \<and>
     mpc s = M_finish \<and> tpc s 0 = Want_finish \<and> queue_mutex s \<and> finish_mutex s \<and> stuck cfg2 s"
proof -
  let ?es = "both_ready @ replicate 12 (T 0) @ replicate 10 (T 1) @ [Spurious 0, T 0, T 0, Main, Main, Main]"
  have "map_option (\<lambda>s. (mpc s, tpc s 0, queue_mutex s, finish_mutex s, stuck cfg2 s))
      (pf_run cfg2 ?es (pfind_init cfg2)) = Some (M_finish, Want_finish, True, True, True)"
    by code_simp
  then show ?thesis by auto
qed

text \<open>Failing allocations.  The entry for a directory that is handed to an idle thread
  is not checked: the program dereferences null and dies.  When the allocation for the directory
  queue fails, the thread exits with \<open>queue_mutex\<close> locked and the program hangs.\<close>

theorem failed_allocations:
  "(\<exists>s. pf_run cfg2 (both_ready @ replicate 6 (T 0) @ [T_oom 0]) (pfind_init cfg2) = Some s \<and> mpc s = M_crashed) \<and>
   (\<exists>s. pf_run cfg1 (Main # replicate 10 (T 0) @ [T_oom 0, T 0, Main, Main, Main]) (pfind_init cfg1) = Some s \<and>
     tpc s 0 = Failed \<and> queue_mutex s \<and> stuck cfg1 s)"
proof -
  have "map_option mpc (pf_run cfg2 (both_ready @ replicate 6 (T 0) @ [T_oom 0]) (pfind_init cfg2)) = Some M_crashed"
    by code_simp
  then have crash: "\<exists>s. pf_run cfg2 (both_ready @ replicate 6 (T 0) @ [T_oom 0]) (pfind_init cfg2) = Some s \<and> mpc s = M_crashed"
    by auto
  have "map_option (\<lambda>s. (tpc s 0, queue_mutex s, stuck cfg1 s))
      (pf_run cfg1 (Main # replicate 10 (T 0) @ [T_oom 0, T 0, Main, Main, Main]) (pfind_init cfg1)) =
      Some (Failed, True, True)"
    by code_simp
  then have "\<exists>s. pf_run cfg1 (Main # replicate 10 (T 0) @ [T_oom 0, T 0, Main, Main, Main]) (pfind_init cfg1) = Some s \<and>
      tpc s 0 = Failed \<and> queue_mutex s \<and> stuck cfg1 s"
    by auto
  with crash show ?thesis by blast
qed

section \<open>A thread that fails before the search starts\<close>

lemma failed_not_idle:
  assumes "pf_inv cfg s" "mpc s \<noteq> M_crashed" "t < threads_num cfg" "tpc s t = Failing \<or> tpc s t = Failed"
  shows "length (thread_queue s) \<noteq> threads_num cfg"
proof
  assume n: "length (thread_queue s) = threads_num cfg"
  have q: "queue_inv cfg s" using assms(1,2) by (simp add: pf_inv_def)
  then have "t \<in> set (thread_queue s)" using all_in_queue [OF q n] assms(3) by simp
  then show False using q assms(4) by (auto simp: queue_inv_def)
qed

text \<open>While the threads are not ready the main thread ends the search only when all have failed.\<close>

definition unready_inv :: "cfg \<Rightarrow> pfind \<Rightarrow> bool" where
  "unready_inv cfg s \<longleftrightarrow> mpc s = M_crashed \<or> g_all_threads_ready s \<or>
     mpc s \<noteq> M_check2 True \<and> (mpc s = M_finish \<or> over (mpc s) \<longrightarrow> threads_num cfg \<le> g_failed_threads s)"

lemma tstep_failed_mono: "tstep cfg t s s' \<Longrightarrow> g_failed_threads s \<le> g_failed_threads s'"
  by (erule tstep.cases) simp_all

lemma tstep_unready: "tstep cfg t s s' \<Longrightarrow> mpc s \<noteq> M_crashed \<Longrightarrow> unready_inv cfg s \<Longrightarrow> unready_inv cfg s'"
  using tstep_mpc [of cfg t s s'] tstep_ready_mono [of cfg t s s'] tstep_failed_mono [of cfg t s s']
  by (auto simp: unready_inv_def)

lemma main_unready:
  assumes "main_step cfg s = Some s'" "pf_inv cfg s" "mpc s \<noteq> M_crashed" "unready_inv cfg s"
  shows "unready_inv cfg s'"
proof (cases "g_all_threads_ready s")
  case True
  then have "g_all_threads_ready s'" by (cases rule: main_step_cases [OF assms(1)]) (simp_all add: fold_signal)
  then show ?thesis by (simp add: unready_inv_def)
next
  case False
  then have "dir_queue s \<noteq> []" using assms(2,3) by (simp add: pf_inv_def start_inv_def)
  with False show ?thesis using assms(4)
    by (cases rule: main_step_cases [OF assms(1)]) (auto simp: unready_inv_def fold_signal)
qed

lemma pf_event_cases:
  assumes "pf_event cfg ev s = Some s'" "no_spurious ev"
  obtains t where "t < threads_num cfg" "tstep cfg t s s'"
    | "main_step cfg s = Some s'"
    | "mpc s = M_wait" "s' = s\<lparr>mpc := M_lock_finish\<rparr>"
proof (cases ev)
  case (T t)
  then show ?thesis using that(1) [of t] assms(1) thread_step_tstep by (simp add: pf_event_def split: if_splits)
next
  case (T_oom t)
  then show ?thesis using that(1) [of t] assms(1) thread_step_oom_tstep by (simp add: pf_event_def split: if_splits)
next
  case Main
  then show ?thesis using that(2) assms(1) by (simp add: pf_event_def split: if_splits)
next
  case Spurious_main
  then show ?thesis using that(3) assms(1) by (simp add: pf_event_def split: if_splits)
qed (use assms(2) in simp)

lemma pf_event_alive: "pf_event cfg ev s = Some s' \<Longrightarrow> alive s"
  by (simp add: pf_event_def split: if_splits)

lemma alive_not_crashed: "alive s \<Longrightarrow> mpc s \<noteq> M_crashed"
  by (auto simp: alive_def)

lemma pf_reach_unready: "pf_reach cfg s \<Longrightarrow> unready_inv cfg s"
proof (induction rule: pf_reach.induct)
  case start
  show ?case by (simp add: unready_inv_def pfind_init_def)
next
  case (step s ev s')
  have nc: "mpc s \<noteq> M_crashed" using pf_event_alive [OF step.hyps(3)] by (rule alive_not_crashed)
  show ?case
  proof (cases rule: pf_event_cases [OF step.hyps(3,2)])
    case (1 t)
    then show ?thesis using tstep_unready nc step.IH by blast
  next
    case 2
    then show ?thesis using main_unready pf_reach_inv [OF step.hyps(1)] nc step.IH by blast
  next
    case 3
    then show ?thesis using step.IH by (simp add: unready_inv_def)
  qed
qed

lemma unready_event:
  assumes "pf_event cfg ev s = Some s'" "no_spurious ev" "pf_reach cfg s" "t < threads_num cfg"
    "\<not> g_all_threads_ready s" "tpc s t = Failing \<or> tpc s t = Failed" "mpc s' \<noteq> M_crashed"
  shows "\<not> g_all_threads_ready s' \<and> (tpc s' t = Failing \<or> tpc s' t = Failed)"
proof -
  have nc: "mpc s \<noteq> M_crashed" using pf_event_alive [OF assms(1)] by (rule alive_not_crashed)
  show ?thesis
  proof (cases rule: pf_event_cases [OF assms(1,2)])
    case (1 u)
    have "\<not> g_all_threads_ready s'"
      using tstep_ready_change(2) [OF 1(2) _ assms(5)] failed_not_idle [OF pf_reach_inv [OF assms(3)] nc assms(4,6)] by blast
    moreover have "tpc s' t = Failing \<or> tpc s' t = Failed"
    proof (cases "t = u")
      case True
      from 1(2) True assms(6,7) show ?thesis by (cases rule: tstep.cases) auto
    next
      case False
      then show ?thesis using tstep_others [OF 1(2) False] assms(6) by auto
    qed
    ultimately show ?thesis by blast
  next
    case 2
    then show ?thesis using assms(5,6) by (cases rule: main_step_cases [OF 2]) (auto simp: fold_signal)
  next
    case 3
    then show ?thesis using assms(5,6) by simp
  qed
qed

lemma crashed_run: "mpc s = M_crashed \<Longrightarrow> pf_run cfg es s = Some s' \<Longrightarrow> s' = s"
  by (cases es) (auto simp: pf_event_def alive_def)

lemma unready_run:
  assumes "pf_run cfg es s = Some s'" "list_all no_spurious es" "pf_reach cfg s" "t < threads_num cfg"
    "\<not> g_all_threads_ready s" "tpc s t = Failing \<or> tpc s t = Failed"
  shows "mpc s' = M_crashed \<or> \<not> g_all_threads_ready s'"
  using assms
proof (induction es arbitrary: s)
  case (Cons ev es)
  then obtain s1 where s1: "pf_event cfg ev s = Some s1" "pf_run cfg es s1 = Some s'" "no_spurious ev"
      "list_all no_spurious es"
    by (auto split: option.splits)
  show ?case
  proof (cases "mpc s1 = M_crashed")
    case True
    then show ?thesis using crashed_run s1(2) by blast
  next
    case False
    note u = unready_event [OF s1(1,3) Cons.prems(3-6) False]
    show ?thesis
      using Cons.IH [OF s1(2,4) pf_reach.step [OF Cons.prems(3) s1(3,1)] Cons.prems(4)] u by blast
  qed
qed simp

text \<open>Claim C37.  If a thread fails before all threads are ready (its \<open>malloc\<close> fails), the others wait
  for it for ever: no directory is ever opened, and the program ends only if all threads fail.\<close>

theorem startup_failure_blocks_search:
  assumes "pf_reach cfg s" "\<not> g_all_threads_ready s" "t < threads_num cfg"
    "tpc s t = Failing \<or> tpc s t = Failed"
    "list_all no_spurious es" "pf_run cfg es s = Some s'" "mpc s' \<noteq> M_crashed"
  shows "opened s' = [] \<and> (\<forall>c. mpc s' = M_done c \<longrightarrow> threads_num cfg \<le> g_failed_threads s')"
proof -
  have r: "pf_reach cfg s'" by (rule pf_run_reach [OF assms(1,5,6)])
  have nr: "\<not> g_all_threads_ready s'" using unready_run [OF assms(6,5,1,3,2,4)] assms(7) by blast
  have "opened s' = []" using pf_reach_inv [OF r] nr assms(7) by (simp add: pf_inv_def start_inv_def)
  moreover have "threads_num cfg \<le> g_failed_threads s'" if "mpc s' = M_done c" for c
    using pf_reach_unready [OF r] nr that by (simp add: unready_inv_def)
  ultimately show ?thesis by blast
qed

theorem startup_failure_blocks_search_witness:
  "\<exists>s s'. pf_run cfg2 [Main, T_oom 0] (pfind_init cfg2) = Some s \<and>
     pf_run cfg2 ([T 0] @ replicate 5 (T 1) @ [Main, Main, Main]) s = Some s' \<and>
     stuck cfg2 s' \<and> opened s' = []"
proof -
  let ?es = "[T 0] @ replicate 5 (T 1) @ [Main, Main, Main]"
  have "map_option (\<lambda>s. (tpc s 0, g_all_threads_ready s)) (pf_run cfg2 [Main, T_oom 0] (pfind_init cfg2)) =
      Some (Failing, False)"
    by code_simp
  then obtain s where s: "pf_run cfg2 [Main, T_oom 0] (pfind_init cfg2) = Some s" "tpc s 0 = Failing"
      "\<not> g_all_threads_ready s"
    by auto
  have "map_option (\<lambda>s. (mpc s, stuck cfg2 s)) (pf_run cfg2 ([Main, T_oom 0] @ ?es) (pfind_init cfg2)) =
      Some (M_wait, True)"
    by code_simp
  then obtain s' where s': "pf_run cfg2 ?es s = Some s'" "mpc s' = M_wait" "stuck cfg2 s'"
    unfolding pf_run_append s(1) by auto
  have "pf_reach cfg2 s" by (rule pf_run_reach [OF pf_reach.start _ s(1)]) simp
  moreover have "list_all no_spurious ?es" by code_simp
  ultimately have "opened s' = []"
    using startup_failure_blocks_search [of cfg2 s 0 ?es s'] s(2,3) s'(1,2) cfg2_threads by simp
  then show ?thesis using s(1) s'(1,3) by blast
qed

section \<open>Progress and the end of the search\<close>

lemma pf_run_quiet:
  "pf_quiet cfg s \<Longrightarrow> list_all quiet es \<Longrightarrow> pf_run cfg es s = Some s' \<Longrightarrow> pf_quiet cfg s'"
  by (induction es arbitrary: s) (auto split: option.splits intro: pf_quiet.step)

lemma quiet_events: "list_all (\<lambda>ev. case ev of T t \<Rightarrow> True | Main \<Rightarrow> True | _ \<Rightarrow> False) es \<Longrightarrow> list_all quiet es"
  by (induction es) (auto simp: quiet_def split: event.splits)

lemma complete_run_quiet: "list_all quiet complete_run"
  by (rule quiet_events) code_simp

text \<open>Claim C5.  Deadlock freedom: without spurious wake-ups and failing allocations the main thread
  or some searching thread can always take a step, until the process ends; threads that fail
  because a directory cannot be opened or an entry cannot be examined included.\<close>

theorem search_never_stuck:
  assumes "pf_quiet cfg s"
  shows "\<not> stuck cfg s"
  by (rule quiet_not_stuck [OF assms])

theorem search_never_stuck_witness:
  "\<exists>s. pf_run cfg2 both_ready (pfind_init cfg2) = Some s \<and> tpc s 1 = Asleep \<and> \<not> stuck cfg2 s"
proof -
  have "map_option (\<lambda>s. tpc s 1) (pf_run cfg2 both_ready (pfind_init cfg2)) = Some Asleep" by code_simp
  then obtain s where s: "pf_run cfg2 both_ready (pfind_init cfg2) = Some s" "tpc s 1 = Asleep" by auto
  have "list_all quiet both_ready" by (rule quiet_events) code_simp
  then have "pf_quiet cfg2 s" using pf_run_quiet [OF pf_quiet.start] s(1) by blast
  then show ?thesis using search_never_stuck s by blast
qed

lemma thread_crash:
  assumes "pf_reach cfg s" "alive s" "t < threads_num cfg" "thread_step cfg t s = Some s'" "mpc s' = M_crashed"
  shows "\<exists>p d ds. tpc s t = Searching p (d # ds) \<and> PATH_MAX \<le> length (new_pathname p d)"
proof -
  have nc: "mpc s \<noteq> M_crashed" by (rule alive_not_crashed [OF assms(2)])
  have "start_inv cfg s" using pf_reach_inv [OF assms(1)] nc by (simp add: pf_inv_def)
  then have lv: "tpc s t = Leave \<Longrightarrow> g_is_search s \<Longrightarrow> dir_to_handle s t = None \<Longrightarrow> dir_queue s \<noteq> []"
    using assms(3) by (auto simp: start_inv_def)
  show ?thesis
  proof (cases "tpc s t")
    case (Searching p es)
    then show ?thesis
      using assms(4,5) nc
      by (cases es) (auto simp: thread_step_defs handle_entry_def hand_over_def Let_def split: if_splits option.splits)
  qed (use assms(4,5) nc lv in \<open>auto simp: thread_step_defs Let_def split: if_splits option.splits\<close>)
qed

lemma oom_crash:
  assumes "thread_step_oom cfg t s = Some s'" "mpc s \<noteq> M_crashed" "mpc s' = M_crashed"
  shows "\<exists>p d ds mode. tpc s t = Searching p (d # ds) \<and> thread_queue s \<noteq> [] \<and>
    st_mode cfg (new_pathname p d) = Some mode \<and> S_ISDIR mode \<and> mode_searchable mode"
  using assms
  by (auto simp: thread_step_oom_def goto_def split: tpc.splits list.splits option.splits if_splits)

text \<open>Claim C19.  The only ways in which the process can be killed, as long as the waits of the
  searching threads do not wake up spuriously: a thread builds the path of a directory entry that
  does not fit into \<open>PATH_MAX\<close> bytes, or the unchecked \<open>malloc\<close> for a subdirectory that is handed to
  an idle thread fails.  In particular the directory queue is never empty when a thread takes a
  directory from it.\<close>

theorem causes_of_crashes:
  assumes "pf_reach cfg s" "pf_event cfg ev s = Some s'" "mpc s' = M_crashed"
  shows "\<exists>t p d ds. t < threads_num cfg \<and> tpc s t = Searching p (d # ds) \<and>
    (ev = T t \<and> PATH_MAX \<le> length (new_pathname p d) \<or>
     ev = T_oom t \<and> thread_queue s \<noteq> [] \<and>
       (\<exists>mode. st_mode cfg (new_pathname p d) = Some mode \<and> S_ISDIR mode \<and> mode_searchable mode))"
proof -
  have al: "alive s" by (rule pf_event_alive [OF assms(2)])
  have nc: "mpc s \<noteq> M_crashed" by (rule alive_not_crashed [OF al])
  show ?thesis
  proof (cases ev)
    case (T t)
    then have t: "t < threads_num cfg" "thread_step cfg t s = Some s'"
      using assms(2) al by (simp_all add: pf_event_def split: if_splits)
    then show ?thesis using thread_crash [OF assms(1) al t assms(3)] T by blast
  next
    case (T_oom t)
    then have t: "t < threads_num cfg" "thread_step_oom cfg t s = Some s'"
      using assms(2) al by (simp_all add: pf_event_def split: if_splits)
    then show ?thesis
      using oom_crash [OF t(2) nc assms(3)] T_oom by blast
  next
    case Main
    then have "main_step cfg s = Some s'" using assms(2) al by (simp add: pf_event_def)
    then show ?thesis
      using assms(3) nc by (cases rule: main_step_cases) (auto simp: fold_signal)
  next
    case (Spurious t)
    then show ?thesis using assms(2,3) al nc by (auto simp: pf_event_def goto_def split: if_splits)
  next
    case Spurious_main
    then show ?thesis using assms(2,3) al by (auto simp: pf_event_def split: if_splits)
  qed
qed

text \<open>A directory with one entry, whose name is too long.\<close>

definition cfg_long :: "string \<Rightarrow> cfg" where
  "cfg_long d = cfg1\<lparr>listing := (\<lambda>p. Some [d])\<rparr>"

lemma long_run:
  "\<exists>s. pf_run (cfg_long d) (Main # replicate 8 (T 0)) (pfind_init (cfg_long d)) = Some s \<and> alive s \<and>
     tpc s 0 = Searching ''r'' [d]"
proof -
  have "map_option (\<lambda>s. (alive s, tpc s 0)) (pf_run (cfg_long d) (Main # replicate 8 (T 0)) (pfind_init (cfg_long d))) =
      Some (True, Searching ''r'' [d])"
    by code_simp
  then show ?thesis by auto
qed

definition long_name :: string where
  "long_name = replicate 4095 CHR ''x''"

text \<open>Both happen.\<close>

theorem causes_of_crashes_witness:
  "(\<exists>s s' p d ds. pf_run (cfg_long long_name) (Main # replicate 8 (T 0)) (pfind_init (cfg_long long_name)) = Some s \<and>
     pf_event (cfg_long long_name) (T 0) s = Some s' \<and> mpc s' = M_crashed \<and>
     tpc s 0 = Searching p (d # ds) \<and> PATH_MAX \<le> length (new_pathname p d)) \<and>
   (\<exists>s s'. pf_run cfg2 (both_ready @ replicate 6 (T 0)) (pfind_init cfg2) = Some s \<and>
     pf_event cfg2 (T_oom 0) s = Some s' \<and> mpc s' = M_crashed \<and> thread_queue s \<noteq> [])"
proof
  obtain s where s: "pf_run (cfg_long long_name) (Main # replicate 8 (T 0)) (pfind_init (cfg_long long_name)) = Some s"
    "alive s" "tpc s 0 = Searching ''r'' [long_name]"
    using long_run [of long_name] by blast
  have "length long_name = 4095" by (simp only: long_name_def length_replicate)
  then have "thread_step (cfg_long long_name) 0 s = Some (s\<lparr>mpc := M_crashed\<rparr>)"
    by (simp add: thread_step_defs s(3) handle_entry_def Let_def new_pathname_def PATH_MAX_def)
  then have st: "pf_event (cfg_long long_name) (T 0) s = Some (s\<lparr>mpc := M_crashed\<rparr>)"
    using s(2) by (simp add: pf_event_def cfg_long_def cfg1_def)
  have "pf_reach (cfg_long long_name) s" by (rule pf_run_reach [OF pf_reach.start _ s(1)]) code_simp
  from causes_of_crashes [OF this st] obtain p d ds where
    "tpc s 0 = Searching p (d # ds)" "PATH_MAX \<le> length (new_pathname p d)" by auto
  then show "\<exists>s s' p d ds. pf_run (cfg_long long_name) (Main # replicate 8 (T 0)) (pfind_init (cfg_long long_name)) = Some s \<and>
     pf_event (cfg_long long_name) (T 0) s = Some s' \<and> mpc s' = M_crashed \<and>
     tpc s 0 = Searching p (d # ds) \<and> PATH_MAX \<le> length (new_pathname p d)"
    using s(1) st by (intro exI [of _ s] exI [of _ "s\<lparr>mpc := M_crashed\<rparr>"]) auto
next
  have "map_option mpc (Option.bind (pf_run cfg2 (both_ready @ replicate 6 (T 0)) (pfind_init cfg2)) (pf_event cfg2 (T_oom 0))) =
      Some M_crashed"
    by code_simp
  then obtain s s' where s: "pf_run cfg2 (both_ready @ replicate 6 (T 0)) (pfind_init cfg2) = Some s"
      "pf_event cfg2 (T_oom 0) s = Some s'" "mpc s' = M_crashed"
    by (auto simp: bind_eq_Some_conv)
  have "pf_reach cfg2 s" by (rule pf_run_reach [OF pf_reach.start _ s(1)]) code_simp
  from causes_of_crashes [OF this s(2,3)] have "thread_queue s \<noteq> []" by auto
  then show "\<exists>s s'. pf_run cfg2 (both_ready @ replicate 6 (T 0)) (pfind_init cfg2) = Some s \<and>
     pf_event cfg2 (T_oom 0) s = Some s' \<and> mpc s' = M_crashed \<and> thread_queue s \<noteq> []"
    using s by blast
qed

text \<open>Claim C24.  The end of the program: it has ended only when every thread has exited or failed, and
  its exit code is 1 if and only if some thread failed.\<close>

theorem exit_code:
  assumes "pf_quiet cfg s" "mpc s = M_done c"
  shows "(\<forall>t < threads_num cfg. tpc s t = Exited \<or> tpc s t = Failed) \<and>
    c = (if \<exists>t < threads_num cfg. tpc s t = Failed then 1 else 0)"
  using assms(1)
proof (cases rule: pf_quiet.cases)
  case start
  then show ?thesis using assms(2) by (simp add: pfind_init_def)
next
  case (step s0 ev)
  note al = pf_event_alive [OF step(3)]
  have nsp: "no_spurious ev" using step(2) by (simp add: quiet_def)
  have "failed_inv cfg s0" using pf_quiet_live [OF step(1)] alive_not_crashed [OF al] by (simp add: live_inv_def)
  then have fl: "g_failed_threads s0 \<noteq> 0 \<longleftrightarrow> (\<exists>t < threads_num cfg. tpc s0 t = Failed)"
    by (auto simp: failed_inv_def failures_def)
  have m: "mpc s0 \<noteq> M_done c" using al by (auto simp: alive_def)
  show ?thesis
  proof (cases rule: pf_event_cases [OF step(3) nsp])
    case (1 t)
    then show ?thesis using tstep_mpc [OF 1(2)] m assms(2) by auto
  next
    case 2
    then show ?thesis using m assms(2) fl by (cases rule: main_step_cases [OF 2]) (auto simp: fold_signal)
  next
    case 3
    then show ?thesis using assms(2) by simp
  qed
qed

theorem exit_code_witness:
  "\<exists>s. pf_run cfg2 complete_run (pfind_init cfg2) = Some s \<and> mpc s = M_done 0 \<and> tpc s 0 = Exited \<and>
     \<not> (\<exists>t < 2. tpc s t = Failed)"
proof -
  have "map_option (\<lambda>s. (mpc s, tpc s 0)) (pf_run cfg2 complete_run (pfind_init cfg2)) = Some (M_done 0, Exited)"
    by code_simp
  then obtain s where s: "pf_run cfg2 complete_run (pfind_init cfg2) = Some s" "mpc s = M_done 0" "tpc s 0 = Exited"
    by auto
  have "pf_quiet cfg2 s" using pf_run_quiet [OF pf_quiet.start complete_run_quiet s(1)] .
  then show ?thesis using exit_code [of cfg2 s 0] s cfg2_threads by (auto split: if_splits)
qed

text \<open>Claim C6.  The search ends: whatever the directories hold, a run without spurious wake-ups has at
  most as many steps as the measure of the initial state says, and while the process has not
  ended some step is possible.  Every maximal run without failing allocations ends the process.\<close>

theorem search_terminates:
  assumes "list_all unforced es" "list_all quiet es" "pf_run cfg es (pfind_init cfg) = Some s"
  shows "length es \<le> meas cfg (pfind_init cfg) \<and>
    (alive s \<longrightarrow> (\<exists>ev s'. unforced ev \<and> quiet ev \<and> pf_event cfg ev s = Some s'))"
  using pf_run_meas [OF assms(3,1)] quiet_progress [OF pf_run_quiet [OF pf_quiet.start assms(2,3)]] by simp

lemma unforced_events: "list_all (\<lambda>ev. case ev of T t \<Rightarrow> True | Main \<Rightarrow> True | _ \<Rightarrow> False) es \<Longrightarrow> list_all unforced es"
  by (induction es) (auto simp: unforced_def split: event.splits)

theorem search_terminates_witness:
  "\<exists>s. pf_run cfg2 both_ready (pfind_init cfg2) = Some s \<and> 11 \<le> meas cfg2 (pfind_init cfg2) \<and>
     (\<exists>ev s'. pf_event cfg2 ev s = Some s')"
proof -
  have "map_option alive (pf_run cfg2 both_ready (pfind_init cfg2)) = Some True" by code_simp
  then obtain s where s: "pf_run cfg2 both_ready (pfind_init cfg2) = Some s" "alive s" by auto
  have "list_all (\<lambda>ev. case ev of T t \<Rightarrow> True | Main \<Rightarrow> True | _ \<Rightarrow> False) both_ready" by code_simp
  then have "length both_ready \<le> meas cfg2 (pfind_init cfg2) \<and>
      (alive s \<longrightarrow> (\<exists>ev s'. unforced ev \<and> quiet ev \<and> pf_event cfg2 ev s = Some s'))"
    by (intro search_terminates [OF _ _ s(1)] unforced_events quiet_events)
  moreover have "length both_ready = 11" by code_simp
  ultimately show ?thesis using s by auto
qed

end
