(* ===== verification/Pfind_Queue.thy ===== *)
theory Pfind_Queue
  imports Prelude
begin

text \<open>
  The two queues of \<^verbatim>\<open>src/hw4_os/pfind.c\<close>: doubly linked lists of heap entries with a head, a tail and
  a counter, new entries at the head and removal at the tail.  The directory queue and the thread
  queue have the same code for different entries.  They are proved to implement lists with
  insertion at the front and removal of the last element, which is how \<^theory_text>\<open>Pfind_Machine\<close> sees them.
  An access to an address without an entry is an invalid access, \<^const>\<open>None\<close>.
\<close>

section \<open>Entries and queues\<close>

text \<open>Address 0 is the null pointer; \<open>payload\<close> is what the entry holds besides its links.\<close>

record 'd entry =
  payload :: 'd
  next_entry :: nat
  prev_entry :: nat

record 'd queue =
  ents :: "nat \<Rightarrow> 'd entry option"
  head :: nat
  tail :: nat
  count :: u32

record dir_data =
  path_name :: string
  dir_name :: string

record thread_data =
  thread_id :: nat
  dir_to_handle :: "nat option"

type_synonym dir_queue_t = "dir_data queue"
type_synonym thread_queue_t = "thread_data queue"

definition queue_init :: "'d queue \<Rightarrow> 'd queue" where
  "queue_init q = q\<lparr>count := 0, head := 0, tail := 0\<rparr>"

definition is_queue_empty :: "'d queue \<Rightarrow> bool" where
  "is_queue_empty q \<longleftrightarrow> count q = 0"

section \<open>Operations\<close>

text \<open>The part of \<^verbatim>\<open>dir_enqueue\<close> and \<^verbatim>\<open>thread_enqueue\<close> that links the entry \<open>n\<close> as the new head.\<close>

definition link_head :: "nat \<Rightarrow> 'd queue \<Rightarrow> 'd queue option" where
  "link_head n q =
     (case ents q n of
        None \<Rightarrow> None
      | Some e \<Rightarrow>
          let q1 = q\<lparr>ents := (ents q)(n \<mapsto> e\<lparr>next_entry := head q, prev_entry := 0\<rparr>)\<rparr>
          in if count q1 = 0 then Some (q1\<lparr>tail := n, head := n, count := count q1 + 1\<rparr>)
             else
               (case ents q1 (head q1) of
                  None \<Rightarrow> None
                | Some h \<Rightarrow>
                    Some (q1\<lparr>ents := (ents q1)(head q1 \<mapsto> h\<lparr>prev_entry := n\<rparr>), head := n, count := count q1 + 1\<rparr>)))"

text \<open>\<^verbatim>\<open>malloc\<close> returned the address \<open>n\<close>.\<close>

definition dir_enqueue :: "nat \<Rightarrow> dir_data \<Rightarrow> dir_queue_t \<Rightarrow> dir_queue_t option" where
  "dir_enqueue n d q =
     link_head n (q\<lparr>ents := (ents q)(n \<mapsto> \<lparr>payload = d, next_entry = 0, prev_entry = 0\<rparr>)\<rparr>)"

definition thread_enqueue :: "nat \<Rightarrow> thread_queue_t \<Rightarrow> thread_queue_t option" where
  "thread_enqueue n q =
     (case ents q n of
        None \<Rightarrow> None
      | Some e \<Rightarrow> link_head n (q\<lparr>ents := (ents q)(n \<mapsto> e\<lparr>payload := (payload e)\<lparr>dir_to_handle := None\<rparr>\<rparr>)\<rparr>))"

text \<open>\<^verbatim>\<open>dir_dequeue\<close> and \<^verbatim>\<open>thread_dequeue\<close>: the address of the removed entry.\<close>

definition dequeue :: "'d queue \<Rightarrow> (nat \<times> 'd queue) option" where
  "dequeue q =
     (let removed = tail q
      in if count q = 1 then Some (removed, q\<lparr>head := 0, tail := 0, count := count q - 1\<rparr>)
         else
           (case ents q (tail q) of
              None \<Rightarrow> None
            | Some e \<Rightarrow>
                (case ents q (prev_entry e) of
                   None \<Rightarrow> None
                 | Some f \<Rightarrow>
                     Some (removed, q\<lparr>ents := (ents q)(prev_entry e \<mapsto> f\<lparr>next_entry := 0\<rparr>),
                                      tail := prev_entry e, count := count q - 1\<rparr>))))"

text \<open>The walk of \<^verbatim>\<open>is_thread_in_queue\<close> from the entry \<open>tmp\<close>; it need not end on a cyclic list.\<close>

partial_function (option) find_thread :: "thread_queue_t \<Rightarrow> nat \<Rightarrow> nat \<Rightarrow> bool option" where
  "find_thread q t tmp =
     (if tmp = 0 then Some False
      else case ents q tmp of
        None \<Rightarrow> None
      | Some e \<Rightarrow> if thread_id (payload e) = t then Some True else find_thread q t (next_entry e))"

definition is_thread_in_queue :: "thread_queue_t \<Rightarrow> nat \<Rightarrow> bool option" where
  "is_thread_in_queue q t = find_thread q t (head q)"

section \<open>Representation\<close>

text \<open>\<open>links q ns p\<close>: the entries \<open>ns\<close> are linked in this order, the first has predecessor \<open>p\<close>.\<close>

fun links :: "'d queue \<Rightarrow> nat list \<Rightarrow> nat \<Rightarrow> bool" where
  "links q [] p = True"
| "links q (n # ns) p =
     (n \<noteq> 0 \<and> (\<exists>d. ents q n = Some \<lparr>payload = d, next_entry = (case ns of [] \<Rightarrow> 0 | m # _ \<Rightarrow> m), prev_entry = p\<rparr>) \<and>
      links q ns n)"

definition rep :: "'d queue \<Rightarrow> nat list \<Rightarrow> bool" where
  "rep q ns \<longleftrightarrow> distinct ns \<and> links q ns 0 \<and> length ns < 2 ^ 32 \<and> count q = of_nat (length ns) \<and>
     head q = (case ns of [] \<Rightarrow> 0 | n # _ \<Rightarrow> n) \<and> tail q = (if ns = [] then 0 else last ns)"

definition data_of :: "'d queue \<Rightarrow> nat \<Rightarrow> 'd" where
  "data_of q n = payload (the (ents q n))"

lemma links_other:
  "links q ns p \<Longrightarrow> \<forall>n \<in> set ns. ents q' n = ents q n \<Longrightarrow> links q' ns p"
  by (induction ns arbitrary: p) auto

lemma links_ents: "links q ns p \<Longrightarrow> n \<in> set ns \<Longrightarrow> n \<noteq> 0 \<and> ents q n \<noteq> None"
  by (induction ns arbitrary: p) auto

lemma count_zero:
  assumes "rep q ns"
  shows "count q = 0 \<longleftrightarrow> ns = []"
proof -
  have "unat (count q) = length ns"
    using assms by (simp add: rep_def unat_of_nat take_bit_nat_eq_self)
  then show ?thesis by (auto simp: unat_eq_0 [symmetric])
qed

lemma count_one:
  assumes "rep q ns"
  shows "count q = 1 \<longleftrightarrow> length ns = 1"
proof -
  have u: "unat (count q) = length ns"
    using assms by (simp add: rep_def unat_of_nat take_bit_nat_eq_self)
  show ?thesis by (metis u unat_1 word_unat_eq_iff)
qed

section \<open>The operations refine lists\<close>

lemma link_head_rep:
  assumes "rep q ns" "n \<notin> set ns" "n \<noteq> 0" "ents q n \<noteq> None" "length ns + 1 < 2 ^ 32"
  shows "\<exists>q'. link_head n q = Some q' \<and> rep q' (n # ns) \<and> data_of q' = data_of q \<and>
    (\<forall>m. ents q' m = None \<longleftrightarrow> ents q m = None)"
proof -
  obtain e where e: "ents q n = Some e" using assms(4) by blast
  show ?thesis
  proof (cases ns)
    case Nil
    then have "count q = 0" "head q = 0" using assms(1) by (simp_all add: rep_def)
    then show ?thesis
      using e assms(3) Nil by (cases e) (auto simp: link_head_def Let_def rep_def data_of_def fun_eq_iff)
  next
    case (Cons m ms)
    have r: "links q ns 0" "head q = m" "count q = of_nat (length ns)" "tail q = last ns" "distinct ns"
      using assms(1) Cons by (simp_all add: rep_def)
    obtain d where h: "ents q m = Some \<lparr>payload = d, next_entry = (case ms of [] \<Rightarrow> 0 | k # _ \<Rightarrow> k), prev_entry = 0\<rparr>" "m \<noteq> 0"
      and rest: "links q ms m" using r(1) Cons by auto
    have nm: "n \<noteq> m" "m \<notin> set ms" "n \<notin> set ms" using assms(2) Cons r(5) by auto
    let ?q = "q\<lparr>ents := (ents q)(n \<mapsto> e\<lparr>next_entry := m, prev_entry := 0\<rparr>,
        m \<mapsto> \<lparr>payload = d, next_entry = (case ms of [] \<Rightarrow> 0 | k # _ \<Rightarrow> k), prev_entry = n\<rparr>),
        head := n, count := count q + 1\<rparr>"
    have nz: "count q \<noteq> 0" using count_zero [OF assms(1)] Cons by simp
    have lh: "link_head n q = Some ?q"
      using e h nm(1) nz r(2) by (simp add: link_head_def Let_def fun_upd_twist)
    have "links ?q ms m" by (rule links_other [OF rest]) (use nm in auto)
    then have lk: "links ?q (n # ns) 0" using Cons h(2) assms(3) nm(1) by (cases e) auto
    have "rep ?q (n # ns)" unfolding rep_def
      using lk assms(2,5) r Cons by simp
    moreover have "data_of ?q = data_of q" using e h(1) by (auto simp: data_of_def fun_eq_iff)
    moreover have "\<forall>k. ents ?q k = None \<longleftrightarrow> ents q k = None" using e h(1) by auto
    ultimately show ?thesis using lh by blast
  qed
qed

lemma links_end:
  assumes "links q (a @ [y, x]) p" "distinct (a @ [y, x])"
  shows "\<exists>dx f. ents q x = Some \<lparr>payload = dx, next_entry = 0, prev_entry = y\<rparr> \<and> ents q y = Some f \<and>
    links (q\<lparr>ents := (ents q)(y \<mapsto> f\<lparr>next_entry := 0\<rparr>)\<rparr>) (a @ [y]) p"
  using assms
proof (induction a arbitrary: p)
  case Nil
  then show ?case by auto
next
  case (Cons b a)
  have lk: "links q (a @ [y, x]) b" "distinct (a @ [y, x])" using Cons.prems by auto
  obtain dx f where f: "ents q x = Some \<lparr>payload = dx, next_entry = 0, prev_entry = y\<rparr>" "ents q y = Some f"
    "links (q\<lparr>ents := (ents q)(y \<mapsto> f\<lparr>next_entry := 0\<rparr>)\<rparr>) (a @ [y]) b"
    using Cons.IH [OF lk] by blast
  let ?q = "q\<lparr>ents := (ents q)(y \<mapsto> f\<lparr>next_entry := 0\<rparr>)\<rparr>"
  have b: "b \<noteq> y" "b \<noteq> 0" using Cons.prems by auto
  obtain d where "ents q b = Some \<lparr>payload = d, next_entry = (case a @ [y, x] of [] \<Rightarrow> 0 | m # _ \<Rightarrow> m), prev_entry = p\<rparr>"
    using Cons.prems(1) by auto
  then have "ents ?q b = Some \<lparr>payload = d, next_entry = (case a @ [y] of [] \<Rightarrow> 0 | m # _ \<Rightarrow> m), prev_entry = p\<rparr>"
    using b(1) by (cases a) simp_all
  then have "links ?q (b # (a @ [y])) p" using b(2) f(3) unfolding links.simps by blast
  then show ?case unfolding append_Cons using f(1,2) by blast
qed

lemma dequeue_rep:
  assumes "rep q ns" "ns \<noteq> []"
  shows "\<exists>q'. dequeue q = Some (last ns, q') \<and> rep q' (butlast ns) \<and> data_of q' = data_of q \<and>
    (\<forall>m. ents q' m = None \<longleftrightarrow> ents q m = None)"
proof -
  obtain ms x where ns: "ns = ms @ [x]" using assms(2) by (cases ns rule: rev_cases) auto
  show ?thesis
  proof (cases ms rule: rev_cases)
    case Nil
    then have "count q = 1" using assms(1) ns by (simp add: rep_def)
    then show ?thesis using Nil ns assms(1) by (auto simp: dequeue_def Let_def rep_def data_of_def)
  next
    case (snoc a y)
    have r: "links q (a @ [y, x]) 0" "distinct (a @ [y, x])" "tail q = x" "count q = of_nat (length ns)"
        "head q = (case a @ [y, x] of [] \<Rightarrow> 0 | n # _ \<Rightarrow> n)"
      using assms(1) ns snoc by (simp_all add: rep_def)
    obtain dx f where f: "ents q x = Some \<lparr>payload = dx, next_entry = 0, prev_entry = y\<rparr>" "ents q y = Some f"
      "links (q\<lparr>ents := (ents q)(y \<mapsto> f\<lparr>next_entry := 0\<rparr>)\<rparr>) (a @ [y]) 0"
      using links_end [OF r(1,2)] by blast
    let ?q = "q\<lparr>ents := (ents q)(y \<mapsto> f\<lparr>next_entry := 0\<rparr>), tail := y, count := count q - 1\<rparr>"
    have "count q \<noteq> 1" using count_one [OF assms(1)] ns snoc by simp
    then have dq: "dequeue q = Some (x, ?q)" using f(1,2) r(3) by (simp add: dequeue_def Let_def)
    have "links ?q (a @ [y]) 0" by (rule links_other [OF f(3)]) simp
    then have "rep ?q (a @ [y])"
      using r assms(1) ns snoc by (cases a) (simp_all add: rep_def)
    moreover have "data_of ?q = data_of q" using f(2) by (auto simp: data_of_def fun_eq_iff)
    moreover have "\<forall>m. ents ?q m = None \<longleftrightarrow> ents q m = None" using f(2) by auto
    ultimately show ?thesis using dq ns snoc by (simp add: butlast_append)
  qed
qed

lemma find_thread_links:
  "links q ns p \<Longrightarrow> find_thread q t (case ns of [] \<Rightarrow> 0 | n # _ \<Rightarrow> n) = Some (\<exists>n \<in> set ns. thread_id (data_of q n) = t)"
proof (induction ns arbitrary: p)
  case Nil
  show ?case by (simp add: find_thread.simps)
next
  case (Cons n ns)
  then obtain d where "n \<noteq> 0" "ents q n = Some \<lparr>payload = d, next_entry = (case ns of [] \<Rightarrow> 0 | m # _ \<Rightarrow> m), prev_entry = p\<rparr>"
    by auto
  moreover have "find_thread q t (case ns of [] \<Rightarrow> 0 | m # _ \<Rightarrow> m) = Some (\<exists>n \<in> set ns. thread_id (data_of q n) = t)"
    using Cons.IH [of n] Cons.prems by simp
  ultimately show ?case by (simp add: find_thread.simps [of q t n] data_of_def)
qed

section \<open>The contract of a queue\<close>

text \<open>
  What the search relies on: \<open>enq\<close> of a node that is \<open>free\<close> puts it in front, \<open>deq\<close> takes the
  last one.  Both leave what the other free nodes are.
\<close>

locale fifo_queue =
  fixes represents :: "'q \<Rightarrow> 'a list \<Rightarrow> bool"
    and free :: "'a \<Rightarrow> 'q \<Rightarrow> bool"
    and key :: "'a \<Rightarrow> nat"
    and enq :: "'a \<Rightarrow> 'q \<Rightarrow> 'q option"
    and deq :: "'q \<Rightarrow> ('a \<times> 'q) option"
    and capacity :: nat
  assumes enq_law: "represents q xs \<Longrightarrow> free a q \<Longrightarrow> key a \<notin> key ` set xs \<Longrightarrow> length xs + 1 < capacity \<Longrightarrow>
      \<exists>q'. enq a q = Some q' \<and> represents q' (a # xs) \<and> (\<forall>b. free b q \<longrightarrow> key b \<noteq> key a \<longrightarrow> free b q')"
    and deq_law: "represents q xs \<Longrightarrow> xs \<noteq> [] \<Longrightarrow>
      \<exists>q'. deq q = Some (last xs, q') \<and> represents q' (butlast xs) \<and> (\<forall>b. free b q \<longrightarrow> free b q')"
begin

fun enq_all :: "'a list \<Rightarrow> 'q \<Rightarrow> 'q option" where
  "enq_all [] q = Some q"
| "enq_all (a # as) q = (case enq a q of None \<Rightarrow> None | Some q' \<Rightarrow> enq_all as q')"

fun deq_n :: "nat \<Rightarrow> 'q \<Rightarrow> ('a list \<times> 'q) option" where
  "deq_n 0 q = Some ([], q)"
| "deq_n (Suc n) q =
     (case deq q of None \<Rightarrow> None
      | Some (a, q') \<Rightarrow> (case deq_n n q' of None \<Rightarrow> None | Some (as, q'') \<Rightarrow> Some (a # as, q'')))"

lemma enq_all_rep:
  assumes "represents q xs" "\<forall>a \<in> set as. free a q" "distinct (map key (as @ xs))" "length xs + length as < capacity"
  shows "\<exists>q'. enq_all as q = Some q' \<and> represents q' (rev as @ xs)"
  using assms
proof (induction as arbitrary: q xs)
  case (Cons a as)
  obtain q' where q': "enq a q = Some q'" "represents q' (a # xs)" "\<forall>b. free b q \<longrightarrow> key b \<noteq> key a \<longrightarrow> free b q'"
    using enq_law [of q xs a] Cons.prems by auto
  have "free b q'" if "b \<in> set as" for b
  proof -
    have "key b \<noteq> key a" using Cons.prems(3) that by (auto simp: image_iff)
    then show ?thesis using q'(3) Cons.prems(2) that by simp
  qed
  moreover have "distinct (map key (as @ a # xs))" using Cons.prems(3) by auto
  ultimately show ?case using Cons.IH [OF q'(2)] Cons.prems(4) q'(1) by simp
qed simp

lemma deq_n_rep:
  "represents q xs \<Longrightarrow> n \<le> length xs \<Longrightarrow>
   \<exists>q'. deq_n n q = Some (take n (rev xs), q') \<and> represents q' (take (length xs - n) xs)"
proof (induction n arbitrary: q xs)
  case (Suc n)
  then obtain ys x where xs: "xs = ys @ [x]" by (cases xs rule: rev_cases) auto
  obtain q' where q': "deq q = Some (x, q')" "represents q' ys"
    using deq_law [OF Suc.prems(1)] xs by auto
  then show ?case using Suc.IH [OF q'(2)] Suc.prems(2) xs by auto
qed simp

text \<open>First in, first out.\<close>

lemma fifo:
  assumes "represents q []" "\<forall>a \<in> set as. free a q" "distinct (map key as)" "length as < capacity"
  shows "\<exists>q' q''. enq_all as q = Some q' \<and> deq_n (length as) q' = Some (as, q'') \<and> represents q'' []"
proof -
  obtain q' where q': "enq_all as q = Some q'" "represents q' (rev as)"
    using enq_all_rep [OF assms(1,2)] assms(3,4) by auto
  then show ?thesis using deq_n_rep [OF q'(2), of "length as"] by auto
qed

end

text \<open>The directory queue: its elements are addresses with the names stored there.\<close>

definition dir_rep :: "dir_queue_t \<Rightarrow> (nat \<times> dir_data) list \<Rightarrow> bool" where
  "dir_rep q xs \<longleftrightarrow> rep q (map fst xs) \<and> (\<forall>(n, d) \<in> set xs. data_of q n = d)"

definition dir_free :: "nat \<times> dir_data \<Rightarrow> dir_queue_t \<Rightarrow> bool" where
  "dir_free a q \<longleftrightarrow> fst a \<noteq> 0 \<and> ents q (fst a) = None"

definition dir_deq :: "dir_queue_t \<Rightarrow> ((nat \<times> dir_data) \<times> dir_queue_t) option" where
  "dir_deq q = (case dequeue q of None \<Rightarrow> None | Some (n, q') \<Rightarrow> Some ((n, data_of q' n), q'))"

lemma dir_enqueue_rep:
  assumes "dir_rep q xs" "n \<noteq> 0" "ents q n = None" "length xs + 1 < 2 ^ 32"
  shows "\<exists>q'. dir_enqueue n d q = Some q' \<and> dir_rep q' ((n, d) # xs) \<and>
    (\<forall>m. m \<noteq> n \<longrightarrow> (ents q' m = None \<longleftrightarrow> ents q m = None))"
proof -
  let ?q = "q\<lparr>ents := (ents q)(n \<mapsto> \<lparr>payload = d, next_entry = 0, prev_entry = 0\<rparr>)\<rparr>"
  have r: "rep q (map fst xs)" and dt: "\<forall>(n, d) \<in> set xs. data_of q n = d" using assms(1) by (auto simp: dir_rep_def)
  have n: "n \<notin> set (map fst xs)" using r assms(3) links_ents unfolding rep_def by metis
  have "links ?q (map fst xs) 0" by (rule links_other [of q]) (use r n in \<open>auto simp: rep_def\<close>)
  then have "rep ?q (map fst xs)" using r by (simp add: rep_def)
  then obtain q' where q': "link_head n ?q = Some q'" "rep q' (n # map fst xs)" "data_of q' = data_of ?q"
      "\<forall>m. ents q' m = None \<longleftrightarrow> ents ?q m = None"
    using link_head_rep [of ?q "map fst xs" n] n assms(2,4) by auto
  have "data_of q' m = (if m = n then d else data_of q m)" for m unfolding q'(3) by (simp add: data_of_def)
  moreover have "\<forall>(m, c) \<in> set xs. m \<noteq> n" using n by force
  ultimately have "dir_rep q' ((n, d) # xs)" using q'(2) dt by (auto simp: dir_rep_def)
  then show ?thesis using q'(1,4) by (auto simp: dir_enqueue_def)
qed

lemma dir_dequeue_rep:
  assumes "dir_rep q xs" "xs \<noteq> []"
  shows "\<exists>q'. dir_deq q = Some (last xs, q') \<and> dir_rep q' (butlast xs) \<and> (\<forall>m. ents q' m = None \<longleftrightarrow> ents q m = None)"
proof -
  obtain ys n d where xs: "xs = ys @ [(n, d)]" using assms(2) by (cases xs rule: rev_cases) auto
  have r: "rep q (map fst xs)" and dt: "\<forall>(n, d) \<in> set xs. data_of q n = d" using assms(1) by (auto simp: dir_rep_def)
  obtain q' where q': "dequeue q = Some (n, q')" "rep q' (map fst ys)" "data_of q' = data_of q"
      "\<forall>m. ents q' m = None \<longleftrightarrow> ents q m = None"
    using dequeue_rep [OF r] xs by auto
  then show ?thesis using dt xs by (auto simp: dir_deq_def dir_rep_def)
qed

interpretation dirq: fifo_queue dir_rep dir_free fst "\<lambda>(n, d). dir_enqueue n d" dir_deq "2 ^ 32"
proof unfold_locales
  fix q xs a
  assume a0: "dir_rep q xs" "dir_free a q" "fst a \<notin> fst ` set xs" "length xs + 1 < 2 ^ 32"
  note a = a0(1,2,4)
  obtain n d where nd: "a = (n, d)" by (cases a) auto
  have n: "n \<noteq> 0" "ents q n = None" using a(2) nd by (simp_all add: dir_free_def)
  obtain q' where "dir_enqueue n d q = Some q'" "dir_rep q' ((n, d) # xs)"
      "\<forall>m. m \<noteq> n \<longrightarrow> (ents q' m = None \<longleftrightarrow> ents q m = None)"
    using dir_enqueue_rep [OF a(1) n a(3), of d] by blast
  then show "\<exists>q'. (case a of (n, d) \<Rightarrow> dir_enqueue n d) q = Some q' \<and> dir_rep q' (a # xs) \<and>
      (\<forall>b. dir_free b q \<longrightarrow> fst b \<noteq> fst a \<longrightarrow> dir_free b q')"
    using nd by (auto simp: dir_free_def)
next
  fix q xs
  assume "dir_rep q xs" "xs \<noteq> []"
  then show "\<exists>q'. dir_deq q = Some (last xs, q') \<and> dir_rep q' (butlast xs) \<and> (\<forall>b. dir_free b q \<longrightarrow> dir_free b q')"
    using dir_dequeue_rep [of q xs] by (auto simp: dir_free_def)
qed

text \<open>The thread queue: its elements are addresses with the number of the thread.\<close>

definition thread_rep :: "thread_queue_t \<Rightarrow> (nat \<times> nat) list \<Rightarrow> bool" where
  "thread_rep q xs \<longleftrightarrow> rep q (map fst xs) \<and>
     (\<forall>(n, t) \<in> set xs. thread_id (data_of q n) = t \<and> dir_to_handle (data_of q n) = None)"

definition thread_free :: "nat \<times> nat \<Rightarrow> thread_queue_t \<Rightarrow> bool" where
  "thread_free a q \<longleftrightarrow> fst a \<noteq> 0 \<and> ents q (fst a) \<noteq> None \<and> thread_id (data_of q (fst a)) = snd a"

definition thread_deq :: "thread_queue_t \<Rightarrow> ((nat \<times> nat) \<times> thread_queue_t) option" where
  "thread_deq q = (case dequeue q of None \<Rightarrow> None | Some (n, q') \<Rightarrow> Some ((n, thread_id (data_of q' n)), q'))"

lemma thread_enqueue_rep:
  assumes "thread_rep q xs" "n \<noteq> 0" "ents q n \<noteq> None" "n \<notin> fst ` set xs" "length xs + 1 < 2 ^ 32"
  shows "\<exists>q'. thread_enqueue n q = Some q' \<and> thread_rep q' ((n, thread_id (data_of q n)) # xs) \<and>
    (\<forall>m. ents q' m = None \<longleftrightarrow> ents q m = None) \<and> (\<forall>m. thread_id (data_of q' m) = thread_id (data_of q m))"
proof -
  obtain e where e: "ents q n = Some e" using assms(3) by blast
  let ?q = "q\<lparr>ents := (ents q)(n \<mapsto> e\<lparr>payload := (payload e)\<lparr>dir_to_handle := None\<rparr>\<rparr>)\<rparr>"
  have r: "rep q (map fst xs)"
    and dt: "\<forall>(n, t) \<in> set xs. thread_id (data_of q n) = t \<and> dir_to_handle (data_of q n) = None"
    using assms(1) by (auto simp: thread_rep_def)
  have "links ?q (map fst xs) 0" by (rule links_other [of q]) (use r assms(4) in \<open>auto simp: rep_def\<close>)
  then have "rep ?q (map fst xs)" using r by (simp add: rep_def)
  then obtain q' where q': "link_head n ?q = Some q'" "rep q' (n # map fst xs)" "data_of q' = data_of ?q"
      "\<forall>m. ents q' m = None \<longleftrightarrow> ents ?q m = None"
    using link_head_rep [of ?q "map fst xs" n] assms(2,4,5) by auto
  have d: "data_of q' m = (if m = n then (data_of q n)\<lparr>dir_to_handle := None\<rparr> else data_of q m)" for m
    unfolding q'(3) by (simp add: data_of_def e)
  moreover have "\<forall>(m, c) \<in> set xs. m \<noteq> n" using assms(4) by force
  ultimately have "thread_rep q' ((n, thread_id (data_of q n)) # xs)"
    using q'(2) dt by (auto simp: thread_rep_def)
  moreover have "thread_enqueue n q = Some q'" using q'(1) by (simp add: thread_enqueue_def e)
  ultimately show ?thesis using q'(4) d e by auto
qed

lemma thread_dequeue_rep:
  assumes "thread_rep q xs" "xs \<noteq> []"
  shows "\<exists>q'. thread_deq q = Some (last xs, q') \<and> thread_rep q' (butlast xs) \<and> data_of q' = data_of q \<and>
    (\<forall>m. ents q' m = None \<longleftrightarrow> ents q m = None)"
proof -
  obtain ys n t where xs: "xs = ys @ [(n, t)]" using assms(2) by (cases xs rule: rev_cases) auto
  have r: "rep q (map fst xs)"
    and dt: "\<forall>(n, t) \<in> set xs. thread_id (data_of q n) = t \<and> dir_to_handle (data_of q n) = None"
    using assms(1) by (auto simp: thread_rep_def)
  obtain q' where q': "dequeue q = Some (n, q')" "rep q' (map fst ys)" "data_of q' = data_of q"
      "\<forall>m. ents q' m = None \<longleftrightarrow> ents q m = None"
    using dequeue_rep [OF r] xs by auto
  then show ?thesis using dt xs by (auto simp: thread_deq_def thread_rep_def)
qed

interpretation threadq: fifo_queue thread_rep thread_free fst "\<lambda>(n, t). thread_enqueue n" thread_deq "2 ^ 32"
proof unfold_locales
  fix q xs a
  assume a: "thread_rep q xs" "thread_free a q" "fst a \<notin> fst ` set xs" "length xs + 1 < 2 ^ 32"
  obtain n t where nt: "a = (n, t)" by (cases a) auto
  have n: "n \<noteq> 0" "ents q n \<noteq> None" "n \<notin> fst ` set xs" "thread_id (data_of q n) = t"
    using a(2,3) nt by (simp_all add: thread_free_def)
  obtain q' where "thread_enqueue n q = Some q'" "thread_rep q' ((n, t) # xs)"
      "\<forall>m. ents q' m = None \<longleftrightarrow> ents q m = None" "\<forall>m. thread_id (data_of q' m) = thread_id (data_of q m)"
    using thread_enqueue_rep [OF a(1) n(1-3) a(4)] n(4) by auto
  then show "\<exists>q'. (case a of (n, t) \<Rightarrow> thread_enqueue n) q = Some q' \<and> thread_rep q' (a # xs) \<and>
      (\<forall>b. thread_free b q \<longrightarrow> fst b \<noteq> fst a \<longrightarrow> thread_free b q')"
    using nt by (simp add: thread_free_def del: not_None_eq)
next
  fix q xs
  assume "thread_rep q xs" "xs \<noteq> []"
  then show "\<exists>q'. thread_deq q = Some (last xs, q') \<and> thread_rep q' (butlast xs) \<and>
      (\<forall>b. thread_free b q \<longrightarrow> thread_free b q')"
    using thread_dequeue_rep [of q xs] unfolding thread_free_def by metis
qed

lemma is_thread_in_queue_rep:
  assumes "thread_rep q xs"
  shows "is_thread_in_queue q t = Some (t \<in> snd ` set xs)"
proof -
  have "rep q (map fst xs)" using assms by (simp add: thread_rep_def)
  then have "is_thread_in_queue q t = Some (\<exists>n \<in> set (map fst xs). thread_id (data_of q n) = t)"
    using find_thread_links [of q "map fst xs" 0 t] by (simp add: is_thread_in_queue_def rep_def)
  moreover have "(\<exists>n \<in> set (map fst xs). thread_id (data_of q n) = t) \<longleftrightarrow> t \<in> snd ` set xs"
    using assms by (force simp: thread_rep_def)
  ultimately show ?thesis by simp
qed

lemma queue_init_rep: "dir_rep (queue_init q) []" "thread_rep (queue_init p) []"
  by (simp_all add: queue_init_def dir_rep_def thread_rep_def rep_def)

lemma is_queue_empty_rep: "rep q ns \<Longrightarrow> is_queue_empty q \<longleftrightarrow> ns = []"
  by (simp add: is_queue_empty_def count_zero)

section \<open>The queues of the search\<close>

text \<open>Directories and idle threads are served in the order in which they came.\<close>

lemma dir_queue_fifo:
  assumes "\<forall>a \<in> set ds. dir_free a (queue_init q)" "distinct (map fst ds)" "length ds < 2 ^ 32"
  shows "\<exists>q' q''. dirq.enq_all ds (queue_init q) = Some q' \<and> dirq.deq_n (length ds) q' = Some (ds, q'') \<and> dir_rep q'' []"
  by (rule dirq.fifo [OF queue_init_rep(1) assms])

lemma thread_queue_fifo:
  assumes "\<forall>a \<in> set ts. thread_free a (queue_init q)" "distinct (map fst ts)" "length ts < 2 ^ 32"
  shows "\<exists>q' q''. threadq.enq_all ts (queue_init q) = Some q' \<and> threadq.deq_n (length ts) q' = Some (ts, q'') \<and>
    thread_rep q'' []"
  by (rule threadq.fifo [OF queue_init_rep(2) assms])

text \<open>Claim C13.  The doubly linked lists refine lists: enqueueing puts an element in front, dequeueing
  removes the last one, without touching unallocated memory, \<open>is_thread_in_queue\<close> is membership
  and the emptiness tests are those of the lists, as long as a queue has fewer than \<open>2^32\<close> entries.\<close>

theorem queues_refine_lists:
  assumes "dir_rep q xs" "dir_free (n, d) q" "length xs + 1 < 2 ^ 32"
    "thread_rep p ys" "thread_free (m, t) p" "m \<notin> fst ` set ys" "length ys + 1 < 2 ^ 32"
  shows "(\<exists>q'. dir_enqueue n d q = Some q' \<and> dir_rep q' ((n, d) # xs)) \<and>
    (xs \<noteq> [] \<longrightarrow> (\<exists>q'. dequeue q = Some (fst (last xs), q') \<and> dir_rep q' (butlast xs) \<and> (fst (last xs), data_of q' (fst (last xs))) = last xs)) \<and>
    (is_queue_empty q \<longleftrightarrow> xs = []) \<and>
    (\<exists>p'. thread_enqueue m p = Some p' \<and> thread_rep p' ((m, t) # ys)) \<and>
    (ys \<noteq> [] \<longrightarrow> (\<exists>p'. dequeue p = Some (fst (last ys), p') \<and> thread_rep p' (butlast ys))) \<and>
    (is_queue_empty p \<longleftrightarrow> ys = []) \<and>
    is_thread_in_queue p k = Some (k \<in> snd ` set ys)"
proof (intro conjI impI)
  have "fst (n, d) \<notin> fst ` set xs"
    using assms(1,2) links_ents [of q "map fst xs" 0 n] by (auto simp: dir_rep_def rep_def dir_free_def)
  then show "\<exists>q'. dir_enqueue n d q = Some q' \<and> dir_rep q' ((n, d) # xs)"
    using dirq.enq_law [OF assms(1,2) _ assms(3)] by auto
  show "is_queue_empty q \<longleftrightarrow> xs = []" using assms(1) is_queue_empty_rep [of q "map fst xs"] by (simp add: dir_rep_def)
  show "is_queue_empty p \<longleftrightarrow> ys = []" using assms(4) is_queue_empty_rep [of p "map fst ys"] by (simp add: thread_rep_def)
  show "\<exists>p'. thread_enqueue m p = Some p' \<and> thread_rep p' ((m, t) # ys)"
    using threadq.enq_law [OF assms(4,5) _ assms(7)] assms(6) by auto
  show "is_thread_in_queue p k = Some (k \<in> snd ` set ys)" by (rule is_thread_in_queue_rep [OF assms(4)])
next
  assume "xs \<noteq> []"
  then show "\<exists>q'. dequeue q = Some (fst (last xs), q') \<and> dir_rep q' (butlast xs) \<and>
      (fst (last xs), data_of q' (fst (last xs))) = last xs"
    using dirq.deq_law [OF assms(1)] by (cases "last xs") (auto simp: dir_deq_def split: option.splits)
next
  assume "ys \<noteq> []"
  then show "\<exists>p'. dequeue p = Some (fst (last ys), p') \<and> thread_rep p' (butlast ys)"
    using threadq.deq_law [OF assms(4)] by (cases "last ys") (auto simp: thread_deq_def split: option.splits)
qed

definition queue0 :: "'d queue" where
  "queue0 = \<lparr>ents = (\<lambda>n. None), head = 0, tail = 0, count = 0\<rparr>"

definition threads0 :: thread_queue_t where
  "threads0 = queue0\<lparr>ents := (\<lambda>n. if n = 0 then None else
     Some \<lparr>payload = \<lparr>thread_id = n, dir_to_handle = None\<rparr>, next_entry = 0, prev_entry = 0\<rparr>)\<rparr>"

theorem queues_refine_lists_witness:
  "(\<exists>q'. dir_enqueue 4 \<lparr>path_name = ''r'', dir_name = ''r''\<rparr> queue0 = Some q' \<and>
      dir_rep q' [(4, \<lparr>path_name = ''r'', dir_name = ''r''\<rparr>)]) \<and>
   (\<exists>p'. thread_enqueue 5 threads0 = Some p' \<and> thread_rep p' [(5, 5)]) \<and>
   is_thread_in_queue threads0 5 = Some False"
proof -
  have "dir_rep queue0 []" "dir_free (4, \<lparr>path_name = ''r'', dir_name = ''r''\<rparr>) queue0"
    "thread_rep threads0 []" "thread_free (5, 5) threads0"
    by (simp_all add: dir_rep_def rep_def queue0_def dir_free_def thread_rep_def threads0_def thread_free_def data_of_def)
  from queues_refine_lists [OF this(1,2) _ this(3,4), of 5] show ?thesis by simp
qed

end
