(* ===== verification/Shell_Words.thy ===== *)
theory Shell_Words
  imports Prelude
begin

text \<open>
  The words of a command line: \<^verbatim>\<open>strtok\<close> as \<^verbatim>\<open>main\<close> of \<^verbatim>\<open>src/hw2_os/shell.c\<close> uses it, and the reference
  definition of the words of a line, that repeated calls are proved to yield.  A line is the
  string up to its terminating null.
\<close>

section \<open>Tokens\<close>

definition is_delim :: "char \<Rightarrow> bool" where
  "is_delim c \<longleftrightarrow> c \<in> {CHR '' '', CHR 0x09, CHR 0x0A}"

text \<open>The string in the buffer that \<^verbatim>\<open>getline\<close> filled.\<close>

definition c_string :: "string \<Rightarrow> string" where
  "c_string buf = takeWhile (\<lambda>c. c \<noteq> CHR 0x00) buf"

text \<open>
  \<^verbatim>\<open>strtok\<close> on what is left of the line: skip delimiters, return the token up to the next one and
  go on after that delimiter.
\<close>

definition strtok :: "string \<Rightarrow> (string \<times> string) option" where
  "strtok s =
     (let s1 = dropWhile is_delim s
      in if s1 = [] then None
         else Some (takeWhile (\<lambda>c. \<not> is_delim c) s1, drop 1 (dropWhile (\<lambda>c. \<not> is_delim c) s1)))"

lemma strtok_shorter: "strtok s = Some (w, r) \<Longrightarrow> length r < length s"
proof -
  assume a: "strtok s = Some (w, r)"
  let ?s1 = "dropWhile is_delim s"
  have "?s1 \<noteq> []" "r = drop 1 (dropWhile (\<lambda>c. \<not> is_delim c) ?s1)"
    using a by (auto simp: strtok_def Let_def split: if_splits)
  moreover have "length (dropWhile (\<lambda>c. \<not> is_delim c) ?s1) \<le> length ?s1" "length ?s1 \<le> length s"
    by (simp_all add: length_dropWhile_le)
  ultimately show "length r < length s" by (cases "?s1") auto
qed

section \<open>The words of a line\<close>

fun split_on :: "(char \<Rightarrow> bool) \<Rightarrow> string \<Rightarrow> string list" where
  "split_on d [] = [[]]"
| "split_on d (c # cs) =
     (if d c then [] # split_on d cs
      else (case split_on d cs of [] \<Rightarrow> [[c]] | w # ws \<Rightarrow> (c # w) # ws))"

definition words_of :: "string \<Rightarrow> string list" where
  "words_of s = filter (\<lambda>w. w \<noteq> []) (split_on is_delim s)"

lemma split_on_not_empty [simp]: "split_on d s \<noteq> []"
  by (cases s) (auto split: list.splits)

lemma split_on_delim_free:
  "\<forall>c \<in> set w. \<not> d c \<Longrightarrow> split_on d (w @ c # r) = (if d c then w # split_on d r else split_on d (w @ c # r))"
  by (induction w) (auto split: list.splits)

lemma split_on_word: "\<forall>c \<in> set w. \<not> d c \<Longrightarrow> split_on d w = [w]"
  by (induction w) auto

lemma words_of_skip: "words_of (dropWhile is_delim s) = words_of s"
  by (induction s) (auto simp: words_of_def)

lemma strtok_None:
  assumes "strtok s = None"
  shows "words_of s = []"
proof -
  have "dropWhile is_delim s = []" using assms unfolding strtok_def Let_def by (metis option.distinct(1))
  then have "words_of s = words_of []" using words_of_skip [of s] by argo
  then show ?thesis by (simp add: words_of_def)
qed

lemma strtok_Some:
  assumes "strtok s = Some (w, r)"
  shows "words_of s = w # words_of r" "w \<noteq> []"
proof -
  let ?s1 = "dropWhile is_delim s" and ?d = "\<lambda>c. \<not> is_delim c"
  have ne: "?s1 \<noteq> []" and w: "w = takeWhile ?d ?s1" and r: "r = drop 1 (dropWhile ?d ?s1)"
    using assms by (auto simp: strtok_def Let_def split: if_splits)
  have "\<not> is_delim (hd ?s1)" using ne by (rule hd_dropWhile)
  then show wne: "w \<noteq> []" using ne w by (cases ?s1) auto
  have free: "\<forall>c \<in> set w. \<not> is_delim c" unfolding w by (blast dest: set_takeWhileD)
  have s1: "?s1 = w @ dropWhile ?d ?s1" unfolding w by simp
  have "words_of ?s1 = w # words_of r"
  proof (cases "dropWhile ?d ?s1")
    case Nil
    then have "?s1 = w" using s1 by (metis append_Nil2)
    moreover have "r = []" unfolding r Nil by simp
    moreover have "words_of w = [w]" using wne by (simp add: words_of_def split_on_word [OF free])
    ultimately show ?thesis by (simp add: words_of_def)
  next
    case (Cons c cs)
    then have c: "is_delim c" using hd_dropWhile [of ?d ?s1] by simp
    have "?s1 = w @ c # r" using s1 r Cons by simp
    then have "split_on is_delim ?s1 = w # split_on is_delim r"
      using split_on_delim_free [OF free, of c r] c by simp
    then show ?thesis using wne by (simp add: words_of_def)
  qed
  then show "words_of s = w # words_of r" by (simp only: words_of_skip)
qed

lemma words_not_empty: "w \<in> set (words_of s) \<Longrightarrow> w \<noteq> []"
  by (simp add: words_of_def)

end
