(* ===== verification/Shell_Command.thy ===== *)
theory Shell_Command
  imports Shell_Words
begin

text \<open>
  What the shell of \<^verbatim>\<open>src/hw2_os/myshell.c\<close> does with a command line: the type of the command, the
  processes it starts with their arguments, files and treatment of SIGINT, and the memory of the
  argument list.  The waiting of the parent is the subject of \<^theory_text>\<open>Shell_Signals\<close>.
\<close>

section \<open>Processes\<close>

datatype disposition = Default | Ignore | Caught

datatype open_file_t = Terminal nat | Pipe_read | Pipe_write | Regular string

record process =
  fds :: "nat \<Rightarrow> open_file_t option"
  on_sigint :: disposition

text \<open>What becomes of a child: it runs a program, exits, or dies of an invalid access.\<close>

datatype outcome = Execs "string list" process | Child_exit int | Child_killed

text \<open>
  The answers of the system.  \<open>al n B\<close> is the block returned for the n-th allocation request when
  the blocks of \<open>B\<close> are in use; it is not one of them.
\<close>

record env =
  al :: "nat \<Rightarrow> nat set \<Rightarrow> nat option"
  fork_ok :: "nat \<Rightarrow> bool"
  pipe_fds :: "(nat \<times> nat) option"
  exec_ok :: "string \<Rightarrow> bool"
  open_file :: "string \<Rightarrow> nat option"
  dup2_ok :: "nat \<Rightarrow> bool"

definition STDIN_FD :: nat where
  "STDIN_FD = 0"

definition STDOUT_FD :: nat where
  "STDOUT_FD = 1"

text \<open>
  A successful \<^verbatim>\<open>execvp\<close> keeps the open files and turns caught signals to their default; the
  program sees the arguments up to the first null pointer.
\<close>

definition execvp :: "env \<Rightarrow> string option list \<Rightarrow> process \<Rightarrow> outcome" where
  "execvp e arglist p =
     (case map the (takeWhile (\<lambda>a. a \<noteq> None) arglist) of
        [] \<Rightarrow> Child_killed
      | f # args \<Rightarrow>
          if exec_ok e f
          then Execs (f # args) (p\<lparr>on_sigint := (if on_sigint p = Caught then Default else on_sigint p)\<rparr>)
          else Child_exit 1)"

definition close_fd :: "nat \<Rightarrow> process \<Rightarrow> process" where
  "close_fd n p = p\<lparr>fds := (fds p)(n := None)\<rparr>"

definition dup_fd :: "nat \<Rightarrow> nat \<Rightarrow> process \<Rightarrow> process" where
  "dup_fd a b p = p\<lparr>fds := (fds p)(b := fds p a)\<rparr>"

definition alloc_ok :: "env \<Rightarrow> bool" where
  "alloc_ok e \<longleftrightarrow> (\<forall>n B b. al e n B = Some b \<longrightarrow> b \<notin> B)"

section \<open>Commands\<close>

datatype command_type = FOREGROUND | BACKGROUND | PIPE | REDIRECT

text \<open>\<^verbatim>\<open>arglist[i][0]\<close>, the terminating null for an empty word.\<close>

definition first_char :: "string \<Rightarrow> char" where
  "first_char w = (case w of [] \<Rightarrow> CHR 0x00 | c # cs \<Rightarrow> c)"

fun find_from :: "nat \<Rightarrow> string list \<Rightarrow> command_type \<times> int" where
  "find_from i [] = (FOREGROUND, - 1)"
| "find_from i (w # ws) =
     (if first_char w = CHR ''|'' then (PIPE, int i)
      else if first_char w = CHR ''>'' then (REDIRECT, int i)
      else if first_char w = CHR ''&'' then (BACKGROUND, int i)
      else find_from (Suc i) ws)"

definition find_command_type :: "string list \<Rightarrow> command_type \<times> int" where
  "find_command_type ws = find_from 0 ws"

section \<open>The state of the shell\<close>

record shell =
  blocks :: "nat set"            \<comment> \<open>allocated blocks\<close>
  reqs :: nat                    \<comment> \<open>allocation requests so far\<close>
  forks :: nat                   \<comment> \<open>forks so far\<close>
  shell_fds :: "nat \<Rightarrow> open_file_t option"   \<comment> \<open>the open files of the shell itself\<close>
  children :: "outcome list"     \<comment> \<open>history: the processes started\<close>

datatype stop = Exit int | Bad_block   \<comment> \<open>use of a block that is not allocated\<close>

definition malloc :: "env \<Rightarrow> shell \<Rightarrow> nat option \<times> shell" where
  "malloc e s =
     (let s1 = s\<lparr>reqs := reqs s + 1\<rparr>
      in case al e (reqs s) (blocks s) of None \<Rightarrow> (None, s1) | Some b \<Rightarrow> (Some b, s1\<lparr>blocks := insert b (blocks s)\<rparr>))"

definition realloc :: "env \<Rightarrow> nat \<Rightarrow> shell \<Rightarrow> stop + (nat option \<times> shell)" where
  "realloc e p s =
     (if p \<notin> blocks s then Inl Bad_block
      else
        let s1 = s\<lparr>reqs := reqs s + 1\<rparr>
        in case al e (reqs s) (blocks s - {p}) of
             None \<Rightarrow> Inr (None, s1)
           | Some b \<Rightarrow> Inr (Some b, s1\<lparr>blocks := insert b (blocks s - {p})\<rparr>))"

definition free_block :: "nat \<Rightarrow> shell \<Rightarrow> stop + shell" where
  "free_block p s = (if p \<notin> blocks s then Inl Bad_block else Inr (s\<lparr>blocks := blocks s - {p}\<rparr>))"

text \<open>A new process: it inherits the open files of the shell and its handler for SIGINT.\<close>

definition shell_process :: "shell \<Rightarrow> process" where
  "shell_process s = \<lparr>fds = shell_fds s, on_sigint = Caught\<rparr>"

definition shell_close :: "nat \<Rightarrow> shell \<Rightarrow> shell" where
  "shell_close n s = s\<lparr>shell_fds := (shell_fds s)(n := None)\<rparr>"

text \<open>\<^verbatim>\<open>fork\<close>: the child is described by what it does; a failing fork makes the shell exit.\<close>

definition fork :: "env \<Rightarrow> outcome \<Rightarrow> shell \<Rightarrow> stop + shell" where
  "fork e child s =
     (if fork_ok e (forks s) then Inr (s\<lparr>forks := forks s + 1, children := children s @ [child]\<rparr>)
      else Inl (Exit 1))"

section \<open>The four kinds of commands\<close>

definition handle_foreground :: "env \<Rightarrow> string option list \<Rightarrow> shell \<Rightarrow> stop + shell" where
  "handle_foreground e arglist s = fork e (execvp e arglist ((shell_process s)\<lparr>on_sigint := Default\<rparr>)) s"

text \<open>The argument list is the block \<open>p\<close>; the last word is dropped.\<close>

definition handle_background :: "env \<Rightarrow> nat \<Rightarrow> nat \<Rightarrow> string option list \<Rightarrow> shell \<Rightarrow> stop + shell" where
  "handle_background e count p arglist s =
     bindE (realloc e p s) (\<lambda>(q, s1).
       case q of
         None \<Rightarrow> Inl (Exit 1)
       | Some b \<Rightarrow>
           fork e (execvp e ((take count arglist)[count - 1 := None]) ((shell_process s1)\<lparr>on_sigint := Ignore\<rparr>)) s1)"

text \<open>The two ends of the pipe are open in the shell when the children start, which close one each; the
  shell closes both before it waits.\<close>

definition writer_child :: "env \<Rightarrow> nat \<Rightarrow> nat \<Rightarrow> nat \<Rightarrow> string option list \<Rightarrow> shell \<Rightarrow> outcome" where
  "writer_child e r w pipe_loc arglist s =
     (if \<not> dup2_ok e w then Child_exit 1
      else execvp e (arglist[pipe_loc := None]) (dup_fd w STDOUT_FD (close_fd r (shell_process s))))"

definition reader_child :: "env \<Rightarrow> nat \<Rightarrow> nat \<Rightarrow> nat \<Rightarrow> string option list \<Rightarrow> shell \<Rightarrow> outcome" where
  "reader_child e r w pipe_loc arglist s =
     (if \<not> dup2_ok e r then Child_exit 1
      else execvp e (drop (pipe_loc + 1) arglist) (dup_fd r STDIN_FD (close_fd w (shell_process s))))"

definition handle_pipe :: "env \<Rightarrow> nat \<Rightarrow> string option list \<Rightarrow> shell \<Rightarrow> stop + shell" where
  "handle_pipe e pipe_loc arglist s =
     (case pipe_fds e of
        None \<Rightarrow> Inl (Exit 1)
      | Some (r, w) \<Rightarrow>
          let s0 = s\<lparr>shell_fds := (shell_fds s)(r \<mapsto> Pipe_read, w \<mapsto> Pipe_write)\<rparr>
          in bindE (fork e (writer_child e r w pipe_loc arglist s0) s0) (\<lambda>s1.
             bindE (fork e (reader_child e r w pipe_loc arglist s1) s1) (\<lambda>s2.
             Inr (shell_close w (shell_close r s2)))))"

definition redirect_child :: "env \<Rightarrow> nat \<Rightarrow> string option list \<Rightarrow> shell \<Rightarrow> outcome" where
  "redirect_child e redirect_loc arglist s =
     (case arglist ! (redirect_loc + 1) of
        None \<Rightarrow> Child_exit 1
      | Some redirect_filename \<Rightarrow>
          (case open_file e redirect_filename of
             None \<Rightarrow> Child_exit 1
           | Some fd \<Rightarrow>
               if \<not> dup2_ok e fd then Child_exit 1
               else
                 let p = (shell_process s)\<lparr>fds := (shell_fds s)(fd \<mapsto> Regular redirect_filename)\<rparr>
                 in execvp e (arglist[redirect_loc := None]) (close_fd fd (dup_fd fd STDOUT_FD p))))"

definition handle_redirect :: "env \<Rightarrow> nat \<Rightarrow> string option list \<Rightarrow> shell \<Rightarrow> stop + shell" where
  "handle_redirect e redirect_loc arglist s = fork e (redirect_child e redirect_loc arglist s) s"

text \<open>All handlers return 1.  The argument list of \<open>ws\<close> has a null pointer at its end.\<close>

definition process_arglist :: "env \<Rightarrow> nat \<Rightarrow> string list \<Rightarrow> shell \<Rightarrow> stop + (int \<times> shell)" where
  "process_arglist e p ws s =
     (let arglist = map Some ws @ [None];
          (type, loc) = find_command_type ws
      in bindE
           (case type of
              FOREGROUND \<Rightarrow> handle_foreground e arglist s
            | BACKGROUND \<Rightarrow> handle_background e (length ws) p arglist s
            | PIPE \<Rightarrow> handle_pipe e (nat loc) arglist s
            | REDIRECT \<Rightarrow> handle_redirect e (nat loc) arglist s)
           (\<lambda>s1. Inr (1, s1)))"

section \<open>The loop of the shell\<close>

text \<open>
  Collecting the words: \<open>ws\<close> are the entries of \<^verbatim>\<open>arglist\<close> before \<^verbatim>\<open>arglist[count]\<close>, \<open>tok\<close> is that
  entry, \<open>p\<close> the block of the list and \<open>rest\<close> what \<^verbatim>\<open>strtok\<close> has still to split.
\<close>

function collect ::
  "env \<Rightarrow> nat \<Rightarrow> string list \<Rightarrow> string option \<Rightarrow> string \<Rightarrow> shell \<Rightarrow> stop + (nat \<times> string list \<times> shell)" where
  "collect e p ws None rest s = Inr (p, ws, s)"
| "collect e p ws (Some w) rest s =
     (case realloc e p s of
        Inl x \<Rightarrow> Inl x
      | Inr (None, s1) \<Rightarrow> Inl (Exit 1)
      | Inr (Some b, s1) \<Rightarrow>
          (case strtok rest of
             None \<Rightarrow> collect e b (ws @ [w]) None rest s1
           | Some (w', r) \<Rightarrow> collect e b (ws @ [w]) (Some w') r s1))"
  by pat_completeness auto
termination
  by (relation "measure (\<lambda>(e, p, ws, tok, rest, s). 2 * length rest + (if tok = None then 0 else 1))")
    (auto dest!: strtok_shorter)

definition read_command :: "env \<Rightarrow> string \<Rightarrow> shell \<Rightarrow> stop + (nat \<times> string list \<times> shell)" where
  "read_command e buf s =
     (case malloc e s of
        (None, s1) \<Rightarrow> Inl (Exit 1)
      | (Some p, s1) \<Rightarrow>
          (case strtok (c_string buf) of
             None \<Rightarrow> collect e p [] None (c_string buf) s1
           | Some (w, r) \<Rightarrow> collect e p [] (Some w) r s1))"

text \<open>One turn of the loop for the line \<open>buf\<close>; \<^const>\<open>False\<close> when the shell leaves the loop.\<close>

definition main_iteration :: "env \<Rightarrow> string \<Rightarrow> shell \<Rightarrow> stop + (bool \<times> shell)" where
  "main_iteration e buf s =
     (case malloc e s of
        (None, s1) \<Rightarrow> Inr (False, s1)
      | (Some line, s1) \<Rightarrow>
          bindE (read_command e buf s1) (\<lambda>(p, ws, s2).
          bindE (if ws = [] then Inr (1, s2) else process_arglist e p ws s2) (\<lambda>(result, s3).
          bindE (free_block line s3) (\<lambda>s4.
          bindE (free_block p s4) (\<lambda>s5. Inr (result \<noteq> 0, s5))))))"

text \<open>The last line is followed by the end of the input.\<close>

fun main_loop :: "env \<Rightarrow> string list \<Rightarrow> shell \<Rightarrow> stop + shell" where
  "main_loop e [] s =
     (case malloc e s of (None, s1) \<Rightarrow> Inr s1 | (Some line, s1) \<Rightarrow> free_block line s1)"
| "main_loop e (l # ls) s =
     bindE (main_iteration e l s) (\<lambda>(more, s1). if more then main_loop e ls s1 else Inr s1)"

definition finalize :: int where
  "finalize = 0"

definition shell_main :: "env \<Rightarrow> int \<Rightarrow> string list \<Rightarrow> shell \<Rightarrow> stop + (int \<times> shell)" where
  "shell_main e prepared ls s =
     (if prepared \<noteq> 0 then Inl (Exit 1)
      else bindE (main_loop e ls s) (\<lambda>s1. if finalize \<noteq> 0 then Inl (Exit 1) else Inr (0, s1)))"

section \<open>Allocation\<close>

lemma realloc_cases:
  assumes "p \<in> blocks s"
  obtains s1 where "realloc e p s = Inr (None, s1)" "blocks s1 = blocks s" "children s1 = children s" "forks s1 = forks s"
    | b s1 where "realloc e p s = Inr (Some b, s1)" "al e (reqs s) (blocks s - {p}) = Some b"
        "blocks s1 = insert b (blocks s - {p})" "children s1 = children s" "forks s1 = forks s"
  using assms by (cases "al e (reqs s) (blocks s - {p})") (auto simp: realloc_def Let_def)

lemma malloc_cases:
  obtains s1 where "malloc e s = (None, s1)" "blocks s1 = blocks s" "children s1 = children s" "forks s1 = forks s"
    | b s1 where "malloc e s = (Some b, s1)" "al e (reqs s) (blocks s) = Some b"
        "blocks s1 = insert b (blocks s)" "children s1 = children s" "forks s1 = forks s"
  by (cases "al e (reqs s) (blocks s)") (auto simp: malloc_def Let_def)

text \<open>The block of the list changes, the other blocks do not; the words are those of the line.\<close>

lemma collect_ok:
  assumes "alloc_ok e" "p \<in> blocks s"
  shows "collect e p ws tok rest s = Inl (Exit 1) \<or>
    (\<exists>q s'. collect e p ws tok rest s =
        Inr (q, ws @ (case tok of None \<Rightarrow> [] | Some w \<Rightarrow> w # words_of rest), s') \<and>
      q \<in> blocks s' \<and> blocks s' - {q} = blocks s - {p} \<and> children s' = children s \<and> forks s' = forks s)"
  using assms
proof (induction e p ws tok rest s rule: collect.induct)
  case (2 e p ws w rest s)
  from 2(4) show ?case
  proof (cases rule: realloc_cases [where e = e])
    case (2 b s1)
    note re = 2
    have b: "b \<in> blocks s1" "blocks s1 - {b} = blocks s - {p}"
      using re(2,3) "2.prems"(1) by (auto simp: alloc_ok_def)
    show ?thesis
    proof (cases "strtok rest")
      case None
      then show ?thesis using re b by (simp add: strtok_None)
    next
      case (Some x)
      then obtain w' r where x: "strtok rest = Some (w', r)" by (cases x) auto
      show ?thesis
        using "2.IH"(2) [of "(Some b, s1)" "Some b" s1 b "(w', r)" w' r] re b x "2.prems"(1)
        by (simp add: strtok_Some(1) [OF x])
    qed
  qed simp
qed auto

lemma read_command_ok:
  assumes "alloc_ok e"
  shows "read_command e buf s = Inl (Exit 1) \<or>
    (\<exists>q s'. read_command e buf s = Inr (q, words_of (c_string buf), s') \<and>
      q \<in> blocks s' \<and> blocks s' - {q} = blocks s \<and> children s' = children s \<and> forks s' = forks s)"
proof (cases rule: malloc_cases [of e s])
  case (2 p s1)
  have p: "p \<in> blocks s1" "blocks s1 - {p} = blocks s" using 2(2,3) assms by (auto simp: alloc_ok_def)
  show ?thesis
  proof (cases "strtok (c_string buf)")
    case None
    then show ?thesis using 2 p by (simp add: read_command_def strtok_None)
  next
    case (Some x)
    then obtain w r where x: "strtok (c_string buf) = Some (w, r)" by (cases x) auto
    show ?thesis
      using collect_ok [OF assms p(1), of "[]" "Some w" r] 2 p x
      by (auto simp: read_command_def strtok_Some(1) [OF x] simp del: collect.simps)
  qed
qed (simp add: read_command_def)

end
