(* ===== verification/Shell_Signals.thy ===== *)
theory Shell_Signals
  imports Prelude
begin

text \<open>
  How the shell of \<^verbatim>\<open>src/hw2_os/myshell.c\<close> waits for its children: the flags it spins on, the SIGCHLD
  handler that reaps children and clears the flags, the SIGINT handler, and the kernel's part:
  children exit or stop at any moment, SIGCHLD is pending at most once and carries the process
  that raised it first.  A step is one statement of the parent, one turn of the loop of the handler
  or one action of the system; a handler runs between any two statements.
\<close>

section \<open>State\<close>

datatype kid = Running | Stopped bool | Zombie   \<comment> \<open>\<open>Stopped True\<close>: not yet reported by \<open>waitpid\<close>\<close>

datatype spc =
    Prompt
  | Fg_flag nat             \<comment> \<open>after \<open>fork\<close>, about to set \<open>is_foreground\<close>\<close>
  | Fg_id nat               \<comment> \<open>about to set \<open>current_fg_id\<close>\<close>
  | Fg_wait nat
  | Pipe_set_writer nat     \<comment> \<open>about to set \<open>current_pipe_writer\<close>\<close>
  | Pipe_fork nat           \<comment> \<open>about to start the reader\<close>
  | Pipe_set_reader nat nat \<comment> \<open>about to set \<open>current_pipe_reader\<close>\<close>
  | Pipe_wait nat nat

text \<open>Process id 0 means none.\<close>

record sig =
  is_foreground :: bool
  current_pipe_writer :: nat
  current_pipe_reader :: nat
  current_fg_id :: nat
  kids :: "nat \<Rightarrow> kid option"
  used :: "nat list"            \<comment> \<open>history: the children started\<close>
  sigchld :: "nat option"       \<comment> \<open>the pending SIGCHLD with its \<open>si_pid\<close>\<close>
  in_handler :: bool            \<comment> \<open>in the loop of the SIGCHLD handler\<close>
  spc :: spc

definition prepare :: "sig \<Rightarrow> sig" where
  "prepare s = s\<lparr>is_foreground := False, current_fg_id := 0, current_pipe_writer := 0, current_pipe_reader := 0\<rparr>"

definition sig_init :: sig where
  "sig_init = prepare \<lparr>is_foreground = False, current_pipe_writer = 0, current_pipe_reader = 0, current_fg_id = 0,
     kids = (\<lambda>_. None), used = [], sigchld = None, in_handler = False, spc = Prompt\<rparr>"

section \<open>The handlers\<close>

definition sigint_handler :: "sig \<Rightarrow> sig" where
  "sigint_handler s = s\<lparr>is_foreground := False, current_pipe_writer := 0, current_pipe_reader := 0\<rparr>"

text \<open>The test at the start of the handler, for the signal of process \<open>si_pid\<close>.\<close>

definition sigchld_test :: "nat \<Rightarrow> sig \<Rightarrow> sig" where
  "sigchld_test si_pid s =
     (if is_foreground s \<and> si_pid = current_fg_id s then s\<lparr>is_foreground := False\<rparr> else s)"

fun reapable :: "kid option \<Rightarrow> bool" where
  "reapable (Some Zombie) = True"
| "reapable (Some (Stopped new)) = new"
| "reapable _ = False"

text \<open>One turn of the loop of the handler: \<^verbatim>\<open>waitpid\<close> returned \<open>pid\<close>.\<close>

definition sigchld_turn :: "nat \<Rightarrow> sig \<Rightarrow> sig" where
  "sigchld_turn pid s =
     (let s1 = s\<lparr>kids := (kids s)(pid := (if kids s pid = Some Zombie then None else Some (Stopped False)))\<rparr>;
          s2 = (if pid = current_pipe_writer s1 then s1\<lparr>current_pipe_writer := 0\<rparr> else s1)
      in if pid = current_pipe_reader s2 then s2\<lparr>current_pipe_reader := 0\<rparr> else s2)"

section \<open>The parent\<close>

text \<open>The statements of \<^verbatim>\<open>handle_foreground\<close>, \<^verbatim>\<open>handle_redirect\<close> and \<^verbatim>\<open>handle_pipe\<close> after a fork.\<close>

definition parent_step :: "sig \<Rightarrow> sig option" where
  "parent_step s =
     (case spc s of
        Prompt \<Rightarrow> None
      | Fg_flag p \<Rightarrow> Some (s\<lparr>is_foreground := True, spc := Fg_id p\<rparr>)
      | Fg_id p \<Rightarrow> Some (s\<lparr>current_fg_id := p, spc := Fg_wait p\<rparr>)
      | Fg_wait p \<Rightarrow> if is_foreground s then Some s else Some (s\<lparr>spc := Prompt\<rparr>)
      | Pipe_set_writer w \<Rightarrow> Some (s\<lparr>current_pipe_writer := w, spc := Pipe_fork w\<rparr>)
      | Pipe_fork w \<Rightarrow> None
      | Pipe_set_reader w r \<Rightarrow> Some (s\<lparr>current_pipe_reader := r, spc := Pipe_wait w r\<rparr>)
      | Pipe_wait w r \<Rightarrow>
          if current_pipe_reader s \<noteq> 0 \<or> current_pipe_writer s \<noteq> 0 then Some s else Some (s\<lparr>spc := Prompt\<rparr>))"

definition new_child :: "nat \<Rightarrow> spc \<Rightarrow> sig \<Rightarrow> sig" where
  "new_child p c s = s\<lparr>kids := (kids s)(p := Some Running), used := p # used s, spc := c\<rparr>"

section \<open>Runs\<close>

datatype sig_event =
    Fork_fg nat | Fork_bg nat | Fork_writer nat | Fork_reader nat
  | Parent
  | Child_exits nat | Child_stops nat
  | Deliver                 \<comment> \<open>the pending SIGCHLD starts its handler\<close>
  | Reap nat
  | Handler_return
  | Sigint

definition raise_sigchld :: "nat \<Rightarrow> sig \<Rightarrow> sig" where
  "raise_sigchld p s = (if sigchld s = None then s\<lparr>sigchld := Some p\<rparr> else s)"

text \<open>Process ids are positive and not used twice.\<close>

definition sig_step :: "sig_event \<Rightarrow> sig \<Rightarrow> sig option" where
  "sig_step ev s =
     (case ev of
        Fork_fg p \<Rightarrow>
          if spc s = Prompt \<and> \<not> in_handler s \<and> p \<noteq> 0 \<and> p \<notin> set (used s) then Some (new_child p (Fg_flag p) s) else None
      | Fork_bg p \<Rightarrow>
          if spc s = Prompt \<and> \<not> in_handler s \<and> p \<noteq> 0 \<and> p \<notin> set (used s) then Some (new_child p Prompt s) else None
      | Fork_writer p \<Rightarrow>
          if spc s = Prompt \<and> \<not> in_handler s \<and> p \<noteq> 0 \<and> p \<notin> set (used s) then Some (new_child p (Pipe_set_writer p) s) else None
      | Fork_reader p \<Rightarrow>
          (case spc s of
             Pipe_fork w \<Rightarrow>
               if \<not> in_handler s \<and> p \<noteq> 0 \<and> p \<notin> set (used s) then Some (new_child p (Pipe_set_reader w p) s) else None
           | _ \<Rightarrow> None)
      | Parent \<Rightarrow> if in_handler s then None else parent_step s
      | Child_exits p \<Rightarrow>
          if kids s p \<noteq> None \<and> kids s p \<noteq> Some Zombie
          then Some (raise_sigchld p (s\<lparr>kids := (kids s)(p := Some Zombie)\<rparr>)) else None
      | Child_stops p \<Rightarrow>
          if kids s p = Some Running
          then Some (raise_sigchld p (s\<lparr>kids := (kids s)(p := Some (Stopped True))\<rparr>)) else None
      | Deliver \<Rightarrow>
          if in_handler s then None
          else (case sigchld s of
                  None \<Rightarrow> None
                | Some p \<Rightarrow> Some ((sigchld_test p s)\<lparr>sigchld := None, in_handler := True\<rparr>))
      | Reap p \<Rightarrow> if in_handler s \<and> reapable (kids s p) then Some (sigchld_turn p s) else None
      | Handler_return \<Rightarrow>
          if in_handler s \<and> list_all (\<lambda>p. \<not> reapable (kids s p)) (used s)
          then Some (s\<lparr>in_handler := False\<rparr>) else None
      | Sigint \<Rightarrow> Some (sigint_handler s))"

fun sig_run :: "sig_event list \<Rightarrow> sig \<Rightarrow> sig option" where
  "sig_run [] s = Some s"
| "sig_run (e # es) s = (case sig_step e s of None \<Rightarrow> None | Some s' \<Rightarrow> sig_run es s')"

inductive sig_reach :: "sig \<Rightarrow> bool" where
  start: "sig_reach sig_init"
| step: "sig_reach s \<Longrightarrow> sig_step ev s = Some s' \<Longrightarrow> sig_reach s'"

section \<open>Children and signals\<close>

definition kids_inv :: "sig \<Rightarrow> bool" where
  "kids_inv s \<longleftrightarrow>
     (\<forall>p. kids s p \<noteq> None \<longrightarrow> p \<in> set (used s)) \<and>
     (\<forall>p. sigchld s = Some p \<longrightarrow> p \<in> set (used s) \<and> kids s p \<noteq> Some Running) \<and>
     (\<forall>p. reapable (kids s p) \<longrightarrow> sigchld s \<noteq> None \<or> in_handler s) \<and>
     0 \<notin> set (used s)"

lemma raise_simps [simp]:
  "is_foreground (raise_sigchld p s) = is_foreground s" "current_fg_id (raise_sigchld p s) = current_fg_id s"
  "current_pipe_writer (raise_sigchld p s) = current_pipe_writer s"
  "current_pipe_reader (raise_sigchld p s) = current_pipe_reader s"
  "kids (raise_sigchld p s) = kids s" "used (raise_sigchld p s) = used s" "in_handler (raise_sigchld p s) = in_handler s"
  "spc (raise_sigchld p s) = spc s"
  "sigchld (raise_sigchld p s) = (if sigchld s = None then Some p else sigchld s)"
  by (simp_all add: raise_sigchld_def)

lemma test_simps [simp]:
  "is_foreground (sigchld_test p s) = (is_foreground s \<and> p \<noteq> current_fg_id s)"
  "current_fg_id (sigchld_test p s) = current_fg_id s"
  "current_pipe_writer (sigchld_test p s) = current_pipe_writer s"
  "current_pipe_reader (sigchld_test p s) = current_pipe_reader s"
  "kids (sigchld_test p s) = kids s" "used (sigchld_test p s) = used s" "in_handler (sigchld_test p s) = in_handler s"
  "spc (sigchld_test p s) = spc s" "sigchld (sigchld_test p s) = sigchld s"
  by (auto simp: sigchld_test_def)

lemma turn_simps [simp]:
  "is_foreground (sigchld_turn p s) = is_foreground s" "current_fg_id (sigchld_turn p s) = current_fg_id s"
  "current_pipe_writer (sigchld_turn p s) = (if p = current_pipe_writer s then 0 else current_pipe_writer s)"
  "current_pipe_reader (sigchld_turn p s) = (if p = current_pipe_reader s then 0 else current_pipe_reader s)"
  "kids (sigchld_turn p s) = (kids s)(p := (if kids s p = Some Zombie then None else Some (Stopped False)))"
  "used (sigchld_turn p s) = used s" "in_handler (sigchld_turn p s) = in_handler s"
  "spc (sigchld_turn p s) = spc s" "sigchld (sigchld_turn p s) = sigchld s"
  by (simp_all add: sigchld_turn_def Let_def)

lemma child_simps [simp]:
  "is_foreground (new_child p c s) = is_foreground s" "current_fg_id (new_child p c s) = current_fg_id s"
  "current_pipe_writer (new_child p c s) = current_pipe_writer s"
  "current_pipe_reader (new_child p c s) = current_pipe_reader s"
  "kids (new_child p c s) = (kids s)(p \<mapsto> Running)" "used (new_child p c s) = p # used s"
  "in_handler (new_child p c s) = in_handler s" "spc (new_child p c s) = c" "sigchld (new_child p c s) = sigchld s"
  by (simp_all add: new_child_def)

lemma sigint_simps [simp]:
  "is_foreground (sigint_handler s) = False" "current_fg_id (sigint_handler s) = current_fg_id s"
  "current_pipe_writer (sigint_handler s) = 0" "current_pipe_reader (sigint_handler s) = 0"
  "kids (sigint_handler s) = kids s" "used (sigint_handler s) = used s" "in_handler (sigint_handler s) = in_handler s"
  "spc (sigint_handler s) = spc s" "sigchld (sigint_handler s) = sigchld s"
  by (simp_all add: sigint_handler_def)

lemma parent_step_same:
  assumes "parent_step s = Some s'"
  shows "kids s' = kids s" "used s' = used s" "sigchld s' = sigchld s" "in_handler s' = in_handler s"
  using assms by (auto simp: parent_step_def split: spc.splits if_splits)

lemma sig_step_cases:
  assumes "sig_step ev s = Some s'"
  obtains p c where "s' = new_child p c s" "p \<noteq> 0" "p \<notin> set (used s)" "\<not> in_handler s"
      "spc s = Prompt \<and> c \<in> {Fg_flag p, Prompt, Pipe_set_writer p} \<or> (\<exists>w. spc s = Pipe_fork w \<and> c = Pipe_set_reader w p)"
    | "ev = Parent" "\<not> in_handler s" "parent_step s = Some s'"
    | p where "ev = Child_exits p" "kids s p \<noteq> None" "kids s p \<noteq> Some Zombie"
        "s' = raise_sigchld p (s\<lparr>kids := (kids s)(p := Some Zombie)\<rparr>)"
    | p where "ev = Child_stops p" "kids s p = Some Running"
        "s' = raise_sigchld p (s\<lparr>kids := (kids s)(p := Some (Stopped True))\<rparr>)"
    | p where "ev = Deliver" "\<not> in_handler s" "sigchld s = Some p"
        "s' = (sigchld_test p s)\<lparr>sigchld := None, in_handler := True\<rparr>"
    | p where "ev = Reap p" "in_handler s" "reapable (kids s p)" "s' = sigchld_turn p s"
    | "ev = Handler_return" "in_handler s" "\<forall>p \<in> set (used s). \<not> reapable (kids s p)" "s' = s\<lparr>in_handler := False\<rparr>"
    | "ev = Sigint" "s' = sigint_handler s"
proof (cases ev)
  case (Fork_fg p)
  then show ?thesis using assms that(1) [of p "Fg_flag p"] by (simp add: sig_step_def split: if_splits)
next
  case (Fork_bg p)
  then show ?thesis using assms that(1) [of p Prompt] by (simp add: sig_step_def split: if_splits)
next
  case (Fork_writer p)
  then show ?thesis using assms that(1) [of p "Pipe_set_writer p"] by (simp add: sig_step_def split: if_splits)
next
  case (Fork_reader p)
  then show ?thesis
    using assms that(1) [of p] by (cases "spc s") (simp_all add: sig_step_def split: if_splits)
next
  case Parent
  then show ?thesis using assms that(2) by (simp add: sig_step_def split: if_splits)
next
  case (Child_exits p)
  then show ?thesis using assms that(3) [of p] by (simp add: sig_step_def split: if_splits)
next
  case (Child_stops p)
  then show ?thesis using assms that(4) [of p] by (simp add: sig_step_def split: if_splits)
next
  case Deliver
  then show ?thesis using assms that(5) by (cases "sigchld s") (simp_all add: sig_step_def split: if_splits)
next
  case (Reap p)
  then show ?thesis using assms that(6) [of p] by (simp add: sig_step_def split: if_splits)
next
  case Handler_return
  then show ?thesis using assms that(7) by (simp add: sig_step_def list_all_iff split: if_splits)
next
  case Sigint
  then show ?thesis using assms that(8) by (simp add: sig_step_def)
qed

lemma reapable_some: "reapable k \<Longrightarrow> k \<noteq> None"
  by (cases k) auto

lemma kids_inv_step:
  assumes "sig_step ev s = Some s'" "kids_inv s"
  shows "kids_inv s'"
proof (cases rule: sig_step_cases [OF assms(1)])
  case (1 p c)
  then show ?thesis using assms(2) by (auto simp: kids_inv_def)
next
  case 2
  then show ?thesis using assms(2) parent_step_same [OF 2(3)] by (simp add: kids_inv_def)
next
  case (3 p)
  then show ?thesis using assms(2) by (auto simp: kids_inv_def)
next
  case (4 p)
  then show ?thesis using assms(2) by (auto simp: kids_inv_def)
next
  case (5 p)
  then show ?thesis using assms(2) by (auto simp: kids_inv_def)
next
  case (6 p)
  then have "kids s p \<noteq> None" using reapable_some by blast
  then show ?thesis using assms(2) 6 by (auto simp: kids_inv_def)
next
  case 7
  have "\<not> reapable (kids s p)" for p
    using 7(3) assms(2) reapable_some unfolding kids_inv_def by blast
  then show ?thesis using 7 assms(2) by (simp add: kids_inv_def)
next
  case 8
  then show ?thesis using assms(2) by (simp add: kids_inv_def)
qed

lemma kids_inv_reach: "sig_reach s \<Longrightarrow> kids_inv s"
proof (induction rule: sig_reach.induct)
  case start
  show ?case by (simp add: kids_inv_def sig_init_def prepare_def)
qed (rule kids_inv_step)

section \<open>Waiting for a foreground process\<close>

text \<open>What every step but SIGINT keeps holds after a run without SIGINT.\<close>

lemma run_invariant:
  assumes "sig_run es s = Some s'" "Sigint \<notin> set es" "kids_inv s" "P s"
    "\<And>ev s s'. sig_step ev s = Some s' \<Longrightarrow> ev \<noteq> Sigint \<Longrightarrow> kids_inv s \<Longrightarrow> P s \<Longrightarrow> P s'"
  shows "P s'"
  using assms(1-4)
proof (induction es arbitrary: s)
  case (Cons e es)
  then obtain s1 where s1: "sig_step e s = Some s1" "sig_run es s1 = Some s'" by (auto split: option.splits)
  show ?case
    using Cons.IH [OF s1(2)] Cons.prems(2) kids_inv_step [OF s1(1) Cons.prems(3)]
      assms(5) [OF s1(1) _ Cons.prems(3,4)] by auto
qed simp

text \<open>
  The two stores \<^verbatim>\<open>is_foreground = 1\<close> and \<^verbatim>\<open>current_fg_id = pid\<close> are not atomic: between them a
  SIGCHLD of the previous foreground child, which may have been stopped only, still matches
  \<^verbatim>\<open>current_fg_id\<close> and clears the flag.
\<close>

fun stale :: "nat \<Rightarrow> sig_event list \<Rightarrow> sig \<Rightarrow> bool" where
  "stale p [] s = False"
| "stale p (e # es) s =
     (e = Deliver \<and> spc s = Fg_id p \<and> sigchld s = Some (current_fg_id s) \<or>
      (case sig_step e s of None \<Rightarrow> False | Some s' \<Rightarrow> stale p es s'))"

text \<open>From the fork of \<open>p\<close> on: while \<open>p\<close> runs the shell has the flag up, or has still to set it.\<close>

definition fg_inv :: "nat \<Rightarrow> sig \<Rightarrow> bool" where
  "fg_inv p s \<longleftrightarrow>
     p \<in> set (used s) \<and>
     (spc s = Fg_id p \<longrightarrow> is_foreground s) \<and>
     (spc s = Fg_wait p \<longrightarrow> current_fg_id s = p \<and> (kids s p = Some Running \<longrightarrow> is_foreground s)) \<and>
     (spc s \<notin> {Fg_flag p, Fg_id p, Fg_wait p} \<longrightarrow> kids s p \<noteq> Some Running)"

lemma fg_inv_step:
  assumes "sig_step ev s = Some s'" "ev \<noteq> Sigint" "kids_inv s" "fg_inv p s"
    "\<not> (ev = Deliver \<and> spc s = Fg_id p \<and> sigchld s = Some (current_fg_id s))"
  shows "fg_inv p s'"
proof (cases rule: sig_step_cases [OF assms(1)])
  case (1 q c)
  then have "spc s \<notin> {Fg_flag p, Fg_id p, Fg_wait p}" "c \<notin> {Fg_flag p, Fg_id p, Fg_wait p}" "q \<noteq> p"
    using assms(4) by (auto simp: fg_inv_def)
  then show ?thesis using 1(1) assms(4) by (simp add: fg_inv_def)
next
  case 2
  then show ?thesis using assms(4)
    by (auto simp: fg_inv_def parent_step_def split: spc.splits if_splits)
next
  case (3 q)
  then show ?thesis using assms(4) by (auto simp: fg_inv_def)
next
  case (4 q)
  then show ?thesis using assms(4) by (auto simp: fg_inv_def)
next
  case (5 q)
  then have "kids s q \<noteq> Some Running" using assms(3) by (simp add: kids_inv_def)
  then show ?thesis using 5 assms(4,5) by (auto simp: fg_inv_def)
next
  case (6 q)
  then show ?thesis using assms(4) by (auto simp: fg_inv_def)
next
  case 7
  then show ?thesis using assms(4) by (simp add: fg_inv_def)
next
  case 8
  then show ?thesis using assms(2) by simp
qed

lemma fg_inv_run:
  assumes "sig_run es s = Some s'" "Sigint \<notin> set es" "kids_inv s" "fg_inv p s" "\<not> stale p es s"
  shows "fg_inv p s'"
  using assms
proof (induction es arbitrary: s)
  case (Cons e es)
  then obtain s1 where s1: "sig_step e s = Some s1" "sig_run es s1 = Some s'" by (auto split: option.splits)
  have "fg_inv p s1" using Cons.prems(2,5) by (intro fg_inv_step [OF s1(1) _ Cons.prems(3,4)]) auto
  then show ?case
    using Cons.IH [OF s1(2)] Cons.prems(2,5) kids_inv_step [OF s1(1) Cons.prems(3)] s1(1) by simp
qed simp

text \<open>Runs in which no child exits or stops while a SIGCHLD is pending.\<close>

fun no_overlap :: "sig_event list \<Rightarrow> sig \<Rightarrow> bool" where
  "no_overlap [] s = True"
| "no_overlap (e # es) s =
     ((case e of Child_exits p \<Rightarrow> sigchld s = None | Child_stops p \<Rightarrow> sigchld s = None | _ \<Rightarrow> True) \<and>
      (case sig_step e s of None \<Rightarrow> True | Some s' \<Rightarrow> no_overlap es s'))"

definition fg_signalled :: "nat \<Rightarrow> sig \<Rightarrow> bool" where
  "fg_signalled p s \<longleftrightarrow>
     p \<in> set (used s) \<and> spc s \<notin> {Fg_flag p, Fg_id p} \<and>
     (spc s = Fg_wait p \<longrightarrow> current_fg_id s = p \<and>
        (is_foreground s \<longrightarrow> kids s p = Some Running \<or> sigchld s = Some p))"

lemma fg_signalled_step:
  assumes "sig_step ev s = Some s'" "fg_signalled p s"
    "\<And>q. ev = Child_exits q \<or> ev = Child_stops q \<Longrightarrow> sigchld s = None"
  shows "fg_signalled p s'"
proof (cases rule: sig_step_cases [OF assms(1)])
  case (1 q c)
  then show ?thesis using assms(2) by (auto simp: fg_signalled_def)
next
  case 2
  then show ?thesis using assms(2)
    by (auto simp: fg_signalled_def parent_step_def split: spc.splits if_splits)
next
  case (3 q)
  then show ?thesis using assms(2,3) by (auto simp: fg_signalled_def)
next
  case (4 q)
  then show ?thesis using assms(2,3) by (auto simp: fg_signalled_def)
next
  case (5 q)
  then show ?thesis using assms(2) by (auto simp: fg_signalled_def)
next
  case (6 q)
  then show ?thesis using assms(2) by (auto simp: fg_signalled_def)
next
  case 7
  then show ?thesis using assms(2) by (simp add: fg_signalled_def)
next
  case 8
  then show ?thesis using assms(2) by (simp add: fg_signalled_def)
qed

lemma fg_signalled_run:
  assumes "sig_run es s = Some s'" "no_overlap es s" "fg_signalled p s"
  shows "fg_signalled p s'"
  using assms
proof (induction es arbitrary: s)
  case (Cons e es)
  then obtain s1 where s1: "sig_step e s = Some s1" "sig_run es s1 = Some s'" by (auto split: option.splits)
  have "fg_signalled p s1" using Cons.prems(2) by (intro fg_signalled_step [OF s1(1) Cons.prems(3)]) auto
  then show ?case using Cons.IH [OF s1(2)] Cons.prems(2) s1(1) by simp
qed simp

section \<open>Waiting for a pipe\<close>

fun unreported :: "kid option \<Rightarrow> bool" where
  "unreported None = False"
| "unreported (Some Running) = True"
| "unreported (Some Zombie) = True"
| "unreported (Some (Stopped new)) = new"

text \<open>The flags of the pipe \<open>w | r\<close> say which of its processes still have to be reported.\<close>

definition pipe_inv :: "nat \<Rightarrow> nat \<Rightarrow> sig \<Rightarrow> bool" where
  "pipe_inv w r s \<longleftrightarrow>
     w \<in> set (used s) \<and> r \<in> set (used s) \<and> w \<noteq> r \<and>
     (if spc s = Pipe_wait w r then
        (current_pipe_writer s = w \<longrightarrow> unreported (kids s w)) \<and>
        (current_pipe_reader s = r \<longrightarrow> unreported (kids s r)) \<and>
        (current_pipe_writer s = 0 \<and> kids s w \<noteq> Some Running \<or> current_pipe_writer s = w) \<and>
        (current_pipe_reader s = 0 \<and> kids s r \<noteq> Some Running \<or> current_pipe_reader s = r)
      else spc s \<noteq> Pipe_set_reader w r \<and> kids s w \<noteq> Some Running \<and> kids s r \<noteq> Some Running)"

lemma reapable_unreported: "reapable k \<Longrightarrow> unreported k"
  by (cases k rule: reapable.cases) auto

lemma pipe_inv_step:
  assumes "sig_step ev s = Some s'" "ev \<noteq> Sigint" "kids_inv s" "pipe_inv w r s"
  shows "pipe_inv w r s'"
proof (cases rule: sig_step_cases [OF assms(1)])
  case (1 q c)
  then have "spc s \<noteq> Pipe_wait w r" "c \<noteq> Pipe_wait w r" "q \<noteq> w" "q \<noteq> r" "c \<noteq> Pipe_set_reader w r"
    using assms(4) by (auto simp: pipe_inv_def)
  then show ?thesis using 1(1) assms(4) by (simp add: pipe_inv_def)
next
  case 2
  have "w \<noteq> 0" "r \<noteq> 0" using assms(3,4) by (auto simp: kids_inv_def pipe_inv_def)
  with 2 show ?thesis using assms(4)
    by (auto simp: pipe_inv_def parent_step_def split: spc.splits if_splits)
next
  case (3 q)
  then show ?thesis using assms(4) by (auto simp: pipe_inv_def)
next
  case (4 q)
  then show ?thesis using assms(4) by (auto simp: pipe_inv_def)
next
  case (5 q)
  then show ?thesis using assms(4) by (simp add: pipe_inv_def)
next
  case (6 q)
  have nz: "w \<noteq> 0" "r \<noteq> 0" using assms(3,4) by (auto simp: kids_inv_def pipe_inv_def)
  have "kids s q \<noteq> Some Running" using 6(3) by auto
  then show ?thesis using 6 nz assms(4) by (auto simp: pipe_inv_def)
next
  case 7
  then show ?thesis using assms(4) by (simp add: pipe_inv_def)
next
  case 8
  then show ?thesis using assms(2) by simp
qed

lemmas pipe_inv_run = run_invariant [where P = "pipe_inv w r" for w r, OF _ _ _ _ pipe_inv_step]

text \<open>From the fork of the writer, and of the reader, on.\<close>

definition writer_inv :: "nat \<Rightarrow> sig \<Rightarrow> bool" where
  "writer_inv w s \<longleftrightarrow>
     w \<in> set (used s) \<and>
     (case spc s of
        Pipe_set_writer v \<Rightarrow> v = w \<or> kids s w \<noteq> Some Running
      | Pipe_fork v \<Rightarrow> v = w \<and> current_pipe_writer s = w \<or> kids s w \<noteq> Some Running
      | Pipe_set_reader v r \<Rightarrow> v = w \<and> current_pipe_writer s = w \<or> kids s w \<noteq> Some Running
      | Pipe_wait v r \<Rightarrow> v = w \<and> current_pipe_writer s = w \<or> kids s w \<noteq> Some Running
      | _ \<Rightarrow> kids s w \<noteq> Some Running)"

definition reader_inv :: "nat \<Rightarrow> nat \<Rightarrow> sig \<Rightarrow> bool" where
  "reader_inv w r s \<longleftrightarrow>
     r \<in> set (used s) \<and>
     (spc s = Pipe_wait w r \<longrightarrow> current_pipe_reader s = r \<or> kids s r \<noteq> Some Running) \<and>
     (spc s \<notin> {Pipe_set_reader w r, Pipe_wait w r} \<longrightarrow> kids s r \<noteq> Some Running)"

lemma writer_inv_step:
  assumes "sig_step ev s = Some s'" "ev \<noteq> Sigint" "kids_inv s" "writer_inv w s"
  shows "writer_inv w s'"
proof -
  have nz: "w \<noteq> 0" using assms(3,4) unfolding kids_inv_def writer_inv_def by metis
  show ?thesis
  proof (cases rule: sig_step_cases [OF assms(1)])
    case (1 q c)
    then have "q \<noteq> w" using assms(4) by (auto simp: writer_inv_def)
    then show ?thesis using 1(1,5) assms(4) by (auto simp: writer_inv_def)
  next
    case 2
    then show ?thesis using assms(4) nz
      by (auto simp: writer_inv_def parent_step_def split: spc.splits if_splits)
  next
    case (3 q)
    then show ?thesis using assms(4) by (cases "spc s") (auto simp: writer_inv_def)
  next
    case (4 q)
    then show ?thesis using assms(4) by (cases "spc s") (auto simp: writer_inv_def)
  next
    case (5 q)
    then show ?thesis using assms(4) by (cases "spc s") (auto simp: writer_inv_def)
  next
    case (6 q)
    then have "kids s q \<noteq> Some Running" by auto
    then show ?thesis using 6 assms(4) by (cases "spc s") (auto simp: writer_inv_def)
  next
    case 7
    then show ?thesis using assms(4) by (cases "spc s") (simp_all add: writer_inv_def)
  next
    case 8
    then show ?thesis using assms(2) by simp
  qed
qed

lemma reader_inv_step:
  assumes "sig_step ev s = Some s'" "ev \<noteq> Sigint" "kids_inv s" "reader_inv w r s"
  shows "reader_inv w r s'"
proof -
  have nz: "r \<noteq> 0" using assms(3,4) unfolding kids_inv_def reader_inv_def by metis
  show ?thesis
  proof (cases rule: sig_step_cases [OF assms(1)])
    case (1 q c)
    then have "q \<noteq> r" using assms(4) by (auto simp: reader_inv_def)
    then show ?thesis using 1(1,5) assms(4) by (auto simp: reader_inv_def)
  next
    case 2
    then show ?thesis using assms(4) nz
      by (auto simp: reader_inv_def parent_step_def split: spc.splits if_splits)
  next
    case (6 q)
    then have "kids s q \<noteq> Some Running" by auto
    then show ?thesis using 6 assms(4) by (auto simp: reader_inv_def)
  qed (use assms(2,4) in \<open>auto simp: reader_inv_def\<close>)
qed

lemmas writer_inv_run = run_invariant [where P = "writer_inv w" for w, OF _ _ _ _ writer_inv_step]
lemmas reader_inv_run = run_invariant [where P = "reader_inv w r" for w r, OF _ _ _ _ reader_inv_step]

section \<open>Waiting for a child that is gone\<close>

definition lost :: "sig \<Rightarrow> bool" where
  "lost s =
     (case spc s of
        Fg_wait p \<Rightarrow> is_foreground s \<and> current_fg_id s = p \<and> kids s p = None \<and> sigchld s \<noteq> Some p
      | Pipe_wait w r \<Rightarrow>
          current_pipe_writer s = w \<and> w \<noteq> 0 \<and> kids s w = None \<or>
          current_pipe_reader s = r \<and> r \<noteq> 0 \<and> kids s r = None
      | _ \<Rightarrow> False)"

lemma lost_step:
  assumes "sig_step ev s = Some s'" "ev \<noteq> Sigint" "lost s"
  shows "lost s' \<and> spc s' = spc s"
proof (cases rule: sig_step_cases [OF assms(1)])
  case (1 q c)
  have False using 1(5) assms(3) by (auto simp: lost_def)
  then show ?thesis ..
next
  case 2
  then show ?thesis using assms(3) by (cases "spc s") (auto simp: lost_def parent_step_def)
next
  case (3 q)
  then show ?thesis using assms(3) by (cases "spc s") (auto simp: lost_def)
next
  case (4 q)
  then show ?thesis using assms(3) by (cases "spc s") (auto simp: lost_def)
next
  case (5 q)
  then show ?thesis using assms(3) by (cases "spc s") (auto simp: lost_def)
next
  case (6 q)
  then have q: "kids s q \<noteq> None" using reapable_some by blast
  show ?thesis
  proof (cases "spc s")
    case (Fg_wait p)
    then have "p \<noteq> q" using assms(3) q by (auto simp: lost_def)
    then show ?thesis using assms(3) Fg_wait by (simp add: lost_def 6(4))
  next
    case (Pipe_wait w r)
    have "current_pipe_writer s = w \<and> w \<noteq> 0 \<and> kids s w = None \<or>
        current_pipe_reader s = r \<and> r \<noteq> 0 \<and> kids s r = None"
      using assms(3) by (simp add: lost_def Pipe_wait)
    then show ?thesis
    proof
      assume a: "current_pipe_writer s = w \<and> w \<noteq> 0 \<and> kids s w = None"
      then have "q \<noteq> w" using q by metis
      then show ?thesis using a by (simp add: lost_def 6(4) Pipe_wait)
    next
      assume a: "current_pipe_reader s = r \<and> r \<noteq> 0 \<and> kids s r = None"
      then have "q \<noteq> r" using q by metis
      then show ?thesis using a by (simp add: lost_def 6(4) Pipe_wait)
    qed
  qed (use assms(3) in \<open>simp_all add: lost_def\<close>)
next
  case 7
  then show ?thesis using assms(3) by (cases "spc s") (simp_all add: lost_def)
next
  case 8
  then show ?thesis using assms(2) by simp
qed

lemma lost_run:
  "sig_run es s = Some s' \<Longrightarrow> Sigint \<notin> set es \<Longrightarrow> lost s \<Longrightarrow> lost s' \<and> spc s' = spc s"
proof (induction es arbitrary: s)
  case (Cons e es)
  then obtain s1 where s1: "sig_step e s = Some s1" "sig_run es s1 = Some s'" by (auto split: option.splits)
  then show ?case using Cons.IH [OF s1(2)] lost_step [OF s1(1)] Cons.prems(2,3) by auto
qed simp

section \<open>The processes the parent waits for\<close>

definition pids_inv :: "sig \<Rightarrow> bool" where
  "pids_inv s =
     (case spc s of
        Prompt \<Rightarrow> True
      | Fg_flag p \<Rightarrow> p \<in> set (used s) | Fg_id p \<Rightarrow> p \<in> set (used s) | Fg_wait p \<Rightarrow> p \<in> set (used s)
      | Pipe_set_writer w \<Rightarrow> w \<in> set (used s) | Pipe_fork w \<Rightarrow> w \<in> set (used s)
      | Pipe_set_reader w r \<Rightarrow> w \<in> set (used s) \<and> r \<in> set (used s) \<and> w \<noteq> r
      | Pipe_wait w r \<Rightarrow> w \<in> set (used s) \<and> r \<in> set (used s) \<and> w \<noteq> r)"

lemma pids_inv_step:
  assumes "sig_step ev s = Some s'" "pids_inv s"
  shows "pids_inv s'"
proof (cases rule: sig_step_cases [OF assms(1)])
  case (1 p c)
  then show ?thesis using assms(2) by (auto simp: pids_inv_def)
next
  case 2
  then show ?thesis using assms(2) by (cases "spc s") (auto simp: pids_inv_def parent_step_def split: if_splits)
qed (use assms(2) in \<open>cases "spc s"; simp add: pids_inv_def\<close>)+

lemma pids_inv_reach: "sig_reach s \<Longrightarrow> pids_inv s"
proof (induction rule: sig_reach.induct)
  case start
  show ?case by (simp add: pids_inv_def sig_init_def prepare_def)
qed (rule pids_inv_step)

end
