(* ===== verification/Shell_Thms.thy ===== *)
theory Shell_Thms
  imports Shell_Command Shell_Signals
begin

text \<open>
  The properties of the shell: the words of a command line, the processes that each kind of
  command starts, the memory of the argument list, and the waiting for the children.
\<close>

section \<open>The words of a line\<close>

text \<open>Claim C20.  The loop of \<open>main\<close> over \<open>strtok\<close> collects exactly the words of the line: the
  maximal runs of characters other than space, tab and newline, in their order, up to the first
  null character.  It stops the shell only when an allocation fails.\<close>

theorem read_command_words:
  assumes "alloc_ok e" "read_command e buf s = Inr (p, ws, s')"
  shows "ws = filter (\<lambda>w. w \<noteq> []) (split_on (\<lambda>c. c \<in> {CHR '' '', CHR 0x09, CHR 0x0A}) (takeWhile (\<lambda>c. c \<noteq> CHR 0x00) buf))"
proof -
  have "ws = words_of (c_string buf)" using read_command_ok [OF assms(1), of buf s] assms(2) by auto
  moreover have "is_delim = (\<lambda>c. c \<in> {CHR '' '', CHR 0x09, CHR 0x0A})" by (simp add: is_delim_def fun_eq_iff)
  ultimately show ?thesis by (simp only: words_of_def c_string_def)
qed

definition env0 :: env where
  "env0 = \<lparr>al = (\<lambda>n B. if B \<subseteq> {..<n + 100} then Some (n + 100) else None), fork_ok = (\<lambda>n. True), pipe_fds = Some (3, 4),
    exec_ok = (\<lambda>f. True), open_file = (\<lambda>f. Some 3), dup2_ok = (\<lambda>f. True)\<rparr>"

definition shell0 :: shell where
  "shell0 = \<lparr>blocks = {}, reqs = 0, forks = 0, shell_fds = (\<lambda>n. if n < 3 then Some (Terminal n) else None), children = []\<rparr>"

lemma env0_alloc_ok: "alloc_ok env0"
  by (auto simp: alloc_ok_def env0_def split: if_splits)

theorem read_command_words_witness:
  "\<exists>p s'. read_command env0 ''ls  -l'' shell0 = Inr (p, [''ls'', ''-l''], s') \<and>
     filter (\<lambda>w. w \<noteq> []) (split_on (\<lambda>c. c \<in> {CHR '' '', CHR 0x09, CHR 0x0A}) (takeWhile (\<lambda>c. c \<noteq> CHR 0x00) ''ls  -l'')) =
       [''ls'', ''-l'']"
proof -
  have "\<exists>p s'. read_command env0 ''ls  -l'' shell0 = Inr (p, [''ls'', ''-l''], s')"
    by (simp add: read_command_def malloc_def realloc_def env0_def shell0_def c_string_def strtok_def is_delim_def)
  then show ?thesis using read_command_words [OF env0_alloc_ok] by metis
qed

section \<open>The processes of a command\<close>

definition plain :: "string list \<Rightarrow> bool" where
  "plain ws \<longleftrightarrow> (\<forall>w \<in> set ws. first_char w \<notin> {CHR ''|'', CHR ''>'', CHR ''&''})"

lemma find_plain: "plain a \<Longrightarrow> find_from i (a @ b) = find_from (i + length a) b"
  by (induction a arbitrary: i) (auto simp: plain_def)

lemma find_plain_only: "plain a \<Longrightarrow> find_from i a = (FOREGROUND, - 1)"
  using find_plain [of a i "[]"] by simp

lemma c_args: "map the (takeWhile (\<lambda>a. a \<noteq> None) (map Some ws @ None # r)) = ws"
  by (induction ws) auto

lemma execvp_args:
  assumes "ws \<noteq> []" "exec_ok e (hd ws)"
  shows "execvp e (map Some ws @ None # r) p =
    Execs ws (p\<lparr>on_sigint := (if on_sigint p = Caught then Default else on_sigint p)\<rparr>)"
  using assms unfolding execvp_def c_args by (cases ws) auto

lemma update_end: "(map Some a @ Some w # r)[length a := None] = map Some a @ None # r"
  by (simp add: list_update_append)

text \<open>Claim C22.  A command without special words runs in the foreground with all its words as
  arguments; one that ends in a word starting with an ampersand runs without that word and ignores SIGINT;
  \<open>cmd > f\<close> runs \<open>cmd\<close> with its standard output in \<open>f\<close>.  Otherwise the programs have the open files
  of the shell, which keeps its own.  Foreground programs start with the default treatment of SIGINT.\<close>

theorem simple_commands:
  assumes "plain cmd" "cmd \<noteq> []" "exec_ok e (hd cmd)" "fork_ok e (forks s)"
  shows "process_arglist e p cmd s =
      Inr (1, s\<lparr>forks := forks s + 1, children := children s @ [Execs cmd \<lparr>fds = shell_fds s, on_sigint = Default\<rparr>]\<rparr>) \<and>
    (\<forall>amp b. first_char amp = CHR ''&'' \<longrightarrow> p \<in> blocks s \<longrightarrow> al e (reqs s) (blocks s - {p}) = Some b \<longrightarrow>
      process_arglist e p (cmd @ [amp]) s =
        Inr (1, s\<lparr>blocks := insert b (blocks s - {p}), reqs := reqs s + 1, forks := forks s + 1,
          children := children s @ [Execs cmd \<lparr>fds = shell_fds s, on_sigint = Ignore\<rparr>]\<rparr>)) \<and>
    (\<forall>f fd. open_file e f = Some fd \<longrightarrow> shell_fds s fd = None \<longrightarrow> fd \<noteq> 1 \<longrightarrow> dup2_ok e fd \<longrightarrow>
      process_arglist e p (cmd @ [''>'', f]) s =
        Inr (1, s\<lparr>forks := forks s + 1, children := children s @
          [Execs cmd \<lparr>fds = (shell_fds s)(1 := Some (Regular f)), on_sigint = Default\<rparr>]\<rparr>))"
proof (intro conjI allI impI)
  show "process_arglist e p cmd s =
      Inr (1, s\<lparr>forks := forks s + 1, children := children s @ [Execs cmd \<lparr>fds = shell_fds s, on_sigint = Default\<rparr>]\<rparr>)"
    using assms(4)
    by (simp add: process_arglist_def find_command_type_def find_plain_only [OF assms(1)] handle_foreground_def
        execvp_args [OF assms(2,3), where r = "[]"] fork_def shell_process_def)
next
  fix amp b
  assume amp: "first_char amp = CHR ''&''" and p: "p \<in> blocks s" "al e (reqs s) (blocks s - {p}) = Some b"
  have "find_command_type (cmd @ [amp]) = (BACKGROUND, int (length cmd))"
    using amp by (simp add: find_command_type_def find_plain [OF assms(1)])
  moreover have "(take (length (cmd @ [amp])) (map Some (cmd @ [amp]) @ [None]))[length (cmd @ [amp]) - 1 := None] =
      map Some cmd @ [None]"
    by (simp add: list_update_append)
  ultimately show "process_arglist e p (cmd @ [amp]) s =
        Inr (1, s\<lparr>blocks := insert b (blocks s - {p}), reqs := reqs s + 1, forks := forks s + 1,
          children := children s @ [Execs cmd \<lparr>fds = shell_fds s, on_sigint = Ignore\<rparr>]\<rparr>)"
    using assms(4) p
    by (simp add: process_arglist_def handle_background_def realloc_def Let_def
        execvp_args [OF assms(2,3), where r = "[]"] fork_def shell_process_def del: append_assoc)
next
  fix f fd
  assume f: "open_file e f = Some fd" "shell_fds s fd = None" "fd \<noteq> 1" "dup2_ok e fd"
  have "find_command_type (cmd @ [''>'', f]) = (REDIRECT, int (length cmd))"
    by (simp add: find_command_type_def find_plain [OF assms(1)] first_char_def)
  moreover have "(map Some (cmd @ [''>'', f]) @ [None]) ! (length cmd + 1) = Some f"
    by (simp add: nth_append)
  moreover have "(map Some (cmd @ [''>'', f]) @ [None])[length cmd := None] = map Some cmd @ None # [Some f, None]"
    by (simp add: list_update_append)
  moreover have "((shell_fds s)(fd \<mapsto> Regular f))(STDOUT_FD \<mapsto> Regular f, fd := None) = (shell_fds s)(1 := Some (Regular f))"
    using f(2,3) by (auto simp: STDOUT_FD_def fun_eq_iff)
  ultimately show "process_arglist e p (cmd @ [''>'', f]) s =
        Inr (1, s\<lparr>forks := forks s + 1, children := children s @
          [Execs cmd \<lparr>fds = (shell_fds s)(1 := Some (Regular f)), on_sigint = Default\<rparr>]\<rparr>)"
    using assms(4) f
    by (simp add: process_arglist_def handle_redirect_def redirect_child_def Let_def
        execvp_args [OF assms(2,3), where r = "[Some f, None]"] fork_def shell_process_def dup_fd_def close_fd_def
        del: map_append append_assoc)
qed

theorem simple_commands_witness:
  "process_arglist env0 7 [''ls'', ''-l''] shell0 =
     Inr (1, shell0\<lparr>forks := 1, children := [Execs [''ls'', ''-l''] \<lparr>fds = shell_fds shell0, on_sigint = Default\<rparr>]\<rparr>) \<and>
   process_arglist env0 7 [''ls'', ''&''] (shell0\<lparr>blocks := {7}\<rparr>) =
     Inr (1, shell0\<lparr>blocks := {100}, reqs := 1, forks := 1,
       children := [Execs [''ls''] \<lparr>fds = shell_fds shell0, on_sigint = Ignore\<rparr>]\<rparr>)"
proof -
  have "plain [''ls'', ''-l'']" "plain [''ls'']" "fork_ok env0 n" "exec_ok env0 f" for n f
    by (simp_all add: plain_def first_char_def env0_def)
  then have "process_arglist env0 7 [''ls'', ''-l''] shell0 =
     Inr (1, shell0\<lparr>forks := forks shell0 + 1, children := children shell0 @
       [Execs [''ls'', ''-l''] \<lparr>fds = shell_fds shell0, on_sigint = Default\<rparr>]\<rparr>)"
    "process_arglist env0 7 ([''ls''] @ [''&'']) (shell0\<lparr>blocks := {7}\<rparr>) =
     Inr (1, shell0\<lparr>blocks := insert 100 ({7} - {7}), reqs := reqs shell0 + 1, forks := forks shell0 + 1,
       children := children shell0 @ [Execs [''ls''] \<lparr>fds = shell_fds shell0, on_sigint = Ignore\<rparr>]\<rparr>)"
    using simple_commands [of "[''ls'', ''-l'']" env0 shell0 7]
      simple_commands [of "[''ls'']" env0 "shell0\<lparr>blocks := {7}\<rparr>" 7]
    by (simp_all add: first_char_def) (simp_all add: env0_def shell0_def)
  then show ?thesis by (simp add: shell0_def)
qed

text \<open>Claim C14.  A pipe: the words before the first special word run with their standard output in
  the pipe, all words after it are the arguments of a second program that reads from the pipe.
  Both have the default treatment of SIGINT.  Of the two programs and the shell only the first
  program holds the write end and only the second the read end, since the shell has closed its own
  descriptors of the pipe: each program notices when the other is gone.\<close>

theorem pipe_connects:
  assumes "plain cmd1" "cmd1 \<noteq> []" "cmd2 \<noteq> []" "first_char bar = CHR ''|''"
    "exec_ok e (hd cmd1)" "exec_ok e (hd cmd2)" "pipe_fds e = Some (r, w)" "r \<noteq> w"
    "shell_fds s r = None" "shell_fds s w = None" "shell_fds s 0 = Some tin" "shell_fds s 1 = Some tout"
    "Some Pipe_read \<notin> range (shell_fds s)" "Some Pipe_write \<notin> range (shell_fds s)"
    "dup2_ok e r" "dup2_ok e w" "fork_ok e (forks s)" "fork_ok e (forks s + 1)"
  shows "\<exists>p1 p2 s'. process_arglist e p (cmd1 @ bar # cmd2) s = Inr (1, s') \<and>
    children s' = children s @ [Execs cmd1 p1, Execs cmd2 p2] \<and>
    fds p1 0 = Some tin \<and> fds p1 1 = Some Pipe_write \<and> on_sigint p1 = Default \<and>
    fds p2 0 = Some Pipe_read \<and> fds p2 1 = Some tout \<and> on_sigint p2 = Default \<and>
    Some Pipe_read \<notin> range (fds p1) \<and> Some Pipe_write \<notin> range (fds p2) \<and>
    shell_fds s' = shell_fds s \<and>
    Some Pipe_read \<notin> range (shell_fds s') \<and> Some Pipe_write \<notin> range (shell_fds s')"
proof -
  let ?s0 = "s\<lparr>shell_fds := (shell_fds s)(r \<mapsto> Pipe_read, w \<mapsto> Pipe_write)\<rparr>"
  let ?p1 = "(dup_fd w STDOUT_FD (close_fd r (shell_process ?s0)))\<lparr>on_sigint := Default\<rparr>"
  let ?p2 = "(dup_fd r STDIN_FD (close_fd w (shell_process ?s0)))\<lparr>on_sigint := Default\<rparr>"
  let ?s' = "s\<lparr>forks := forks s + 2, children := children s @ [Execs cmd1 ?p1, Execs cmd2 ?p2]\<rparr>"
  let ?args = "map Some (cmd1 @ bar # cmd2) @ [None]"
  have std: "r \<noteq> 0" "r \<noteq> 1" "w \<noteq> 0" "w \<noteq> 1" using assms(9-12) by (metis option.distinct(1))+
  have c: "on_sigint (shell_process x) = Caught" for x by (simp add: shell_process_def)
  have "find_command_type (cmd1 @ bar # cmd2) = (PIPE, int (length cmd1))"
    using assms(4) by (simp add: find_command_type_def find_plain [OF assms(1)])
  moreover have "?args[length cmd1 := None] = map Some cmd1 @ None # (map Some cmd2 @ [None])"
    by (simp add: list_update_append)
  moreover have "drop (length cmd1 + 1) ?args = map Some cmd2 @ None # []" by simp
  moreover have "writer_child e r w (length cmd1) ?args ?s0 = Execs cmd1 ?p1"
    unfolding writer_child_def calculation(2)
    using assms(16) execvp_args [OF assms(2,5)] by (simp add: c dup_fd_def close_fd_def)
  moreover have "reader_child e r w (length cmd1) ?args x = Execs cmd2 ?p2" if "shell_fds x = shell_fds ?s0" for x
  proof -
    have "shell_process x = shell_process ?s0" using that by (simp add: shell_process_def)
    then show ?thesis
      unfolding reader_child_def calculation(3)
      using assms(15) execvp_args [OF assms(3,6), where r = "[]"] by (simp add: c dup_fd_def close_fd_def)
  qed
  moreover have "(shell_fds s)(r := None, w := None) = shell_fds s" using assms(9,10) by auto
  ultimately have "process_arglist e p (cmd1 @ bar # cmd2) s = Inr (1, ?s')"
    using assms(7,8,17,18)
    by (simp add: process_arglist_def handle_pipe_def fork_def shell_close_def fun_upd_twist [of r w] Let_def del: map_append append_assoc)
  moreover have "fds ?p1 0 = Some tin" "fds ?p1 1 = Some Pipe_write" "fds ?p2 0 = Some Pipe_read"
      "fds ?p2 1 = Some tout"
    using assms(8,11,12) std by (simp_all add: dup_fd_def close_fd_def shell_process_def STDIN_FD_def STDOUT_FD_def)
  moreover have "Some Pipe_read \<notin> range (fds ?p1)" "Some Pipe_write \<notin> range (fds ?p2)"
    using assms(8,13,14) std
    by (auto simp: dup_fd_def close_fd_def shell_process_def STDIN_FD_def STDOUT_FD_def image_iff split: if_splits)
  ultimately show ?thesis using assms(13,14) by (intro exI [of _ ?p1] exI [of _ ?p2] exI [of _ ?s']) simp
qed

theorem pipe_connects_witness:
  "\<exists>p1 p2 s'. process_arglist env0 7 [''ls'', ''|'', ''wc'', ''-l''] shell0 = Inr (1, s') \<and>
    children s' = [Execs [''ls''] p1, Execs [''wc'', ''-l''] p2] \<and>
    fds p1 1 = Some Pipe_write \<and> fds p2 0 = Some Pipe_read \<and> shell_fds s' = shell_fds shell0"
proof -
  have "plain [''ls'']" by (simp add: plain_def first_char_def)
  moreover have "first_char ''|'' = CHR ''|''" by (simp add: first_char_def)
  moreover have "pipe_fds env0 = Some (3, 4)" "exec_ok env0 f" "dup2_ok env0 n" "fork_ok env0 n" for f n
    by (simp_all add: env0_def)
  moreover have "shell_fds shell0 3 = None" "shell_fds shell0 4 = None" "shell_fds shell0 0 = Some (Terminal 0)"
    "shell_fds shell0 1 = Some (Terminal 1)" "Some Pipe_read \<notin> range (shell_fds shell0)"
    "Some Pipe_write \<notin> range (shell_fds shell0)" "children shell0 = []"
    by (auto simp: shell0_def image_iff)
  ultimately show ?thesis
    using pipe_connects [of "[''ls'']" "[''wc'', ''-l'']" "''|''" env0 3 4 shell0 "Terminal 0" "Terminal 1" 7] by auto
qed

section \<open>Memory\<close>

lemma fork_blocks: "fork e c s = Inl (Exit 1) \<or> (\<exists>s'. fork e c s = Inr s' \<and> blocks s' = blocks s)"
  by (simp add: fork_def)

lemma pipe_blocks: "handle_pipe e l a s = Inl (Exit 1) \<or> (\<exists>s'. handle_pipe e l a s = Inr s' \<and> blocks s' = blocks s)"
  by (auto simp: handle_pipe_def fork_def shell_close_def bindE_def Let_def split: option.split)

lemma process_arglist_blocks:
  assumes "fst (find_command_type ws) \<noteq> BACKGROUND"
  shows "process_arglist e p ws s = Inl (Exit 1) \<or>
    (\<exists>s'. process_arglist e p ws s = Inr (1, s') \<and> blocks s' = blocks s)"
proof -
  obtain type loc where t: "find_command_type ws = (type, loc)" by force
  let ?a = "map Some ws @ [None]"
  have "(case type of FOREGROUND \<Rightarrow> handle_foreground e ?a s | BACKGROUND \<Rightarrow> handle_background e (length ws) p ?a s
            | PIPE \<Rightarrow> handle_pipe e (nat loc) ?a s | REDIRECT \<Rightarrow> handle_redirect e (nat loc) ?a s) = Inl (Exit 1) \<or>
        (\<exists>s'. (case type of FOREGROUND \<Rightarrow> handle_foreground e ?a s | BACKGROUND \<Rightarrow> handle_background e (length ws) p ?a s
            | PIPE \<Rightarrow> handle_pipe e (nat loc) ?a s | REDIRECT \<Rightarrow> handle_redirect e (nat loc) ?a s) = Inr s' \<and>
          blocks s' = blocks s)"
    using assms t fork_blocks pipe_blocks
    by (cases type) (simp_all add: handle_foreground_def handle_redirect_def)
  then show ?thesis unfolding process_arglist_def t Let_def by (auto simp: bindE_def)
qed

lemma iteration_blocks:
  assumes "alloc_ok e" "fst (find_command_type (words_of (c_string buf))) \<noteq> BACKGROUND"
  shows "main_iteration e buf s = Inl (Exit 1) \<or>
    (\<exists>m s'. main_iteration e buf s = Inr (m, s') \<and> blocks s' = blocks s)"
proof (cases rule: malloc_cases [of e s])
  case (1 s1)
  then have "main_iteration e buf s = Inr (False, s1)" by (simp add: main_iteration_def)
  then show ?thesis using 1(2) by blast
next
  case (2 line s1)
  let ?ws = "words_of (c_string buf)"
  have line: "line \<notin> blocks s" using 2(2) assms(1) by (auto simp: alloc_ok_def)
  consider "read_command e buf s1 = Inl (Exit 1)"
    | q s2 where "read_command e buf s1 = Inr (q, ?ws, s2)" "q \<in> blocks s2" "blocks s2 - {q} = blocks s1"
    using read_command_ok [OF assms(1), of buf s1] by auto
  then show ?thesis
  proof cases
    case 1
    then show ?thesis using 2(1) by (simp add: main_iteration_def)
  next
    case (2 q s2)
    note rd = this
    have b2: "blocks s2 = insert q (insert line (blocks s))" "q \<noteq> line" "q \<notin> blocks s"
      using rd(2,3) \<open>blocks s1 = insert line (blocks s)\<close> by auto
    have "(if ?ws = [] then Inr (1, s2) else process_arglist e q ?ws s2) = Inl (Exit 1) \<or>
        (\<exists>s3. (if ?ws = [] then Inr (1, s2) else process_arglist e q ?ws s2) = Inr (1, s3) \<and> blocks s3 = blocks s2)"
      using process_arglist_blocks [OF assms(2), of e q s2] by auto
    then consider "(if ?ws = [] then Inr (1, s2) else process_arglist e q ?ws s2) = Inl (Exit 1)"
      | s3 where "(if ?ws = [] then Inr (1, s2) else process_arglist e q ?ws s2) = Inr (1, s3)" "blocks s3 = blocks s2"
      by blast
    then show ?thesis
    proof cases
      case 1
      then show ?thesis using \<open>malloc e s = (Some line, s1)\<close> rd(1) by (simp add: main_iteration_def)
    next
      case (2 s3)
      then show ?thesis using \<open>malloc e s = (Some line, s1)\<close> rd(1) b2 line
        by (simp add: main_iteration_def free_block_def) auto
    qed
  qed
qed

lemma main_loop_blocks:
  assumes "alloc_ok e" "\<forall>buf \<in> set ls. fst (find_command_type (words_of (c_string buf))) \<noteq> BACKGROUND"
  shows "main_loop e ls s = Inl (Exit 1) \<or> (\<exists>s'. main_loop e ls s = Inr s' \<and> blocks s' = blocks s)"
  using assms(2)
proof (induction ls arbitrary: s)
  case Nil
  show ?case using assms(1) by (cases rule: malloc_cases [of e s]) (auto simp: free_block_def alloc_ok_def)
next
  case (Cons buf ls)
  consider "main_iteration e buf s = Inl (Exit 1)"
    | m s' where "main_iteration e buf s = Inr (m, s')" "blocks s' = blocks s"
    using iteration_blocks [OF assms(1), of buf s] Cons.prems by auto
  then show ?case
  proof cases
    case (2 m s')
    then show ?thesis using Cons.IH [of s'] Cons.prems by auto
  qed simp
qed

text \<open>Claim C39.  Memory of the shell: as long as no command is a background command, the shell frees
  every line and every argument list exactly once, whatever the lines and whatever fails; it then
  ends with the memory it started with, or exits because a request failed.\<close>

theorem shell_frees_all:
  assumes "alloc_ok e" "\<forall>buf \<in> set ls. fst (find_command_type (words_of (c_string buf))) \<noteq> BACKGROUND"
  shows "shell_main e prepared ls s = Inl (Exit 1) \<or>
    (\<exists>s'. shell_main e prepared ls s = Inr (0, s') \<and> blocks s' = blocks s)"
  using main_loop_blocks [OF assms, of s] by (auto simp: shell_main_def finalize_def)

theorem shell_frees_all_witness:
  "\<exists>s'. shell_main env0 0 [''ls -l'', '''', ''ls | wc''] shell0 = Inr (0, s') \<and> blocks s' = {} \<and> length (children s') = 3"
proof -
  have "fst (find_command_type (words_of (c_string b))) \<noteq> BACKGROUND" if "b \<in> set [''ls -l'', '''', ''ls | wc'']" for b
    using that by (auto simp: words_of_def c_string_def is_delim_def find_command_type_def first_char_def)
  then have r: "shell_main env0 0 [''ls -l'', '''', ''ls | wc''] shell0 = Inl (Exit 1) \<or>
    (\<exists>s'. shell_main env0 0 [''ls -l'', '''', ''ls | wc''] shell0 = Inr (0, s') \<and> blocks s' = blocks shell0)"
    using shell_frees_all [OF env0_alloc_ok, of "[''ls -l'', '''', ''ls | wc'']" 0 shell0] by blast
  have "(case shell_main env0 0 [''ls -l'', '''', ''ls | wc''] shell0 of Inl x \<Rightarrow> False | Inr (c, s') \<Rightarrow> length (children s') = 3)"
    by code_simp
  then show ?thesis using r by (auto simp: shell0_def split: sum.splits)
qed

text \<open>Claim C40.  A background command whose argument list is moved by \<open>realloc\<close> makes the shell free a
  block that is no longer allocated: \<open>handle_background\<close> reallocates the list of \<open>main\<close>, which
  keeps the old pointer and frees it.\<close>

theorem background_frees_twice:
  assumes "malloc e s = (Some line, s1)" "read_command e buf s1 = Inr (p, ws, s2)" "p \<in> blocks s2" "p \<noteq> line"
    "line \<in> blocks s2" "ws \<noteq> []" "fst (find_command_type ws) = BACKGROUND"
    "al e (reqs s2) (blocks s2 - {p}) = Some b" "b \<noteq> p" "fork_ok e (forks s2)"
  shows "main_iteration e buf s = Inl Bad_block"
proof -
  obtain loc where t: "find_command_type ws = (BACKGROUND, loc)" using assms(7) by (cases "find_command_type ws") auto
  obtain s3 where "process_arglist e p ws s2 = Inr (1, s3)" "blocks s3 = insert b (blocks s2 - {p})"
    using assms(3,8,10) by (auto simp: process_arglist_def t handle_background_def realloc_def fork_def Let_def)
  then show ?thesis using assms by (simp add: main_iteration_def free_block_def)
qed

theorem background_frees_twice_witness:
  "main_iteration env0 ''ls &'' shell0 = Inl Bad_block"
proof -
  obtain s1 where m: "malloc env0 shell0 = (Some 100, s1)" "s1 = \<lparr>blocks = {100}, reqs = 1, forks = 0, shell_fds = shell_fds shell0, children = []\<rparr>"
    by (simp add: malloc_def env0_def shell0_def)
  have "read_command env0 ''ls &'' s1 =
      Inr (103, [''ls'', ''&''], \<lparr>blocks = {100, 103}, reqs = 4, forks = 0, shell_fds = shell_fds shell0, children = []\<rparr>)"
    by (simp add: m(2) read_command_def malloc_def realloc_def env0_def c_string_def strtok_def is_delim_def) auto
  then show ?thesis
    by (rule background_frees_twice [OF m(1), where b = 104])
      (auto simp: find_command_type_def first_char_def env0_def)
qed

section \<open>Waiting for the children\<close>

text \<open>Claim C18.  No zombies: whenever no SIGCHLD is pending and the handler is not running, every child
  that has ended has been reaped, however the exits, the signals and the statements of the shell
  are interleaved.\<close>

theorem no_zombies:
  assumes "sig_reach s" "sigchld s = None" "\<not> in_handler s"
  shows "kids s p \<noteq> Some Zombie"
proof
  assume "kids s p = Some Zombie"
  then have "reapable (kids s p)" by simp
  then show False using kids_inv_reach [OF assms(1)] assms(2,3) unfolding kids_inv_def by blast
qed

lemma sig_run_reach: "sig_reach s \<Longrightarrow> sig_run es s = Some s' \<Longrightarrow> sig_reach s'"
  by (induction es arbitrary: s) (auto split: option.splits intro: sig_reach.step)

text \<open>A foreground job that ends while the shell waits, and a background job.\<close>

definition fg_events :: "sig_event list" where
  "fg_events = [Fork_bg 5, Fork_fg 7, Parent, Parent, Parent, Child_exits 7, Parent, Deliver, Reap 7, Handler_return]"

lemma fg_events_run:
  "\<exists>s. sig_run fg_events sig_init = Some s \<and> kids s 7 = None \<and> kids s 5 = Some Running \<and> sigchld s = None \<and>
     \<not> in_handler s \<and> spc s = Fg_wait 7 \<and> \<not> is_foreground s"
proof -
  have "map_option (\<lambda>s. (kids s 7, kids s 5, sigchld s, in_handler s, spc s, is_foreground s)) (sig_run fg_events sig_init) =
      Some (None, Some Running, None, False, Fg_wait 7, False)"
    by code_simp
  then show ?thesis by auto
qed

theorem no_zombies_witness:
  "\<exists>s. sig_run fg_events sig_init = Some s \<and> sigchld s = None \<and> \<not> in_handler s \<and> kids s 7 \<noteq> Some Zombie \<and>
     kids s 5 \<noteq> Some Zombie"
  using fg_events_run sig_run_reach [OF sig_reach.start] no_zombies by metis

text \<open>Claim C8.  The shell waits for its foreground jobs: from the fork of a process (or of one of the two
  processes of a pipe) on, and as long as no SIGINT arrives, it is not back at the prompt, nor
  waiting for anything else, while this process runs.  For a single process there is one exception:
  a SIGCHLD of the previous foreground child that is handled between the stores of
  \<^verbatim>\<open>is_foreground\<close> and \<^verbatim>\<open>current_fg_id\<close>.\<close>

theorem shell_waits:
  assumes "sig_reach s" "sig_run es s = Some s'" "Sigint \<notin> set es"
  shows "(spc s = Fg_flag p \<and> \<not> stale p es s \<and> kids s' p = Some Running \<longrightarrow>
      spc s' \<in> {Fg_flag p, Fg_id p, Fg_wait p}) \<and>
    (spc s = Pipe_set_writer w \<and> kids s' w = Some Running \<longrightarrow>
      spc s' \<in> {Pipe_set_writer w, Pipe_fork w} \<or> (\<exists>r. spc s' \<in> {Pipe_set_reader w r, Pipe_wait w r})) \<and>
    (spc s = Pipe_set_reader w r \<and> kids s' r = Some Running \<longrightarrow>
      spc s' \<in> {Pipe_set_reader w r, Pipe_wait w r})"
proof (intro conjI impI)
  note kids = kids_inv_reach [OF assms(1)] and pids = pids_inv_reach [OF assms(1)]
  {
    assume a: "spc s = Fg_flag p \<and> \<not> stale p es s \<and> kids s' p = Some Running"
    then have "fg_inv p s" using pids by (simp add: fg_inv_def pids_inv_def)
    then have "fg_inv p s'" using fg_inv_run [OF assms(2,3) kids] a by blast
    then show "spc s' \<in> {Fg_flag p, Fg_id p, Fg_wait p}" using a by (auto simp: fg_inv_def)
  next
    assume a: "spc s = Pipe_set_writer w \<and> kids s' w = Some Running"
    then have "writer_inv w s" using pids by (simp add: writer_inv_def pids_inv_def)
    then have "writer_inv w s'" by (rule writer_inv_run [OF assms(2,3) kids])
    then show "spc s' \<in> {Pipe_set_writer w, Pipe_fork w} \<or> (\<exists>r. spc s' \<in> {Pipe_set_reader w r, Pipe_wait w r})"
      using a by (cases "spc s'") (auto simp: writer_inv_def)
  next
    assume a: "spc s = Pipe_set_reader w r \<and> kids s' r = Some Running"
    then have "reader_inv w r s" using pids by (simp add: reader_inv_def pids_inv_def)
    then have "reader_inv w r s'" by (rule reader_inv_run [OF assms(2,3) kids])
    then show "spc s' \<in> {Pipe_set_reader w r, Pipe_wait w r}" using a by (auto simp: reader_inv_def)
  }
qed

text \<open>The exception: process 5 is stopped in the foreground, and ends when process 7 has been started
  but its id not been stored: the shell is back at the prompt while 7 runs.\<close>

definition stop_events :: "sig_event list" where
  "stop_events = [Fork_fg 5, Parent, Parent, Child_stops 5, Deliver, Reap 5, Handler_return, Parent, Fork_fg 7]"

definition stale_events :: "sig_event list" where
  "stale_events = [Parent, Child_exits 5, Deliver, Reap 5, Handler_return, Parent, Parent]"

theorem shell_waits_witness:
  "(\<exists>s s'. sig_run (take 2 fg_events) sig_init = Some s \<and> sig_run [Parent, Child_exits 5, Deliver, Reap 5, Handler_return, Parent, Parent] s = Some s' \<and>
     kids s' 7 = Some Running \<and> spc s' \<in> {Fg_flag 7, Fg_id 7, Fg_wait 7}) \<and>
   (\<exists>s s'. sig_run stop_events sig_init = Some s \<and> spc s = Fg_flag 7 \<and> sig_run stale_events s = Some s' \<and>
     stale 7 stale_events s \<and> kids s' 7 = Some Running \<and> spc s' = Prompt)"
proof
  let ?es = "[Parent, Child_exits 5, Deliver, Reap 5, Handler_return, Parent, Parent]"
  have "map_option (\<lambda>s. (spc s, stale 7 ?es s, map_option (\<lambda>s'. kids s' 7) (sig_run ?es s)))
      (sig_run (take 2 fg_events) sig_init) = Some (Fg_flag 7, False, Some (Some Running))"
    by code_simp
  then obtain s s' where s: "sig_run (take 2 fg_events) sig_init = Some s" "spc s = Fg_flag 7" "\<not> stale 7 ?es s"
      "sig_run ?es s = Some s'" "kids s' 7 = Some Running"
    by auto
  have "Sigint \<notin> set ?es" by code_simp
  then have "spc s' \<in> {Fg_flag 7, Fg_id 7, Fg_wait 7}"
    using shell_waits [OF sig_run_reach [OF sig_reach.start s(1)] s(4), of 7] s by blast
  then show "\<exists>s s'. sig_run (take 2 fg_events) sig_init = Some s \<and> sig_run ?es s = Some s' \<and>
     kids s' 7 = Some Running \<and> spc s' \<in> {Fg_flag 7, Fg_id 7, Fg_wait 7}"
    using s by blast
next
  have "map_option (\<lambda>s. (spc s, stale 7 stale_events s, map_option (\<lambda>s'. (kids s' 7, spc s')) (sig_run stale_events s)))
      (sig_run stop_events sig_init) = Some (Fg_flag 7, True, Some (Some Running, Prompt))"
    by code_simp
  then show "\<exists>s s'. sig_run stop_events sig_init = Some s \<and> spc s = Fg_flag 7 \<and> sig_run stale_events s = Some s' \<and>
     stale 7 stale_events s \<and> kids s' 7 = Some Running \<and> spc s' = Prompt"
    by auto
qed

text \<open>Claim C12.  The shell comes back, under three conditions: no SIGINT arrives, a foreground process
  still runs when the shell has set its flags, and no child exits or stops while an earlier SIGCHLD
  is pending.  Then the end of the process is noticed, and once its signal has been handled the
  shell returns to the prompt with its next step.  For a pipe whose processes have not been reaped
  when the flags are set the signals may coincide.  Without these conditions the shell may spin
  for ever, see \<open>lost_child_spins\<close>.\<close>

theorem shell_returns:
  assumes "sig_reach s" "sig_run es s = Some s'" "Sigint \<notin> set es" "sigchld s' = None" "\<not> in_handler s'"
  shows "(spc s = Fg_wait p \<and> is_foreground s \<and> current_fg_id s = p \<and> kids s p = Some Running \<and> no_overlap es s \<and>
      spc s' = Fg_wait p \<and> kids s' p \<noteq> Some Running \<longrightarrow> sig_step Parent s' = Some (s'\<lparr>spc := Prompt\<rparr>)) \<and>
    (spc s = Pipe_wait w r \<and> current_pipe_writer s = w \<and> current_pipe_reader s = r \<and>
      unreported (kids s w) \<and> unreported (kids s r) \<and>
      spc s' = Pipe_wait w r \<and> kids s' w = None \<and> kids s' r = None \<longrightarrow> sig_step Parent s' = Some (s'\<lparr>spc := Prompt\<rparr>))"
proof (intro conjI impI)
  assume a: "spc s = Fg_wait p \<and> is_foreground s \<and> current_fg_id s = p \<and> kids s p = Some Running \<and> no_overlap es s \<and>
      spc s' = Fg_wait p \<and> kids s' p \<noteq> Some Running"
  then have "fg_signalled p s" using pids_inv_reach [OF assms(1)] by (simp add: fg_signalled_def pids_inv_def)
  then have "fg_signalled p s'" using fg_signalled_run [OF assms(2)] a by blast
  then have "\<not> is_foreground s'" using a assms(4) by (simp add: fg_signalled_def)
  then show "sig_step Parent s' = Some (s'\<lparr>spc := Prompt\<rparr>)"
    using a assms(5) by (simp add: sig_step_def parent_step_def)
next
  assume a: "spc s = Pipe_wait w r \<and> current_pipe_writer s = w \<and> current_pipe_reader s = r \<and>
      unreported (kids s w) \<and> unreported (kids s r) \<and>
      spc s' = Pipe_wait w r \<and> kids s' w = None \<and> kids s' r = None"
  then have "pipe_inv w r s" using pids_inv_reach [OF assms(1)] by (simp add: pipe_inv_def pids_inv_def)
  then have "pipe_inv w r s'" by (rule pipe_inv_run [OF assms(2,3) kids_inv_reach [OF assms(1)]])
  then have "current_pipe_writer s' = 0" "current_pipe_reader s' = 0" using a by (auto simp: pipe_inv_def)
  then show "sig_step Parent s' = Some (s'\<lparr>spc := Prompt\<rparr>)"
    using a assms(5) by (simp add: sig_step_def parent_step_def)
qed

theorem shell_returns_witness:
  "\<exists>s s'. sig_run (take 4 fg_events) sig_init = Some s \<and> sig_run (drop 4 fg_events) s = Some s' \<and>
     sig_step Parent s' = Some (s'\<lparr>spc := Prompt\<rparr>)"
proof -
  have "map_option (\<lambda>s. (spc s, is_foreground s, current_fg_id s, kids s 7, no_overlap (drop 4 fg_events) s))
      (sig_run (take 4 fg_events) sig_init) = Some (Fg_wait 7, True, 7, Some Running, True)"
    by code_simp
  then obtain s where s: "sig_run (take 4 fg_events) sig_init = Some s" "spc s = Fg_wait 7" "is_foreground s"
      "current_fg_id s = 7" "kids s 7 = Some Running" "no_overlap (drop 4 fg_events) s"
    by auto
  have "map_option (\<lambda>s. (spc s, kids s 7, sigchld s, in_handler s))
      (Option.bind (sig_run (take 4 fg_events) sig_init) (sig_run (drop 4 fg_events))) = Some (Fg_wait 7, None, None, False)"
    by code_simp
  then obtain s' where s': "sig_run (drop 4 fg_events) s = Some s'" "spc s' = Fg_wait 7" "kids s' 7 = None"
      "sigchld s' = None" "\<not> in_handler s'"
    using s(1) by auto
  have "Sigint \<notin> set (drop 4 fg_events)" by code_simp
  then have "sig_step Parent s' = Some (s'\<lparr>spc := Prompt\<rparr>)"
    using shell_returns [OF sig_run_reach [OF sig_reach.start s(1)] s'(1) _ s'(4,5), of 7] s s' by simp
  then show ?thesis using s(1) s'(1) by blast
qed

text \<open>Claim C38.  A lost child: when the process that the shell waits for is already reaped and its
  signal is gone, the shell spins until the user presses Ctrl-C, whatever else happens.\<close>

theorem lost_child_spins:
  assumes "lost s" "sig_run es s = Some s'" "Sigint \<notin> set es"
  shows "spc s' = spc s \<and> lost s'"
  using lost_run [OF assms(2,3,1)] by blast

text \<open>This happens when the process ends before the flags are set, and when a background process
  ends just before the foreground process, so that their signals coincide.\<close>

theorem lost_child_spins_witness:
  "\<exists>s s'. sig_run [Fork_fg 7, Child_exits 7, Deliver, Reap 7, Handler_return, Parent, Parent] sig_init = Some s \<and>
     sig_run [Parent, Parent] s = Some s' \<and> spc s' = Fg_wait 7 \<and>
   (\<exists>u u'. sig_run [Fork_bg 5, Fork_fg 7, Parent, Parent, Child_exits 5, Child_exits 7, Deliver, Reap 5, Reap 7, Handler_return]
      sig_init = Some u \<and> sig_run [Parent, Parent] u = Some u' \<and> spc u' = Fg_wait 7)"
proof -
  have "map_option (\<lambda>s. (lost s, spc s, map_option (\<lambda>s. True) (sig_run [Parent, Parent] s)))
      (sig_run [Fork_fg 7, Child_exits 7, Deliver, Reap 7, Handler_return, Parent, Parent] sig_init) =
      Some (True, Fg_wait 7, Some True)"
    by code_simp
  then obtain s s' where s: "sig_run [Fork_fg 7, Child_exits 7, Deliver, Reap 7, Handler_return, Parent, Parent] sig_init = Some s"
      "lost s" "spc s = Fg_wait 7" "sig_run [Parent, Parent] s = Some s'"
    by auto
  have "map_option (\<lambda>s. (lost s, spc s, map_option (\<lambda>s. True) (sig_run [Parent, Parent] s)))
      (sig_run [Fork_bg 5, Fork_fg 7, Parent, Parent, Child_exits 5, Child_exits 7, Deliver, Reap 5, Reap 7, Handler_return]
        sig_init) = Some (True, Fg_wait 7, Some True)"
    by code_simp
  then obtain u u' where u: "sig_run [Fork_bg 5, Fork_fg 7, Parent, Parent, Child_exits 5, Child_exits 7, Deliver, Reap 5, Reap 7,
      Handler_return] sig_init = Some u" "lost u" "spc u = Fg_wait 7" "sig_run [Parent, Parent] u = Some u'"
    by auto
  have "spc s' = Fg_wait 7" using lost_child_spins [OF s(2,4)] s(3) by simp
  moreover have "spc u' = Fg_wait 7" using lost_child_spins [OF u(2,4)] u(3) by simp
  ultimately show ?thesis using s(1,4) u(1,4) by blast
qed

end
