(* ===== verification/Spec2Isabelle.thy ===== *)
theory Spec2Isabelle
  imports Page_Table_Thms Pcc_Thms Pcc_Setup Slot_Thms Pfind_Thms Pfind_Queue Shell_Thms
begin

text \<open>
  A verification of the programs of an operating-systems course.  The repository holds five
  independent homework programs in C; each is a group of theories here, and this theory imports
  them all.  \<^theory_text>\<open>Prelude\<close> has what they share: the fixed-width integers as words, pointers as
  addresses, and sequencing of operations that may fail.

  \<^bold>\<open>Page table\<close> (\<^verbatim>\<open>src/hw1_os/pt.c\<close>, \<^verbatim>\<open>os.c\<close>, \<^verbatim>\<open>os.h\<close>).  \<^theory_text>\<open>Pte\<close>: the macros on entries and virtual page
  numbers, on 64-bit words.  \<^theory_text>\<open>Os_Memory\<close>: memory as a partial map from addresses to cells, the
  frame allocator and \<^verbatim>\<open>phys_to_virt\<close>; \<^verbatim>\<open>mmap\<close> is a parameter with its documented contract.
  \<^theory_text>\<open>Frame_Store\<close>: the interface between the two as a locale, with the abstract meaning of a page
  table (a map from page numbers to frames per root) and the forest of tables; \<^theory_text>\<open>Os_Memory\<close>
  interprets it.  \<^theory_text>\<open>Page_Table\<close>: \<^verbatim>\<open>page_walk\<close>, \<^verbatim>\<open>page_table_update\<close>, \<^verbatim>\<open>page_table_query\<close> and the driver
  \<^verbatim>\<open>main\<close>.  \<^theory_text>\<open>Page_Table_Thms\<close>: update and query refine the update and the lookup of one map per
  root, never touch unmapped memory, and fail only when memory is exhausted.

  \<^bold>\<open>Shell\<close> (\<^verbatim>\<open>src/hw2_os/shell.c\<close>, \<^verbatim>\<open>myshell.c\<close>).  \<^theory_text>\<open>Shell_Words\<close>: \<^verbatim>\<open>strtok\<close> and the reference definition of
  the words of a line.  \<^theory_text>\<open>Shell_Command\<close>: the loop of \<^verbatim>\<open>main\<close> with its memory, \<^verbatim>\<open>find_command_type\<close> and the
  four handlers with the open files of the shell; a child is described by the program it runs, its
  arguments, its open files and its treatment of SIGINT.  \<^theory_text>\<open>Shell_Signals\<close>: the waiting of the parent, statement by statement,
  with both signal handlers and the kernel's part (children end or stop at any moment, SIGCHLD is
  pending at most once).  \<^theory_text>\<open>Shell_Thms\<close>: the words, processes and files of every kind of command,
  the memory of the argument lists, that the shell leaves no zombies, from the fork on waits for
  its foreground jobs, comes back after them, and when it does not.

  \<^bold>\<open>Message slot\<close> (\<^verbatim>\<open>src/hw3_os/message_slot.c\<close>, \<^verbatim>\<open>message_sender.c\<close>, \<^verbatim>\<open>message_reader.c\<close>).  \<^theory_text>\<open>Slot_Heap\<close>: slots,
  channels and buffers in typed heaps, with the kernel's allocator as a parameter.  \<^theory_text>\<open>Message_Slot\<close>:
  the operations of the driver.  \<^theory_text>\<open>Slot_Invariant\<close>, \<^theory_text>\<open>Slot_Ops\<close>, \<^theory_text>\<open>Slot_Cleanup\<close>: the invariant of its
  lists, the abstract state (a message per minor and channel) and the effect of each operation
  on both.  \<^theory_text>\<open>Slot_System\<close>: processes with open files.  \<^theory_text>\<open>Slot_Tools\<close>: the two programs over the
  locale \<open>message_device\<close>, which the driver interprets.  \<^theory_text>\<open>Slot_Thms\<close>: the properties.

  \<^bold>\<open>Parallel search\<close> (\<^verbatim>\<open>src/hw4_os/pfind.c\<close>).  \<^theory_text>\<open>Pfind_Machine\<close>: the searching threads and the main thread
  as a machine whose steps are the code between two operations on shared state, with spurious
  wake-ups and failing allocations as events of their own.  \<^theory_text>\<open>Pfind_Steps\<close>, \<^theory_text>\<open>Pfind_Inv\<close>: case
  analysis and the invariants of locks, phases and queues.  \<^theory_text>\<open>Pfind_Count\<close>, \<^theory_text>\<open>Pfind_Result\<close>: what is
  opened, pending and counted, and that it adds up to the reachable directories.  \<^theory_text>\<open>Pfind_Live\<close>:
  deadlock freedom.  \<^theory_text>\<open>Pfind_Term\<close>: a measure that bounds every run; directories nest only as deep as
  \<open>PATH_MAX = 4096\<close> allows, because a longer path kills the process.  \<^theory_text>\<open>Pfind_Queue\<close>: the two doubly
  linked queues refine the lists of the machine, through the locale \<open>fifo_queue\<close> that both
  interpret, as long as they have fewer than \<open>2^32\<close> entries.  \<^theory_text>\<open>Pfind_Thms\<close>: the properties.

  \<^bold>\<open>Printable characters\<close> (\<^verbatim>\<open>src/hw5_os/pcc_server.c\<close>, \<^verbatim>\<open>pcc_client.c\<close>).  \<^theory_text>\<open>Byte_Streams\<close>: byte order, reads and
  writes that transfer arbitrary parts.  \<^theory_text>\<open>Pcc_Server\<close>, \<^theory_text>\<open>Pcc_Machine\<close>: the transfers of the server, its loop,
  and SIGINT between any two statements or in a blocked call.  The signals are those of the build
  that \<^verbatim>\<open>pcc.pdf\<close> prescribes (\<^verbatim>\<open>-std=c11 -D_POSIX_C_SOURCE=200809\<close>): the handler is called once, a call that
  it interrupts fails with \<^verbatim>\<open>EINTR\<close>, and a write to a client that is gone kills the server by
  \<^verbatim>\<open>SIGPIPE\<close>.  \<^theory_text>\<open>Pcc_Setup\<close>: its listening socket and the printed totals.
  \<^theory_text>\<open>Pcc_Client\<close>: the client.  \<^theory_text>\<open>Pcc_Thms\<close>: the totals count exactly the clients served, client and
  server together count the printable characters of a file below \<open>2^31\<close> bytes, and what
  signals, broken connections and larger files do instead.

  \<^bold>\<open>Conventions.\<close>  A definition has the name of the C function or type it models.  Errors are values:
  a sum with the exit code or the invalid access, or \<^const>\<open>None\<close> where a step is not possible.  Loops
  that end are recursive functions with a termination proof; loops that need not end are partial
  functions in the option type (the walks over the linked lists of the driver and of the thread
  queue, the client's loop for the server's reply), and the properties say when they return.  No
  fuel is used.

  \<^bold>\<open>Properties that need an assumption\<close> state it: no spurious wake-ups and no failing allocations
  for the progress of the search, distinct entry names without slashes for its result, no
  coinciding signals and a child that still runs when the flags are set for the return of the
  shell, memory for a new channel for the isolation of the channels.  Where the code relies on
  such an assumption without checking it, a theorem shows what happens otherwise.

  \<^bold>\<open>Not modelled.\<close>  The texts on standard error and of permission messages; the overflow of the
  counter of found files; children that continue after a stop; the reuse of process ids; the
  time between the handlers' installation and the first command.  \<^verbatim>\<open>hw2_os/back.c\<close>, \<^verbatim>\<open>hw3_os/my_tester.c\<close> and
  the Python test are test programs, the \<^verbatim>\<open>Makefile\<close> builds the module.
\<close>

end
